(* ===== verification/Prelude.thy ===== *)
theory Prelude
  imports Main "HOL-Library.Word" "HOL-Library.Monad_Syntax"
begin

text \<open>
  Shared vocabulary of the ZanOS development.

  \<^item> The machine types: the kernel is built for \<open>arm-none-eabi\<close> (Cortex-M3), where
    \<open>int\<close>, \<open>unsigned\<close> and pointers have 32 bits and plain \<open>char\<close> is unsigned;
    \<open>u8\<close>, \<open>u16\<close> and \<open>u32\<close> are the words of HOL-Library.
  \<^item> Checked array accesses: \<open>aget\<close> and \<open>aset\<close> are \<open>a[i]\<close> and \<open>a[i] = v\<close> of an
    array object; an index outside the object is \<open>None\<close>, so that a theorem saying that an
    operation returns \<open>Some\<close> also says that it stays inside its objects.
  \<^item> C strings: a pointer to characters is the list of bytes from the pointer to the end of
    the object; \<open>cstr\<close> is the text before the terminating zero, \<open>lit\<close> a string literal.
  \<^item> Little-endian words: \<open>le16\<close>, \<open>le32\<close> and their inverses.
\<close>

unbundle bit_operations_syntax

type_synonym u8 = "8 word"
type_synonym u16 = "16 word"
type_synonym u32 = "32 word"
type_synonym bytes = "8 word list"

named_theorems aset_simps \<open>rules that evaluate checked array accesses\<close>
named_theorems cstr_simps \<open>rules about zero-terminated byte lists\<close>

section \<open>Machine words\<close>

lemma unat_u8_lt: "unat (w :: u8) < 256"
  using unsigned_less[of w] by simp

lemma unat_u16_lt: "unat (w :: u16) < 65536"
  using unsigned_less[of w] by simp

lemma unat_u32_lt: "unat (w :: u32) < 4294967296"
  using unsigned_less[of w] by simp

lemma uint_u8_lt: "uint (w :: u8) < 256"
  using unsigned_less[of w] by simp

lemma uint_u32_lt: "uint (w :: u32) < 4294967296"
  using unsigned_less[of w] by simp

lemma unat_ucast_up [simp]:
  "unat (ucast (a :: u8) :: u16) = unat a" "unat (ucast (a :: u8) :: u32) = unat a"
  "unat (ucast (b :: u16) :: u32) = unat b"
  using unat_u8_lt[of a] unat_u16_lt[of b]
  by (simp_all add: unsigned_ucast_eq take_bit_nat_eq_self)

lemma unat_add_small: "unat x + unat y < 2 ^ LENGTH('a) \<Longrightarrow> unat (x + y) = unat x + unat (y :: 'a::len word)"
  by (simp add: unat_word_ariths)

lemma unat_less_plus_1: "i < (t :: 'a::len word) \<Longrightarrow> unat (i + 1) = Suc (unat i)"
proof -
  assume "i < t"
  then have "Suc (unat i) < 2 ^ LENGTH('a)"
    using unsigned_less[of t, where 'a = nat] by (simp only: word_less_nat_alt)
  then show ?thesis by (simp add: unat_word_ariths)
qed

section \<open>Checked arrays\<close>

definition aget :: "'a list \<Rightarrow> nat \<Rightarrow> 'a option" where
  "aget xs i = (if i < length xs then Some (xs ! i) else None)"

definition aset :: "'a list \<Rightarrow> nat \<Rightarrow> 'a \<Rightarrow> 'a list option" where
  "aset xs i v = (if i < length xs then Some (xs[i := v]) else None)"

lemma aget_Some_iff [aset_simps]: "aget xs i = Some v \<longleftrightarrow> i < length xs \<and> xs ! i = v"
  by (simp add: aget_def)

lemma aset_Some_iff [aset_simps]: "aset xs i v = Some ys \<longleftrightarrow> i < length xs \<and> ys = xs[i := v]"
  by (auto simp: aset_def)

lemma aget_in [simp]: "i < length xs \<Longrightarrow> aget xs i = Some (xs ! i)"
  by (simp add: aget_def)

lemma aset_in [simp]: "i < length xs \<Longrightarrow> aset xs i v = Some (xs[i := v])"
  by (simp add: aset_def)

lemma aget_out [simp]: "length xs \<le> i \<Longrightarrow> aget xs i = None"
  by (simp add: aget_def)

lemma aset_out [simp]: "length xs \<le> i \<Longrightarrow> aset xs i v = None"
  by (simp add: aset_def)

lemma aget_None_iff [aset_simps]: "aget xs i = None \<longleftrightarrow> length xs \<le> i"
  by (simp add: aget_def not_less)

lemma aset_None_iff [aset_simps]: "aset xs i v = None \<longleftrightarrow> length xs \<le> i"
  by (simp add: aset_def not_less)

lemma take_Suc_update:
  "i < length xs \<Longrightarrow> take (Suc i) (xs[i := v]) = take i xs @ [v]"
  by (simp add: take_Suc_conv_app_nth)

section \<open>C strings\<close>

definition cstr :: "bytes \<Rightarrow> bytes" where
  "cstr s = takeWhile (\<lambda>c. c \<noteq> 0) s"

definition terminated :: "bytes \<Rightarrow> bool" where
  "terminated s \<longleftrightarrow> 0 \<in> set s"

definition ascii :: "string \<Rightarrow> bytes" where
  "ascii s = map of_char s"

definition lit :: "string \<Rightarrow> bytes" where
  "lit s = ascii s @ [0]"

lemma cstr_Nil [simp]: "cstr [] = []"
  by (simp add: cstr_def)

lemma cstr_Cons [simp]: "cstr (c # s) = (if c = 0 then [] else c # cstr s)"
  by (simp add: cstr_def)

lemma terminated_Nil [simp]: "\<not> terminated []"
  by (simp add: terminated_def)

lemma terminated_Cons [simp]: "terminated (c # s) \<longleftrightarrow> c = 0 \<or> terminated s"
  by (auto simp: terminated_def)

lemma zero_notin_cstr [simp]: "0 \<notin> set (cstr s)"
  by (induction s) auto

lemma cstr_nonzero: "c \<in> set (cstr s) \<Longrightarrow> c \<noteq> 0"
  using zero_notin_cstr by metis

lemma terminated_append_zero [simp]: "terminated (s @ 0 # t)"
  by (simp add: terminated_def)

lemma cstr_append_zero [cstr_simps]: "0 \<notin> set s \<Longrightarrow> cstr (s @ 0 # t) = s"
  by (induction s) auto

lemma terminated_split:
  assumes "terminated s"
  obtains t where "s = cstr s @ 0 # t"
  using assms
proof (induction s arbitrary: thesis)
  case Nil
  then show ?case by simp
next
  case (Cons c s)
  show ?case
  proof (cases "c = 0")
    case True
    with Cons.prems(1)[of s] show ?thesis by simp
  next
    case False
    with Cons.prems(2) have "terminated s" by simp
    then obtain t where "s = cstr s @ 0 # t" by (rule Cons.IH[rotated])
    with False Cons.prems(1)[of t] show ?thesis by simp
  qed
qed

lemma length_cstr_less: "terminated s \<Longrightarrow> length (cstr s) < length s"
  by (induction s) auto

lemma length_cstr_le: "length (cstr s) \<le> length s"
  by (induction s) auto

lemma nth_cstr: "i < length (cstr s) \<Longrightarrow> cstr s ! i = s ! i"
  by (simp add: cstr_def takeWhile_nth)

lemma nth_length_cstr: "terminated s \<Longrightarrow> s ! length (cstr s) = 0"
  by (induction s) auto

lemma nth_cstr_nonzero: "i < length (cstr s) \<Longrightarrow> s ! i \<noteq> 0"
  using nth_mem[of i "cstr s"] cstr_nonzero[of "cstr s ! i" s] by (simp add: nth_cstr)

lemma cstr_end_iff:
  "terminated s \<Longrightarrow> i \<le> length (cstr s) \<Longrightarrow> s ! i = 0 \<longleftrightarrow> i = length (cstr s)"
  using nth_cstr_nonzero[of i s] nth_length_cstr[of s] by (cases "i = length (cstr s)") auto

lemma cstr_cstr [simp]: "0 \<notin> set s \<Longrightarrow> cstr s = s"
  by (induction s) auto

lemma length_ascii [simp]: "length (ascii s) = length s"
  by (simp add: ascii_def)

lemma terminated_lit [simp]: "terminated (lit s)"
  by (simp add: lit_def)

lemma cstr_lit [cstr_simps]: "0 \<notin> set (ascii s) \<Longrightarrow> cstr (lit s) = ascii s"
  by (simp add: lit_def cstr_append_zero)

section \<open>Little-endian words\<close>

lemma unat_and_ffff: "unat (w AND 0xFFFF :: u32) = unat w mod 65536"
proof -
  have "w AND 0xFFFF = take_bit 16 w" by (simp add: take_bit_eq_mask mask_eq_decr_exp)
  then show ?thesis by (simp add: unat_mod take_bit_eq_mod)
qed

definition byte_at :: "nat \<Rightarrow> 'a::len word \<Rightarrow> u8" where
  "byte_at k w = ucast (drop_bit (8 * k) w)"

definition le16 :: "u8 \<Rightarrow> u8 \<Rightarrow> u16" where
  "le16 a b = ucast a OR push_bit 8 (ucast b)"

definition le32 :: "u8 \<Rightarrow> u8 \<Rightarrow> u8 \<Rightarrow> u8 \<Rightarrow> u32" where
  "le32 a b c d = ucast a OR push_bit 8 (ucast b) OR push_bit 16 (ucast c) OR push_bit 24 (ucast d)"

lemma bit_word8_out [simp]: "8 \<le> n \<Longrightarrow> \<not> bit (a :: u8) n"
  using bit_imp_le_length[of a n] by auto

lemma byte_at_le16 [simp]:
  "byte_at 0 (le16 a b) = a" "byte_at 1 (le16 a b) = b" "byte_at (Suc 0) (le16 a b) = b"
  by (auto simp: byte_at_def le16_def bit_eq_iff bit_simps)

lemma byte_at_le32 [simp]:
  "byte_at 0 (le32 a b c d) = a" "byte_at 1 (le32 a b c d) = b"
  "byte_at (Suc 0) (le32 a b c d) = b"
  "byte_at 2 (le32 a b c d) = c" "byte_at 3 (le32 a b c d) = d"
  by (auto simp: byte_at_def le32_def bit_eq_iff bit_simps)

lemma le32_byte_at: "le32 (byte_at 0 w) (byte_at 1 w) (byte_at 2 w) (byte_at 3 w) = w"
proof (rule bit_word_eqI)
  fix n assume "n < LENGTH(32)"
  then consider "n < 8" | "8 \<le> n \<and> n < 16" | "16 \<le> n \<and> n < 24" | "24 \<le> n \<and> n < 32"
    by fastforce
  then show "bit (le32 (byte_at 0 w) (byte_at 1 w) (byte_at 2 w) (byte_at 3 w)) n = bit w n"
    by cases (auto simp: le32_def byte_at_def bit_simps)
qed

lemma le16_byte_at: "le16 (byte_at 0 w) (byte_at 1 w) = w"
proof (rule bit_word_eqI)
  fix n assume "n < LENGTH(16)"
  then consider "n < 8" | "8 \<le> n \<and> n < 16"
    by fastforce
  then show "bit (le16 (byte_at 0 w) (byte_at 1 w)) n = bit w n"
    by cases (auto simp: le16_def byte_at_def bit_simps)
qed

section \<open>Fields of packed structures\<close>

text \<open>
  Reads and writes of 16- and 32-bit fields at a byte offset of an object, little-endian as
  on the target.
\<close>

definition rd16 :: "bytes \<Rightarrow> nat \<Rightarrow> u16 option" where
  "rd16 p k = do { a \<leftarrow> aget p k; b \<leftarrow> aget p (k + 1); Some (le16 a b) }"

definition rd32 :: "bytes \<Rightarrow> nat \<Rightarrow> u32 option" where
  "rd32 p k = do {
     a \<leftarrow> aget p k; b \<leftarrow> aget p (k + 1); c \<leftarrow> aget p (k + 2); d \<leftarrow> aget p (k + 3);
     Some (le32 a b c d) }"

definition wr16 :: "bytes \<Rightarrow> nat \<Rightarrow> u16 \<Rightarrow> bytes option" where
  "wr16 p k v = do { p \<leftarrow> aset p k (byte_at 0 v); aset p (k + 1) (byte_at 1 v) }"

definition wr32 :: "bytes \<Rightarrow> nat \<Rightarrow> u32 \<Rightarrow> bytes option" where
  "wr32 p k v = do {
     p \<leftarrow> aset p k (byte_at 0 v); p \<leftarrow> aset p (k + 1) (byte_at 1 v);
     p \<leftarrow> aset p (k + 2) (byte_at 2 v); aset p (k + 3) (byte_at 3 v) }"

definition bytes16 :: "u16 \<Rightarrow> bytes" where
  "bytes16 v = [byte_at 0 v, byte_at 1 v]"

definition bytes32 :: "u32 \<Rightarrow> bytes" where
  "bytes32 v = [byte_at 0 v, byte_at 1 v, byte_at 2 v, byte_at 3 v]"

lemma length_bytes16 [simp]: "length (bytes16 v) = 2"
  by (simp add: bytes16_def)

lemma length_bytes32 [simp]: "length (bytes32 v) = 4"
  by (simp add: bytes32_def)

lemma rd16_in [simp]: "Suc k < length p \<Longrightarrow> rd16 p k = Some (le16 (p ! k) (p ! Suc k))"
  by (simp add: rd16_def)

lemma rd32_in [simp]:
  "k + 3 < length p \<Longrightarrow> rd32 p k = Some (le32 (p ! k) (p ! (k + 1)) (p ! (k + 2)) (p ! (k + 3)))"
  by (simp add: rd32_def)

lemma rd16_out [simp]: "length p \<le> Suc k \<Longrightarrow> rd16 p k = None"
  by (auto simp: rd16_def aget_def)

lemma wr16_in: "Suc k < length p \<Longrightarrow> wr16 p k v = Some (p[k := byte_at 0 v, Suc k := byte_at 1 v])"
  by (simp add: wr16_def)

lemma wr32_in:
  "k + 3 < length p \<Longrightarrow> wr32 p k v =
    Some (p[k := byte_at 0 v, k + 1 := byte_at 1 v, k + 2 := byte_at 2 v, k + 3 := byte_at 3 v])"
  by (simp add: wr32_def)

end
