(* ===== verification/Console.thy ===== *)
theory Console
  imports Prelude
begin

text \<open>
  The contract between the UART driver and every component that prints: a character
  written on a live console is appended to the output, nothing else of the output changes,
  and the console stays live. \<open>emits\<close> says that a printing operation returns and adds
  exactly the given bytes; its composition rules are proved once here and carry the proofs
  of all the printing code of the kernel. \<open>Uart\<close> interprets the locale on its driver.
\<close>

locale console =
  fixes putc :: "u8 \<Rightarrow> 's \<Rightarrow> 's option"
    and out :: "'s \<Rightarrow> bytes"
    and live :: "'s \<Rightarrow> bool"
  assumes putc_live: "live s \<Longrightarrow> \<exists>s'. putc c s = Some s' \<and> out s' = out s @ [c] \<and> live s'"
begin

definition emits :: "('s \<Rightarrow> 's option) \<Rightarrow> bytes \<Rightarrow> bool" where
  "emits f bs \<longleftrightarrow> (\<forall>s. live s \<longrightarrow> (\<exists>s'. f s = Some s' \<and> out s' = out s @ bs \<and> live s'))"

lemma emitsI:
  "(\<And>s. live s \<Longrightarrow> \<exists>s'. f s = Some s' \<and> out s' = out s @ bs \<and> live s') \<Longrightarrow> emits f bs"
  by (simp add: emits_def)

lemma emitsE:
  assumes "emits f bs" "live s"
  obtains s' where "f s = Some s'" "out s' = out s @ bs" "live s'"
  using assms by (auto simp: emits_def)

lemma emits_putc [intro]: "emits (putc c) [c]"
  by (rule emitsI) (rule putc_live)

lemma emits_skip [intro]: "emits Some []"
  by (rule emitsI) simp

lemma emits_seq [intro]:
  assumes "emits f bs" and "emits g cs"
  shows "emits (\<lambda>s. f s \<bind> g) (bs @ cs)"
proof (rule emitsI)
  fix s assume "live s"
  with assms(1) obtain s1 where s1: "f s = Some s1" "out s1 = out s @ bs" "live s1"
    by (rule emitsE)
  from assms(2) s1(3) obtain s2 where s2: "g s1 = Some s2" "out s2 = out s1 @ cs" "live s2"
    by (rule emitsE)
  from s1 s2 show "\<exists>s'. f s \<bind> g = Some s' \<and> out s' = out s @ bs @ cs \<and> live s'"
    by simp
qed

lemma emits_if [intro]:
  "(b \<Longrightarrow> emits f bs) \<Longrightarrow> (\<not> b \<Longrightarrow> emits g cs) \<Longrightarrow>
    emits (\<lambda>s. if b then f s else g s) (if b then bs else cs)"
  by (simp add: emits_def)

lemma emits_cong: "emits f bs \<Longrightarrow> bs = cs \<Longrightarrow> emits f cs"
  by simp

end

end
