(* ===== verification/Uart.thy ===== *)
theory Uart
  imports Console
begin

text \<open>
  The UART driver, \<open>src/src/uart.c\<close>.

  The two registers of the device are \<open>volatile\<close>: the value of the flag register
  \<open>UART0FR\<close> at its \<open>n\<close>-th read is \<open>fr n\<close>, the value of the data register
  \<open>UART0DR\<close> at its \<open>n\<close>-th read is \<open>dr n\<close>, both chosen by the environment; what the
  driver writes to \<open>UART0DR\<close> is appended to \<open>tx\<close>. The busy-wait loops are
  \<^theory_text>\<open>partial_function\<close>s: \<open>None\<close> is waiting forever (or reading outside
  a string object). A UART is \<open>live\<close> when its transmit FIFO has room again and again.
\<close>

record uart =
  fr :: "nat \<Rightarrow> u32"
  fr_pos :: nat
  dr :: "nat \<Rightarrow> u32"
  dr_pos :: nat
  tx :: "u32 list"

definition read_fr :: "uart \<Rightarrow> u32 \<times> uart" where
  "read_fr u = (fr u (fr_pos u), u\<lparr>fr_pos := Suc (fr_pos u)\<rparr>)"

definition read_dr :: "uart \<Rightarrow> u32 \<times> uart" where
  "read_dr u = (dr u (dr_pos u), u\<lparr>dr_pos := Suc (dr_pos u)\<rparr>)"

definition write_dr :: "u32 \<Rightarrow> uart \<Rightarrow> uart" where
  "write_dr v u = u\<lparr>tx := tx u @ [v]\<rparr>"

section \<open>The driver\<close>

text \<open>\<open>while (UART0FR & (1 << b));\<close>\<close>

partial_function (option) wait_fr :: "nat \<Rightarrow> uart \<Rightarrow> uart option" where
  "wait_fr b u =
     (case read_fr u of (v, u') \<Rightarrow>
        if v AND push_bit b 1 \<noteq> 0 then wait_fr b u' else Some u')"

definition uart_getc :: "uart \<Rightarrow> (u8 \<times> uart) option" where
  "uart_getc u = do {
     u \<leftarrow> wait_fr 4 u;
     let (v, u) = read_dr u;
     Some (ucast (v AND 0xFF), u)
   }"

definition uart_has_data :: "uart \<Rightarrow> bool \<times> uart" where
  "uart_has_data u = (case read_fr u of (v, u') \<Rightarrow> (\<not> (v AND push_bit 4 1 \<noteq> 0), u'))"

fun uart_print :: "bytes \<Rightarrow> uart \<Rightarrow> uart option" where
  "uart_print [] u = None"
| "uart_print (c # s) u =
     (if c \<noteq> 0 then do {
        u \<leftarrow> wait_fr 5 u;
        uart_print s (write_dr (ucast c) u)
      } else Some u)"

definition uart_putc :: "u8 \<Rightarrow> uart \<Rightarrow> uart option" where
  "uart_putc c u = do {
     u \<leftarrow> wait_fr 5 u;
     Some (write_dr (ucast c) u)
   }"

definition uart_println :: "bytes \<Rightarrow> uart \<Rightarrow> uart option" where
  "uart_println s u = do {
     u \<leftarrow> uart_print s u;
     uart_putc 10 u
   }"

text \<open>
  \<open>uart_print_int\<close>: the division by ten is a subtraction loop (\<open>sub10\<close> is the inner
  \<open>while (n >= 10)\<close>), the digits go to \<open>buf[16]\<close> least significant first
  (\<open>int_digits\<close> is the outer loop) and are printed backwards (\<open>put_down\<close> is
  \<open>while (i--)\<close>).
\<close>

function sub10 :: "int \<Rightarrow> int \<Rightarrow> int \<times> int" where
  "sub10 n digit = (if n \<ge> 10 then sub10 (n - 10) (digit + 1) else (n, digit))"
  by pat_completeness auto
termination
  by (relation "measure (\<lambda>(n, digit). nat n)") auto

declare sub10.simps [simp del]

lemma sub10_eq: "0 \<le> n \<Longrightarrow> sub10 n d = (n mod 10, d + n div 10)"
proof (induction n d rule: sub10.induct)
  case (1 n d)
  show ?case
  proof (cases "n \<ge> 10")
    case True
    with 1 have "sub10 (n - 10) (d + 1) = ((n - 10) mod 10, d + 1 + (n - 10) div 10)"
      by simp
    moreover have "(n - 10) mod 10 = n mod 10" "(n - 10) div 10 = n div 10 - 1"
      using mod_diff_right_eq[of n 10 10] div_add_self2[of 10 "n - 10"] by simp_all
    ultimately show ?thesis using True by (simp add: sub10.simps[of n d])
  next
    case False
    with 1(2) show ?thesis by (simp add: sub10.simps[of n d])
  qed
qed

function int_digits :: "int \<Rightarrow> nat \<Rightarrow> bytes \<Rightarrow> (nat \<times> bytes) option" where
  "int_digits n i buf =
     (if n > 0 then
        (case sub10 n 0 of (n', digit) \<Rightarrow>
          do {
            buf \<leftarrow> aset buf i (of_int (48 + n'));
            int_digits digit (Suc i) buf
          })
      else Some (i, buf))"
  by pat_completeness auto
termination
  by (relation "measure (\<lambda>(n, i, buf). nat n)") (auto simp: sub10_eq)

declare int_digits.simps [simp del]

fun put_down :: "nat \<Rightarrow> bytes \<Rightarrow> uart \<Rightarrow> uart option" where
  "put_down 0 buf u = Some u"
| "put_down (Suc i) buf u = do {
     c \<leftarrow> aget buf i;
     u \<leftarrow> uart_putc c u;
     put_down i buf u
   }"

definition uart_print_int :: "int \<Rightarrow> uart \<Rightarrow> uart option" where
  "uart_print_int n u =
     (if n = 0 then uart_putc 48 u
      else do {
        (i, buf) \<leftarrow> int_digits n 0 (replicate 16 0);
        put_down i buf u
      })"

text \<open>
  \<open>uart_print_hex\<close>: \<open>for (int i = 28; i >= 0; i -= 4)\<close>. The argument of \<open>hex_loop\<close> is
  the number of nibbles still to print, so \<open>i = 4 * k\<close> in its step.
\<close>

fun hex_loop :: "nat \<Rightarrow> u32 \<Rightarrow> uart \<Rightarrow> uart option" where
  "hex_loop 0 n u = Some u"
| "hex_loop (Suc k) n u = do {
     c \<leftarrow> aget (lit ''0123456789ABCDEF'') (unat (drop_bit (4 * k) n AND 0xF));
     u \<leftarrow> uart_putc c u;
     hex_loop k n u
   }"

definition uart_print_hex :: "u32 \<Rightarrow> uart \<Rightarrow> uart option" where
  "uart_print_hex n u = hex_loop 8 n u"

text \<open>
  \<open>uart_printf\<close>: the variable arguments are a list of words; \<open>va_arg(args, int)\<close> reads a
  word as signed, \<open>va_arg(args, char *)\<close> as a pointer, whose object is \<open>deref p\<close>.
\<close>

fun uart_printf :: "(u32 \<Rightarrow> bytes) \<Rightarrow> bytes \<Rightarrow> u32 list \<Rightarrow> uart \<Rightarrow> uart option" where
  "uart_printf deref [] args u = None"
| "uart_printf deref [f] args u = (if f = 0 then Some u else None)"
| "uart_printf deref (f # f' # fmt) args u =
     (if f = 0 then Some u
      else if f = 37 then
        (if f' = 115 then
           (case args of [] \<Rightarrow> None | a # args \<Rightarrow>
              do { u \<leftarrow> uart_print (deref a) u; uart_printf deref fmt args u })
         else if f' = 100 then
           (case args of [] \<Rightarrow> None | a # args \<Rightarrow>
              do { u \<leftarrow> uart_print_int (sint a) u; uart_printf deref fmt args u })
         else if f' = 120 \<or> f' = 112 \<or> f' = 88 then
           (case args of [] \<Rightarrow> None | a # args \<Rightarrow>
              do { u \<leftarrow> uart_print_hex a u; uart_printf deref fmt args u })
         else if f' = 37 then
           do { u \<leftarrow> uart_putc 37 u; uart_printf deref fmt args u }
         else uart_printf deref fmt args u)
      else do { u \<leftarrow> uart_putc f u; uart_printf deref (f' # fmt) args u })"

section \<open>The driver as a console\<close>

definition live :: "uart \<Rightarrow> bool" where
  "live u \<longleftrightarrow> (\<forall>n. \<exists>m \<ge> n. fr u m AND push_bit 5 1 = 0)"

definition sent :: "uart \<Rightarrow> bytes" where
  "sent u = map ucast (tx u)"

lemma wait_fr_Some:
  assumes "fr_pos u \<le> m" and "fr u m AND push_bit b 1 = 0"
  shows "\<exists>p. wait_fr b u = Some (u\<lparr>fr_pos := p\<rparr>)"
  using assms
proof (induction "m - fr_pos u" arbitrary: u)
  case 0
  then have "fr_pos u = m" by simp
  with 0 show ?case by (auto simp: wait_fr.simps[of b u] read_fr_def)
next
  case (Suc k)
  show ?case
  proof (cases "fr u (fr_pos u) AND push_bit b 1 = 0")
    case True
    then show ?thesis by (auto simp: wait_fr.simps[of b u] read_fr_def)
  next
    case False
    let ?u = "u\<lparr>fr_pos := Suc (fr_pos u)\<rparr>"
    have "\<exists>p. wait_fr b ?u = Some (?u\<lparr>fr_pos := p\<rparr>)"
      by (rule Suc.hyps(1)) (use Suc in auto)
    with False show ?thesis by (auto simp: wait_fr.simps[of b u] read_fr_def)
  qed
qed

lemma wait_fr_live: "live u \<Longrightarrow> \<exists>p. wait_fr 5 u = Some (u\<lparr>fr_pos := p\<rparr>)"
  unfolding live_def using wait_fr_Some[where b = 5] by blast

lemma uart_putc_live:
  assumes "live u"
  shows "\<exists>p. uart_putc c u = Some (write_dr (ucast c) (u\<lparr>fr_pos := p\<rparr>))"
  using wait_fr_live[OF assms] by (auto simp: uart_putc_def)

lemma live_write_dr [simp]: "live (write_dr v u) = live u"
  by (simp add: live_def write_dr_def)

lemma live_fr_pos [simp]: "live (u\<lparr>fr_pos := p\<rparr>) = live u"
  by (simp add: live_def)

lemma sent_fr_pos [simp]: "sent (u\<lparr>fr_pos := p\<rparr>) = sent u"
  by (simp add: sent_def)

lemma sent_write_dr [simp]: "sent (write_dr v u) = sent u @ [ucast v]"
  by (simp add: sent_def write_dr_def)

lemma ucast_u8_u32 [simp]: "ucast (ucast (c :: u8) :: u32) = c"
  by (simp add: bit_eq_iff bit_simps)

interpretation tty: console uart_putc sent live
  by unfold_locales (use uart_putc_live in fastforce)

lemma uart_print_eq: "terminated s \<Longrightarrow> tty.emits (uart_print s) (cstr s)"
proof (induction s)
  case Nil
  then show ?case by simp
next
  case (Cons c s)
  show ?case
  proof (cases "c = 0")
    case True
    then show ?thesis by (auto simp: tty.emits_def)
  next
    case False
    with Cons have "tty.emits (uart_print s) (cstr s)" by simp
    with tty.emits_seq[OF tty.emits_putc this, of c] False show ?thesis
      by (simp add: tty.emits_def uart_putc_def bind_assoc)
  qed
qed

lemma uart_println_emits [intro]:
  "terminated s \<Longrightarrow> tty.emits (uart_println s) (cstr s @ [10])"
  using tty.emits_seq[OF uart_print_eq tty.emits_putc, of s 10]
  by (simp add: tty.emits_def uart_println_def)

lemma uart_println_lit:
  assumes "live u"
  obtains u' where "uart_println (lit s) u = Some u'" "live u'"
    "sent u' = sent u @ cstr (lit s) @ [10]"
  using tty.emitsE[OF uart_println_emits[of "lit s"] assms] by auto

section \<open>Decimal output\<close>

fun decimal :: "nat \<Rightarrow> bytes" where
  "decimal n = (if n < 10 then [48 + of_nat n] else decimal (n div 10) @ [48 + of_nat (n mod 10)])"

declare decimal.simps [simp del]

fun digits_rev :: "nat \<Rightarrow> bytes" where
  "digits_rev n = (if n = 0 then [] else (48 + of_nat (n mod 10)) # digits_rev (n div 10))"

declare digits_rev.simps [simp del]

lemma digits_rev_0 [simp]: "digits_rev 0 = []"
  by (simp add: digits_rev.simps)

lemma digits_rev_pos: "0 < n \<Longrightarrow> digits_rev n = (48 + of_nat (n mod 10)) # digits_rev (n div 10)"
  by (simp add: digits_rev.simps[of n])

lemma rev_digits_rev: "0 < n \<Longrightarrow> rev (digits_rev n) = decimal n"
proof (induction n rule: decimal.induct)
  case (1 n)
  then show ?case
    by (cases "n < 10") (simp_all add: digits_rev_pos decimal.simps[of n])
qed

lemma length_digits_rev: "n < 10 ^ k \<Longrightarrow> length (digits_rev n) \<le> k"
proof (induction k arbitrary: n)
  case 0
  then show ?case by simp
next
  case (Suc k)
  show ?case
  proof (cases "n = 0")
    case False
    from Suc.prems have "n div 10 < 10 ^ k" by (simp add: less_mult_imp_div_less)
    with Suc.IH[of "n div 10"] False show ?thesis by (simp add: digits_rev_pos)
  qed simp
qed

lemma int_digits_eq:
  "i + length (digits_rev n) \<le> length buf \<Longrightarrow>
    int_digits (int n) i buf =
      Some (i + length (digits_rev n),
            take i buf @ digits_rev n @ drop (i + length (digits_rev n)) buf)"
proof (induction n arbitrary: i buf rule: less_induct)
  case (less n)
  show ?case
  proof (cases "n = 0")
    case True
    then show ?thesis by (simp add: int_digits.simps)
  next
    case False
    let ?d = "48 + of_nat (n mod 10) :: u8"
    have i: "i < length buf" using less.prems False by (simp add: digits_rev_pos)
    have dig: "sub10 (int n) 0 = (int (n mod 10), int (n div 10))"
      by (simp add: sub10_eq zmod_int zdiv_int)
    have "int_digits (int n) i buf = int_digits (int (n div 10)) (Suc i) (buf[i := ?d])"
      using False i by (simp add: int_digits.simps[of "int n"] dig)
    also have "\<dots> = Some (Suc i + length (digits_rev (n div 10)),
        take (Suc i) (buf[i := ?d]) @ digits_rev (n div 10) @
          drop (Suc i + length (digits_rev (n div 10))) (buf[i := ?d]))"
      by (rule less.IH) (use False less.prems in \<open>auto simp: digits_rev_pos\<close>)
    finally show ?thesis
      using False i by (simp add: digits_rev_pos take_Suc_update)
  qed
qed

lemma put_down_emits: "k \<le> length buf \<Longrightarrow> tty.emits (put_down k buf) (rev (take k buf))"
proof (induction k)
  case 0
  then show ?case by (auto simp: tty.emits_def)
next
  case (Suc k)
  then have "tty.emits (put_down k buf) (rev (take k buf))" by simp
  from tty.emits_seq[OF tty.emits_putc this, of "buf ! k"] Suc.prems show ?case
    by (simp add: tty.emits_def take_Suc_conv_app_nth)
qed

lemma uart_print_int_emits:
  assumes "0 \<le> n" "n < 2 ^ 31"
  shows "tty.emits (uart_print_int n) (decimal (nat n))"
proof (cases "n = 0")
  case True
  then show ?thesis
    using tty.emits_putc[of 48] by (simp add: tty.emits_def uart_print_int_def decimal.simps)
next
  case False
  define m where "m = nat n"
  with assms have m: "n = int m" "0 < m" "m < 10 ^ 10"
    using False by auto
  let ?ds = "digits_rev m"
  have len: "length ?ds \<le> 10" using m(3) by (rule length_digits_rev)
  have "int_digits n 0 (replicate 16 0) = Some (length ?ds, ?ds @ drop (length ?ds) (replicate 16 0))"
    using int_digits_eq[of 0 m "replicate 16 0"] len m by simp
  moreover have "tty.emits (put_down (length ?ds) (?ds @ drop (length ?ds) (replicate 16 0))) (decimal m)"
    using put_down_emits[of "length ?ds" "?ds @ drop (length ?ds) (replicate 16 0)"]
    by (simp add: rev_digits_rev m)
  ultimately show ?thesis
    using False m by (simp add: tty.emits_def uart_print_int_def)
qed

lemma uart_print_int_negative: "n < 0 \<Longrightarrow> uart_print_int n u = Some u"
  by (simp add: uart_print_int_def int_digits.simps)

text \<open>A port whose flags never show a full or empty queue.\<close>

definition idle_uart :: uart where
  "idle_uart = \<lparr>fr = (\<lambda>_. 0), fr_pos = 0, dr = (\<lambda>_. 0), dr_pos = 0, tx = []\<rparr>"

lemma live_idle_uart [simp]: "live idle_uart"
  by (auto simp: live_def idle_uart_def)

end
