(* ===== verification/Shell.thy ===== *)
theory Shell
  imports Uart
begin

text \<open>
  The input side of the shell, \<open>src/src/main.c\<close>: \<open>lwip_poll\<close>, which the shell calls whenever it
  waits, \<open>getline\<close>, and the callback of the command \<open>host\<close>. What lwIP does when it is polled is a
  parameter: it may print, but it takes no character from the UART. \<open>None\<close> is an access outside
  a buffer or waiting forever.
\<close>

record 'w kern =
  kuart :: uart
  eth_rx_flag :: bool
  net :: 'w

record 'w stack =
  check_timeouts :: "'w kern \<Rightarrow> 'w kern option"
  input_frame :: "'w kern \<Rightarrow> 'w kern option"

text \<open>The result and the flag that the callback of \<open>dns_gethostbyname\<close> stores.\<close>

definition dns_callback :: "u32 option \<Rightarrow> u32 \<times> bool" where
  "dns_callback ipaddr = (case ipaddr of Some ip \<Rightarrow> ip | None \<Rightarrow> 0, True)"

definition lwip_poll :: "'w stack \<Rightarrow> 'w kern \<Rightarrow> 'w kern option" where
  "lwip_poll env k = do {
     k \<leftarrow> check_timeouts env k;
     if eth_rx_flag k then input_frame env (k\<lparr>eth_rx_flag := False\<rparr>) else Some k
   }"

definition rubout :: bytes where
  "rubout = [8, 32, 8, 0]"

partial_function (option) getline_loop ::
    "'w stack \<Rightarrow> int \<Rightarrow> nat \<Rightarrow> bytes \<Rightarrow> 'w kern \<Rightarrow> (bytes \<times> 'w kern) option" where
  "getline_loop env mx i buf k =
     Option.bind (lwip_poll env k) (\<lambda>k.
     case uart_has_data (kuart k) of (has_data, u) \<Rightarrow>
       if \<not> has_data then getline_loop env mx i buf (k\<lparr>kuart := u\<rparr>)
       else Option.bind (uart_getc u) (\<lambda>(c, u).
         if c = 13 \<or> c = 10 then
           Option.bind (uart_println [0] u) (\<lambda>u.
           Option.bind (aset buf i 0) (\<lambda>buf. Some (buf, k\<lparr>kuart := u\<rparr>)))
         else if c = 127 \<or> c = 8 then
           if 0 < i then Option.bind (uart_print rubout u) (\<lambda>u. getline_loop env mx (i - 1) buf (k\<lparr>kuart := u\<rparr>))
           else getline_loop env mx i buf (k\<lparr>kuart := u\<rparr>)
         else if int i < mx - 1 then
           Option.bind (aset buf i c) (\<lambda>buf.
           Option.bind (uart_putc c u) (\<lambda>u. getline_loop env mx (i + 1) buf (k\<lparr>kuart := u\<rparr>)))
         else getline_loop env mx i buf (k\<lparr>kuart := u\<rparr>)))"

definition getline :: "'w stack \<Rightarrow> bytes \<Rightarrow> int \<Rightarrow> 'w kern \<Rightarrow> (bytes \<times> 'w kern) option" where
  "getline env buf mx k = getline_loop env mx 0 buf k"

section \<open>What printing and polling leave alone\<close>

text \<open>The input of the UART is untouched, and its flag register has only been read.\<close>

definition same_input :: "uart \<Rightarrow> uart \<Rightarrow> bool" where
  "same_input u u' \<longleftrightarrow> fr u' = fr u \<and> dr u' = dr u \<and> dr_pos u' = dr_pos u \<and> fr_pos u \<le> fr_pos u'"

lemma same_input_refl [simp]: "same_input u u"
  by (simp add: same_input_def)

lemma same_input_trans [trans]: "same_input u v \<Longrightarrow> same_input v w \<Longrightarrow> same_input u w"
  by (simp add: same_input_def)

lemma same_input_live: "same_input u u' \<Longrightarrow> live u' = live u"
  by (simp add: same_input_def live_def)

lemma wait_fr_pos:
  assumes "wait_fr b u = Some u'"
  shows "\<exists>p. fr_pos u < p \<and> u' = u\<lparr>fr_pos := p\<rparr>"
proof (rule wait_fr.raw_induct[where P = "\<lambda>b u u'. \<exists>p. fr_pos u < p \<and> u' = u\<lparr>fr_pos := p\<rparr>", OF _ assms])
  fix wait :: "nat \<Rightarrow> uart \<Rightarrow> uart option" and b u u'
  assume ih: "\<And>b u u'. wait b u = Some u' \<Longrightarrow> \<exists>p. fr_pos u < p \<and> u' = u\<lparr>fr_pos := p\<rparr>"
    and run: "(case read_fr u of (v, w) \<Rightarrow> if v AND push_bit b 1 \<noteq> 0 then wait b w else Some w) = Some u'"
  show "\<exists>p. fr_pos u < p \<and> u' = u\<lparr>fr_pos := p\<rparr>"
  proof (cases "fr u (fr_pos u) AND push_bit b 1 = 0")
    case True
    then show ?thesis using run by (auto simp: read_fr_def)
  next
    case False
    then have "wait b (u\<lparr>fr_pos := Suc (fr_pos u)\<rparr>) = Some u'" using run by (simp add: read_fr_def)
    then obtain p where "Suc (fr_pos u) < p" "u' = u\<lparr>fr_pos := p\<rparr>" using ih by fastforce
    then show ?thesis by (intro exI[of _ p]) simp
  qed
qed

lemma putc_keeps: "uart_putc c u = Some u' \<Longrightarrow> same_input u u'"
  by (auto simp: uart_putc_def bind_eq_Some_conv same_input_def write_dr_def dest!: wait_fr_pos)

lemma print_keeps: "uart_print s u = Some u' \<Longrightarrow> same_input u u'"
proof (induction s arbitrary: u)
  case (Cons c s)
  show ?case
  proof (cases "c = 0")
    case False
    then obtain v where v: "wait_fr 5 u = Some v" "uart_print s (write_dr (ucast c) v) = Some u'"
      using Cons.prems by (auto simp: bind_eq_Some_conv)
    have "same_input u (write_dr (ucast c) v)"
      using wait_fr_pos[OF v(1)] by (auto simp: same_input_def write_dr_def)
    then show ?thesis using Cons.IH[OF v(2)] by (rule same_input_trans)
  qed (use Cons.prems in simp)
qed simp

lemma println_keeps: "uart_println s u = Some u' \<Longrightarrow> same_input u u'"
  by (auto simp: uart_println_def bind_eq_Some_conv dest!: print_keeps putc_keeps intro: same_input_trans)

lemma putc_ok: "live u \<Longrightarrow> \<exists>u'. uart_putc c u = Some u' \<and> same_input u u'"
  using uart_putc_live[of u c] putc_keeps by blast

lemma print_ok: "live u \<Longrightarrow> terminated s \<Longrightarrow> \<exists>u'. uart_print s u = Some u' \<and> same_input u u'"
  using print_keeps by (blast elim: tty.emitsE[OF uart_print_eq])

lemma println_ok: "live u \<Longrightarrow> terminated s \<Longrightarrow> \<exists>u'. uart_println s u = Some u' \<and> same_input u u'"
  using println_keeps by (blast elim: tty.emitsE[OF uart_println_emits])

text \<open>What lwIP is to keep: it returns and leaves the input of the UART alone.\<close>

definition leaves_input :: "('w kern \<Rightarrow> 'w kern option) \<Rightarrow> bool" where
  "leaves_input f \<longleftrightarrow> (\<forall>k. live (kuart k) \<longrightarrow> (\<exists>k'. f k = Some k' \<and> same_input (kuart k) (kuart k')))"

lemma poll_ok:
  assumes "leaves_input (check_timeouts env)" "leaves_input (input_frame env)" "live (kuart k)"
  shows "\<exists>k'. lwip_poll env k = Some k' \<and> same_input (kuart k) (kuart k')"
proof -
  obtain k1 where k1: "check_timeouts env k = Some k1" "same_input (kuart k) (kuart k1)"
    using assms(1,3) by (auto simp: leaves_input_def)
  have "live (kuart (k1\<lparr>eth_rx_flag := False\<rparr>))" using same_input_live[OF k1(2)] assms(3) by simp
  then obtain k2 where k2: "input_frame env (k1\<lparr>eth_rx_flag := False\<rparr>) = Some k2" "same_input (kuart k1) (kuart k2)"
    using assms(2) unfolding leaves_input_def by fastforce
  show ?thesis using k1 k2 same_input_trans by (cases "eth_rx_flag k1") (auto simp: lwip_poll_def)
qed

section \<open>The line editor\<close>

text \<open>The characters that are typed next, and the line they make.\<close>

definition typed :: "uart \<Rightarrow> nat \<Rightarrow> u8" where
  "typed u j = ucast (dr u (dr_pos u + j) AND 0xFF)"

definition edit :: "nat \<Rightarrow> bytes \<Rightarrow> u8 \<Rightarrow> bytes" where
  "edit n line c =
     (if c = 127 \<or> c = 8 then butlast line
      else if Suc (length line) < n then line @ [c] else line)"

definition ends_line :: "u8 \<Rightarrow> bool" where
  "ends_line c \<longleftrightarrow> c = 13 \<or> c = 10"

text \<open>From some read of the flag register on, there is a character to be read.\<close>

definition ready_from :: "nat \<Rightarrow> uart \<Rightarrow> bool" where
  "ready_from N u \<longleftrightarrow> (\<forall>n\<ge>N. fr u n AND push_bit 4 1 = 0)"

lemma getc_ok:
  assumes "ready_from N u"
  shows "\<exists>u'. uart_getc u = Some (typed u 0, u') \<and> same_input (u\<lparr>dr_pos := Suc (dr_pos u)\<rparr>) u'"
proof -
  have "fr u (max N (fr_pos u)) AND push_bit 4 1 = 0" using assms by (simp add: ready_from_def)
  then obtain p where p: "wait_fr 4 u = Some (u\<lparr>fr_pos := p\<rparr>)" using wait_fr_Some[of u "max N (fr_pos u)" 4] by auto
  then have "fr_pos u < p" using wait_fr_pos[OF p] by (auto simp: fun_upd_def dest: arg_cong[of _ _ fr_pos])
  then show ?thesis using p by (auto simp: uart_getc_def read_dr_def typed_def same_input_def)
qed


text \<open>One round of the loop that finds no character, and one that reads the character \<open>c\<close>.\<close>

lemma loop_empty:
  assumes "lwip_poll env k = Some k1" "fr (kuart k1) (fr_pos (kuart k1)) AND push_bit 4 1 \<noteq> 0"
  shows "getline_loop env mx i buf k =
    getline_loop env mx i buf (k1\<lparr>kuart := (kuart k1)\<lparr>fr_pos := Suc (fr_pos (kuart k1))\<rparr>\<rparr>)"
  using assms by (subst getline_loop.simps) (simp add: uart_has_data_def read_fr_def)

lemma loop_char:
  assumes "lwip_poll env k = Some k1" "fr (kuart k1) (fr_pos (kuart k1)) AND push_bit 4 1 = 0"
    and "uart_getc ((kuart k1)\<lparr>fr_pos := Suc (fr_pos (kuart k1))\<rparr>) = Some (c, u)"
  shows "getline_loop env mx i buf k =
    (if c = 13 \<or> c = 10 then
       Option.bind (uart_println [0] u) (\<lambda>u. Option.bind (aset buf i 0) (\<lambda>buf. Some (buf, k1\<lparr>kuart := u\<rparr>)))
     else if c = 127 \<or> c = 8 then
       if 0 < i then Option.bind (uart_print rubout u) (\<lambda>u. getline_loop env mx (i - 1) buf (k1\<lparr>kuart := u\<rparr>))
       else getline_loop env mx i buf (k1\<lparr>kuart := u\<rparr>)
     else if int i < mx - 1 then
       Option.bind (aset buf i c) (\<lambda>buf.
       Option.bind (uart_putc c u) (\<lambda>u. getline_loop env mx (i + 1) buf (k1\<lparr>kuart := u\<rparr>)))
     else getline_loop env mx i buf (k1\<lparr>kuart := u\<rparr>))"
  using assms by (subst getline_loop.simps) (simp add: uart_has_data_def read_fr_def)

text \<open>The buffer holds the line so far, and has room for its terminator.\<close>

definition holds :: "nat \<Rightarrow> bytes \<Rightarrow> bytes \<Rightarrow> bool" where
  "holds n line buf \<longleftrightarrow> length buf = n \<and> length line < n \<and> take (length line) buf = line"

lemma holds_edit:
  assumes "holds n line buf"
  shows "holds n (butlast line) buf" "Suc (length line) < n \<Longrightarrow> holds n (line @ [c]) (buf[length line := c])"
proof -
  have "take (length line) buf = line" using assms by (simp add: holds_def)
  from arg_cong[OF this, of "take (length line - 1)"] show "holds n (butlast line) buf"
    using assms by (auto simp: holds_def butlast_conv_take)
  show "holds n (line @ [c]) (buf[length line := c])" if "Suc (length line) < n"
    using assms that by (simp add: holds_def take_Suc_update)
qed

text \<open>Waiting for a character and reading it.\<close>

lemma next_char:
  assumes env: "leaves_input (check_timeouts env)" "leaves_input (input_frame env)"
    and u: "live (kuart k)" "ready_from N (kuart k)"
  shows "\<exists>k0 k1 u. getline_loop env mx i buf k = getline_loop env mx i buf k0 \<and>
    lwip_poll env k0 = Some k1 \<and> fr (kuart k1) (fr_pos (kuart k1)) AND push_bit 4 1 = 0 \<and>
    uart_getc ((kuart k1)\<lparr>fr_pos := Suc (fr_pos (kuart k1))\<rparr>) = Some (typed (kuart k) 0, u) \<and>
    same_input ((kuart k)\<lparr>dr_pos := Suc (dr_pos (kuart k))\<rparr>) u"
  using u
proof (induction "N - fr_pos (kuart k)" arbitrary: k rule: less_induct)
  case less
  obtain k1 where k1: "lwip_poll env k = Some k1" "same_input (kuart k) (kuart k1)"
    using poll_ok[OF env less.prems(1)] by blast
  let ?v = "(kuart k1)\<lparr>fr_pos := Suc (fr_pos (kuart k1))\<rparr>"
  have ready: "ready_from N ?v" "live ?v"
    using less.prems k1(2) same_input_live[OF k1(2)] by (auto simp: ready_from_def same_input_def)
  show ?case
  proof (cases "fr (kuart k1) (fr_pos (kuart k1)) AND push_bit 4 1 = 0")
    case True
    obtain u where u: "uart_getc ?v = Some (typed ?v 0, u)" "same_input (?v\<lparr>dr_pos := Suc (dr_pos ?v)\<rparr>) u"
      using getc_ok[OF ready(1)] by blast
    have "typed ?v 0 = typed (kuart k) 0" "same_input ((kuart k)\<lparr>dr_pos := Suc (dr_pos (kuart k))\<rparr>) u"
      using k1(2) u(2) by (auto simp: typed_def same_input_def)
    then show ?thesis using k1(1) True u(1) by (intro exI[of _ k] exI[of _ k1] exI[of _ u]) simp
  next
    case False
    then have "fr_pos (kuart k1) < N" using ready(1) by (auto simp: ready_from_def not_le[symmetric])
    then have "N - fr_pos (kuart (k1\<lparr>kuart := ?v\<rparr>)) < N - fr_pos (kuart k)"
      using k1(2) by (auto simp: same_input_def)
    from less.hyps[OF this] ready obtain k2 k3 u where
      "getline_loop env mx i buf (k1\<lparr>kuart := ?v\<rparr>) = getline_loop env mx i buf k2"
      "lwip_poll env k2 = Some k3" "fr (kuart k3) (fr_pos (kuart k3)) AND push_bit 4 1 = 0"
      "uart_getc ((kuart k3)\<lparr>fr_pos := Suc (fr_pos (kuart k3))\<rparr>) = Some (typed ?v 0, u)"
      and si: "same_input (?v\<lparr>dr_pos := Suc (dr_pos ?v)\<rparr>) u" by auto
    moreover have "typed ?v 0 = typed (kuart k) 0" using k1(2) by (simp add: typed_def same_input_def)
    moreover have "same_input ((kuart k)\<lparr>dr_pos := Suc (dr_pos (kuart k))\<rparr>) u"
      using k1(2) si by (auto simp: same_input_def)
    ultimately show ?thesis using loop_empty[OF k1(1) False, of mx i buf]
      by (intro exI[of _ k2] exI[of _ k3] exI[of _ u]) simp
  qed
qed


lemma typed_shift:
  assumes "same_input (u\<lparr>dr_pos := Suc (dr_pos u)\<rparr>) u'"
  shows "typed u' j = typed u (Suc j)"
  using assms by (simp add: typed_def same_input_def)

text \<open>A character that does not end the line edits it.\<close>

lemma edit_char:
  assumes env: "leaves_input (check_timeouts env)" "leaves_input (input_frame env)"
    and k: "live (kuart k)" "ready_from N (kuart k)" and buf: "holds n line buf"
    and nl: "\<not> ends_line (typed (kuart k) 0)"
  defines "line' \<equiv> edit n line (typed (kuart k) 0)"
  shows "\<exists>buf' k'. getline_loop env (int n) (length line) buf k = getline_loop env (int n) (length line') buf' k' \<and>
    holds n line' buf' \<and> same_input ((kuart k)\<lparr>dr_pos := Suc (dr_pos (kuart k))\<rparr>) (kuart k')"
proof -
  let ?c = "typed (kuart k) 0"
  obtain k0 k1 u where c: "getline_loop env (int n) (length line) buf k = getline_loop env (int n) (length line) buf k0"
      "lwip_poll env k0 = Some k1" "fr (kuart k1) (fr_pos (kuart k1)) AND push_bit 4 1 = 0"
      "uart_getc ((kuart k1)\<lparr>fr_pos := Suc (fr_pos (kuart k1))\<rparr>) = Some (?c, u)"
      and si: "same_input ((kuart k)\<lparr>dr_pos := Suc (dr_pos (kuart k))\<rparr>) u"
    using next_char[OF env k] by blast
  note loop = trans[OF c(1) loop_char[OF c(2-4)]]
  have u: "live u" using same_input_live[OF si] k(1) by (simp add: live_def)
  have nl': "\<not> (?c = 13 \<or> ?c = 10)" using nl by (simp add: ends_line_def)
  consider "?c = 127 \<or> ?c = 8" "line \<noteq> []" | "\<not> (?c = 127 \<or> ?c = 8)" "Suc (length line) < n"
    | "(?c = 127 \<or> ?c = 8) \<and> line = [] \<or> \<not> (?c = 127 \<or> ?c = 8) \<and> \<not> Suc (length line) < n" by blast
  then show ?thesis
  proof cases
    case 1
    obtain v where v: "uart_print rubout u = Some v" "same_input u v"
      using print_ok[OF u, of rubout] by (auto simp: rubout_def)
    have "getline_loop env (int n) (length line) buf k = getline_loop env (int n) (length line') buf (k1\<lparr>kuart := v\<rparr>)"
      using loop nl' 1 v(1) by (simp add: line'_def edit_def)
    moreover have "holds n line' buf" using 1 holds_edit(1)[OF buf] by (simp add: line'_def edit_def)
    ultimately show ?thesis using same_input_trans[OF si v(2)]
      by (intro exI[of _ buf] exI[of _ "k1\<lparr>kuart := v\<rparr>"]) simp
  next
    case 2
    obtain v where v: "uart_putc ?c u = Some v" "same_input u v" using putc_ok[OF u] by blast
    have "getline_loop env (int n) (length line) buf k =
        getline_loop env (int n) (length line') (buf[length line := ?c]) (k1\<lparr>kuart := v\<rparr>)"
      using loop nl' 2 v(1) buf by (simp add: line'_def edit_def holds_def)
    moreover have "holds n line' (buf[length line := ?c])" using 2 holds_edit(2)[OF buf, of ?c] by (simp add: line'_def edit_def)
    ultimately show ?thesis using same_input_trans[OF si v(2)]
      by (intro exI[of _ "buf[length line := ?c]"] exI[of _ "k1\<lparr>kuart := v\<rparr>"]) simp
  next
    case 3
    then have "line' = line" by (auto simp: line'_def edit_def)
    moreover have "getline_loop env (int n) (length line) buf k = getline_loop env (int n) (length line) buf (k1\<lparr>kuart := u\<rparr>)"
      using loop nl' 3 by auto
    ultimately show ?thesis using buf si by (intro exI[of _ buf] exI[of _ "k1\<lparr>kuart := u\<rparr>"]) simp
  qed
qed

lemma end_char:
  assumes env: "leaves_input (check_timeouts env)" "leaves_input (input_frame env)"
    and k: "live (kuart k)" "ready_from N (kuart k)" and buf: "holds n line buf"
    and nl: "ends_line (typed (kuart k) 0)"
  shows "\<exists>k'. getline_loop env (int n) (length line) buf k = Some (buf[length line := 0], k') \<and>
    dr_pos (kuart k') = Suc (dr_pos (kuart k))"
proof -
  obtain k0 k1 u where c: "getline_loop env (int n) (length line) buf k = getline_loop env (int n) (length line) buf k0"
      "lwip_poll env k0 = Some k1" "fr (kuart k1) (fr_pos (kuart k1)) AND push_bit 4 1 = 0"
      "uart_getc ((kuart k1)\<lparr>fr_pos := Suc (fr_pos (kuart k1))\<rparr>) = Some (typed (kuart k) 0, u)"
      and si: "same_input ((kuart k)\<lparr>dr_pos := Suc (dr_pos (kuart k))\<rparr>) u"
    using next_char[OF env k] by blast
  have "live u" using same_input_live[OF si] k(1) by (simp add: live_def)
  then obtain v where v: "uart_println [0] u = Some v" "same_input u v" using println_ok[of u "[0]"] by auto
  have "getline_loop env (int n) (length line) buf k = Some (buf[length line := 0], k1\<lparr>kuart := v\<rparr>)"
    using c(1) loop_char[OF c(2-4)] nl buf v(1) by (simp add: ends_line_def holds_def)
  then show ?thesis using si v(2) by (simp add: same_input_def)
qed

lemma getline_loop_ok:
  assumes env: "leaves_input (check_timeouts env)" "leaves_input (input_frame env)"
    and "live (kuart k)" "ready_from N (kuart k)" "holds n line buf"
    and "ends_line (typed (kuart k) m)" "\<forall>j<m. \<not> ends_line (typed (kuart k) j)"
  shows "\<exists>buf' k'. getline_loop env (int n) (length line) buf k = Some (buf', k') \<and>
    holds n (foldl (edit n) line (map (typed (kuart k)) [0..<m])) buf' \<and>
    buf' ! length (foldl (edit n) line (map (typed (kuart k)) [0..<m])) = 0 \<and>
    dr_pos (kuart k') = dr_pos (kuart k) + Suc m"
  using assms(3-)
proof (induction m arbitrary: k line buf)
  case 0
  then show ?case using end_char[OF env 0(1-4)] by (auto simp: holds_def)
next
  case (Suc m)
  let ?line = "edit n line (typed (kuart k) 0)"
  have "\<not> ends_line (typed (kuart k) 0)" using Suc.prems(5) by simp
  then obtain buf2 k2 where step: "getline_loop env (int n) (length line) buf k = getline_loop env (int n) (length ?line) buf2 k2"
      "holds n ?line buf2" and si: "same_input ((kuart k)\<lparr>dr_pos := Suc (dr_pos (kuart k))\<rparr>) (kuart k2)"
    using edit_char[OF env Suc.prems(1-3)] by blast
  note ty = typed_shift[OF si]
  have "live (kuart k2)" "ready_from N (kuart k2)"
    using Suc.prems(1,2) si by (auto simp: ready_from_def same_input_def live_def)
  moreover have nl: "ends_line (typed (kuart k2) m)" "\<forall>j<m. \<not> ends_line (typed (kuart k2) j)"
    using Suc.prems(4,5) by (simp_all add: ty)
  ultimately obtain buf' k' where ih: "getline_loop env (int n) (length ?line) buf2 k2 = Some (buf', k')"
      "holds n (foldl (edit n) ?line (map (typed (kuart k2)) [0..<m])) buf'"
      "buf' ! length (foldl (edit n) ?line (map (typed (kuart k2)) [0..<m])) = 0" "dr_pos (kuart k') = dr_pos (kuart k2) + Suc m"
    using Suc.IH[OF _ _ step(2)] nl by blast
  have "map (typed (kuart k)) [0..<Suc m] = typed (kuart k) 0 # map (typed (kuart k2)) [0..<m]"
    using ty by (simp add: map_upt_Suc del: upt_Suc)
  then show ?case using ih step(1) si by (simp add: same_input_def del: upt_Suc)
qed

section \<open>Properties\<close>

text \<open>
  C39: \<open>getline\<close> reads exactly one line into its buffer. Suppose polling lwIP returns and takes no
  character, the transmitter accepts characters again and again, and from some time on there is
  always a character to be read. Then, for a buffer of \<open>n > 0\<close> bytes, \<open>getline\<close> returns once a
  carriage return or line feed is typed; it has read the characters up to that one and no more;
  and the buffer holds what the line editor makes of them, followed by a zero byte inside the
  buffer: backspace and delete remove the last character if there is one, and characters beyond
  \<open>n - 1\<close> are dropped.
\<close>

theorem getline_reads_line:
  assumes "leaves_input (check_timeouts env)" "leaves_input (input_frame env)"
    and "live (kuart k)" "ready_from N (kuart k)" "length buf = n" "0 < n"
    and "ends_line (typed (kuart k) m)" "\<forall>j<m. \<not> ends_line (typed (kuart k) j)"
  shows "\<exists>buf' k'. getline env buf (int n) k = Some (buf', k') \<and> length buf' = n \<and>
    dr_pos (kuart k') = dr_pos (kuart k) + Suc m \<and>
    (let line = foldl (edit n) [] (map (typed (kuart k)) [0..<m]) in
     length line < n \<and> take (Suc (length line)) buf' = line @ [0])"
proof -
  have "holds n [] buf" using assms(5,6) by (simp add: holds_def)
  from getline_loop_ok[OF assms(1-4) this assms(7,8)] show ?thesis
    by (auto simp: getline_def holds_def Let_def take_Suc_conv_app_nth)
qed

definition sample_kern :: "unit kern" where
  "sample_kern = \<lparr>kuart = idle_uart\<lparr>dr := (\<lambda>n. if n < 4 then [104, 105, 127, 13] ! n else 0)\<rparr>, eth_rx_flag = False, net = ()\<rparr>"

definition sample_stack :: "unit stack" where
  "sample_stack = \<lparr>check_timeouts = Some, input_frame = Some\<rparr>"

theorem getline_reads_line_witness:
  "\<exists>buf' k'. getline sample_stack (replicate 64 0) 64 sample_kern = Some (buf', k') \<and> length buf' = 64 \<and>
     take 2 buf' = [104, 0] \<and> dr_pos (kuart k') = 4"
proof -
  have env: "leaves_input (check_timeouts sample_stack)" "leaves_input (input_frame sample_stack)"
    by (simp_all add: leaves_input_def sample_stack_def)
  have u: "live (kuart sample_kern)" "ready_from 0 (kuart sample_kern)" "dr_pos (kuart sample_kern) = 0"
    using live_idle_uart by (simp_all add: sample_kern_def ready_from_def live_def idle_uart_def)
  have ty: "map (typed (kuart sample_kern)) [0..<3] = [104, 105, 127]" "typed (kuart sample_kern) 3 = 13"
    by (simp_all add: typed_def sample_kern_def idle_uart_def upt_rec)
  have "\<not> ends_line (typed (kuart sample_kern) j)" if "j < 3" for j
    using that ty(1) by (auto simp: ends_line_def upt_rec numeral_3_eq_3 less_Suc_eq)
  then obtain buf' k' where g: "getline sample_stack (replicate 64 0) (int 64) sample_kern = Some (buf', k')"
      "length buf' = 64" "dr_pos (kuart k') = dr_pos (kuart sample_kern) + Suc 3"
      "let line = foldl (edit 64) [] (map (typed (kuart sample_kern)) [0..<3]) in
       length line < 64 \<and> take (Suc (length line)) buf' = line @ [0]"
    using getline_reads_line[OF env u(1,2), of "replicate 64 0" 64 3] ty(2) by (auto simp: ends_line_def)
  have line: "foldl (edit 64) [] [104, 105, 127] = [104]" "Suc (length [104 :: u8]) = 2" by (simp_all add: edit_def)
  have "take 2 buf' = [104, 0]" using g(4) unfolding ty(1) line(1) Let_def line(2) by simp
  then show ?thesis using g(1-3) u(3) by (intro exI[of _ buf'] exI[of _ k']) simp
qed

end
