(* ===== verification/CStrings.thy ===== *)
theory CStrings
  imports Uart
begin

text \<open>
  The freestanding string library, \<open>src/src/strings.c\<close> and \<open>src/include/ctype.h\<close>.

  The comparing and measuring functions read objects given as byte lists; the copying
  functions of the \<open>mem\<close> family work on one flat memory (\<open>bytes\<close>) with the two pointers
  as indices, so that overlapping regions are covered. \<open>None\<close> is an access outside the
  object.
\<close>

section \<open>Comparison, length\<close>

fun strcmp :: "bytes \<Rightarrow> bytes \<Rightarrow> int option" where
  "strcmp (x # a) (y # b) =
     (if x \<noteq> 0 \<and> x = y then strcmp a b else Some (uint x - uint y))"
| "strcmp _ _ = None"

function strlen_loop :: "bytes \<Rightarrow> nat \<Rightarrow> nat option" where
  "strlen_loop s i =
     (case aget s i of
        None \<Rightarrow> None
      | Some c \<Rightarrow> if c \<noteq> 0 then strlen_loop s (Suc i) else Some i)"
  by pat_completeness auto
termination
  by (relation "measure (\<lambda>(s, i). length s - i)") (auto simp: aset_simps)

declare strlen_loop.simps [simp del]

definition strlen :: "bytes \<Rightarrow> nat option" where
  "strlen s = strlen_loop s 0"

text \<open>\<open>strncmp\<close>: \<open>for (int i = 0; i < n; i++)\<close>, the loop from \<open>i\<close>.\<close>

function strncmp_loop :: "bytes \<Rightarrow> bytes \<Rightarrow> nat \<Rightarrow> nat \<Rightarrow> int option" where
  "strncmp_loop a b n i =
     (if i < n then do {
        x \<leftarrow> aget a i;
        y \<leftarrow> aget b i;
        if x \<noteq> y \<or> x = 0 \<or> y = 0 then Some (uint x - uint y)
        else strncmp_loop a b n (Suc i)
      } else Some 0)"
  by pat_completeness auto
termination
  by (relation "measure (\<lambda>(a, b, n, i). n - i)") auto

declare strncmp_loop.simps [simp del]

definition strncmp :: "bytes \<Rightarrow> bytes \<Rightarrow> nat \<Rightarrow> int option" where
  "strncmp a b n = strncmp_loop a b n 0"

section \<open>Copying strings\<close>

fun strcpy :: "bytes \<Rightarrow> bytes \<Rightarrow> bytes option" where
  "strcpy (d # dest) (c # src) =
     (if c \<noteq> 0 then map_option ((#) c) (strcpy dest src) else Some (c # dest))"
| "strcpy _ _ = None"

text \<open>The two loops of \<open>strncpy\<close>; the first hands its \<open>i\<close> to the second.\<close>

function strncpy_copy :: "bytes \<Rightarrow> bytes \<Rightarrow> nat \<Rightarrow> nat \<Rightarrow> (bytes \<times> nat) option" where
  "strncpy_copy dest src n i =
     (if i < n then do {
        c \<leftarrow> aget src i;
        if c \<noteq> 0 then do {
          dest \<leftarrow> aset dest i c;
          strncpy_copy dest src n (Suc i)
        } else Some (dest, i)
      } else Some (dest, i))"
  by pat_completeness auto
termination
  by (relation "measure (\<lambda>(dest, src, n, i). n - i)") auto

declare strncpy_copy.simps [simp del]

function strncpy_pad :: "bytes \<Rightarrow> nat \<Rightarrow> nat \<Rightarrow> bytes option" where
  "strncpy_pad dest n i =
     (if i < n then do { dest \<leftarrow> aset dest i 0; strncpy_pad dest n (Suc i) } else Some dest)"
  by pat_completeness auto
termination
  by (relation "measure (\<lambda>(dest, n, i). n - i)") auto

declare strncpy_pad.simps [simp del]

definition strncpy :: "bytes \<Rightarrow> bytes \<Rightarrow> nat \<Rightarrow> bytes option" where
  "strncpy dest src n = do {
     (dest, i) \<leftarrow> strncpy_copy dest src n 0;
     strncpy_pad dest n i
   }"

section \<open>Numbers\<close>

text \<open>\<open>atoi\<close>; an overflow of the signed accumulator is undefined in C and is \<open>None\<close> here.\<close>

fun atoi_loop :: "int \<Rightarrow> bytes \<Rightarrow> int option" where
  "atoi_loop res [] = None"
| "atoi_loop res (c # s) =
     (if 48 \<le> c \<and> c \<le> 57 then
        let res' = res * 10 + (uint c - 48) in
        if res' < 2 ^ 31 then atoi_loop res' s else None
      else Some res)"

definition atoi :: "bytes \<Rightarrow> int option" where
  "atoi s = atoi_loop 0 s"

section \<open>Memory\<close>

text \<open>\<open>while (n--) *d++ = *s++;\<close> and \<open>while (n--) *--d = *--s;\<close> on a flat memory.\<close>

fun copy_up :: "bytes \<Rightarrow> nat \<Rightarrow> nat \<Rightarrow> nat \<Rightarrow> bytes option" where
  "copy_up m d s 0 = Some m"
| "copy_up m d s (Suc n) = do {
     c \<leftarrow> aget m s;
     m \<leftarrow> aset m d c;
     copy_up m (Suc d) (Suc s) n
   }"

fun copy_down :: "bytes \<Rightarrow> nat \<Rightarrow> nat \<Rightarrow> nat \<Rightarrow> bytes option" where
  "copy_down m d s 0 = Some m"
| "copy_down m d s (Suc n) = do {
     c \<leftarrow> aget m (s - 1);
     m \<leftarrow> aset m (d - 1) c;
     copy_down m (d - 1) (s - 1) n
   }"

definition memcpy :: "bytes \<Rightarrow> nat \<Rightarrow> nat \<Rightarrow> nat \<Rightarrow> bytes option" where
  "memcpy m dest src n = copy_up m dest src n"

definition memmove :: "bytes \<Rightarrow> nat \<Rightarrow> nat \<Rightarrow> nat \<Rightarrow> bytes option" where
  "memmove m dest src n =
     (if dest < src then copy_up m dest src n
      else copy_down m (dest + n) (src + n) n)"

fun memcmp :: "bytes \<Rightarrow> bytes \<Rightarrow> nat \<Rightarrow> int option" where
  "memcmp p1 p2 0 = Some 0"
| "memcmp (x # p1) (y # p2) (Suc n) =
     (if x \<noteq> y then Some (uint x - uint y) else memcmp p1 p2 n)"
| "memcmp _ _ (Suc n) = None"

fun memset :: "bytes \<Rightarrow> u32 \<Rightarrow> nat \<Rightarrow> bytes option" where
  "memset p c 0 = Some p"
| "memset (x # p) c (Suc n) = map_option ((#) (ucast c)) (memset p c n)"
| "memset [] c (Suc n) = None"

section \<open>Character classes\<close>

definition isspace :: "u8 \<Rightarrow> bool" where
  "isspace c \<longleftrightarrow> c = 32 \<or> c = 9 \<or> c = 10 \<or> c = 11 \<or> c = 12 \<or> c = 13"

definition isdigit :: "u8 \<Rightarrow> bool" where
  "isdigit c \<longleftrightarrow> 48 \<le> c \<and> c \<le> 57"

definition isxdigit :: "u8 \<Rightarrow> bool" where
  "isxdigit c \<longleftrightarrow> isdigit c \<or> 97 \<le> c \<and> c \<le> 102 \<or> 65 \<le> c \<and> c \<le> 70"

definition islower :: "u8 \<Rightarrow> bool" where
  "islower c \<longleftrightarrow> 97 \<le> c \<and> c \<le> 122"

definition isupper :: "u8 \<Rightarrow> bool" where
  "isupper c \<longleftrightarrow> 65 \<le> c \<and> c \<le> 90"

definition isalpha :: "u8 \<Rightarrow> bool" where
  "isalpha c \<longleftrightarrow> islower c \<or> isupper c"

definition isalnum :: "u8 \<Rightarrow> bool" where
  "isalnum c \<longleftrightarrow> isalpha c \<or> isdigit c"

definition tolower :: "u8 \<Rightarrow> u8" where
  "tolower c = (if isupper c then c + 32 else c)"

section \<open>What the string functions compute\<close>

lemma strcmp_terminated:
  "terminated a \<Longrightarrow> terminated b \<Longrightarrow> \<exists>r. strcmp a b = Some r \<and> (r = 0 \<longleftrightarrow> cstr a = cstr b)"
  by (induction a b rule: strcmp.induct) (auto simp: word_uint_eq_iff)

lemma strcmp_0_iff:
  "terminated a \<Longrightarrow> terminated b \<Longrightarrow> strcmp a b = Some 0 \<longleftrightarrow> cstr a = cstr b"
  using strcmp_terminated by fastforce

lemma strlen_loop_eq:
  "terminated s \<Longrightarrow> i \<le> length (cstr s) \<Longrightarrow> strlen_loop s i = Some (length (cstr s))"
proof (induction "length (cstr s) - i" arbitrary: i)
  case 0
  then have "i = length (cstr s)" by simp
  with 0 show ?case
    by (simp add: strlen_loop.simps length_cstr_less nth_length_cstr)
next
  case (Suc k)
  then have i: "i < length (cstr s)" by simp
  then have "s ! i \<noteq> 0" by (rule nth_cstr_nonzero)
  moreover have "i < length s" using i length_cstr_le[of s] by simp
  ultimately have "strlen_loop s i = strlen_loop s (Suc i)"
    by (simp add: strlen_loop.simps[of s i])
  also have "\<dots> = Some (length (cstr s))"
    by (rule Suc.hyps(1)) (use Suc in auto)
  finally show ?case .
qed

lemma strlen_eq: "terminated s \<Longrightarrow> strlen s = Some (length (cstr s))"
  by (simp add: strlen_def strlen_loop_eq)

lemma strcpy_eq:
  "terminated src \<Longrightarrow> length (cstr src) < length dest \<Longrightarrow>
    strcpy dest src = Some (cstr src @ 0 # drop (Suc (length (cstr src))) dest)"
  by (induction dest src rule: strcpy.induct) auto

lemma strcpy_overflow:
  "terminated src \<Longrightarrow> length dest \<le> length (cstr src) \<Longrightarrow> strcpy dest src = None"
  by (induction dest src rule: strcpy.induct) auto

lemma strncmp_loop_shift:
  "strncmp_loop (x # a) (y # b) (Suc n) (Suc i) = strncmp_loop a b n i"
proof (induction "n - i" arbitrary: i)
  case 0
  then show ?case by (simp add: strncmp_loop.simps)
next
  case (Suc k)
  then have "strncmp_loop (x # a) (y # b) (Suc n) (Suc (Suc i)) = strncmp_loop a b n (Suc i)" by simp
  then show ?case
    by (subst (1 2) strncmp_loop.simps) (simp add: aget_def)
qed

lemma strncmp_0 [simp]: "strncmp a b 0 = Some 0"
  by (simp add: strncmp_def strncmp_loop.simps)

lemma strncmp_Cons [simp]:
  "strncmp (x # a) (y # b) (Suc n) =
    (if x \<noteq> y \<or> x = 0 \<or> y = 0 then Some (uint x - uint y) else strncmp a b n)"
  by (simp add: strncmp_def strncmp_loop.simps[of _ _ _ 0] strncmp_loop_shift)

lemma strncmp_terminated:
  "terminated a \<Longrightarrow> terminated b \<Longrightarrow>
    \<exists>r. strncmp a b n = Some r \<and> (r = 0 \<longleftrightarrow> take n (cstr a) = take n (cstr b))"
proof (induction n arbitrary: a b)
  case 0
  then show ?case by simp
next
  case (Suc n)
  then obtain x a' y b' where ab: "a = x # a'" "b = y # b'"
    by (metis terminated_Nil neq_Nil_conv)
  show ?case
  proof (cases "x \<noteq> y \<or> x = 0 \<or> y = 0")
    case True
    then show ?thesis using ab by (auto simp: word_uint_eq_iff)
  next
    case False
    with Suc.IH[of a' b'] Suc.prems ab show ?thesis by auto
  qed
qed

lemma strncmp_0_iff:
  "terminated a \<Longrightarrow> terminated b \<Longrightarrow>
    strncmp a b n = Some 0 \<longleftrightarrow> take n (cstr a) = take n (cstr b)"
  using strncmp_terminated[of a b n] by auto

lemma strncpy_copy_eq:
  assumes "terminated src" "n \<le> length dest" "i \<le> min n (length (cstr src))"
    and "take i dest = take i (cstr src)"
  shows "strncpy_copy dest src n i =
    Some (take n (cstr src) @ drop (min n (length (cstr src))) dest, min n (length (cstr src)))"
  using assms
proof (induction "min n (length (cstr src)) - i" arbitrary: i dest)
  case 0
  then have i: "i = min n (length (cstr src))" by simp
  then have "take n (cstr src) = take i dest" using 0 by (auto simp: min_def)
  moreover have "i < n \<Longrightarrow> aget src i = Some 0"
    using i 0(2) length_cstr_less[OF 0(2)] nth_length_cstr[OF 0(2)] by (simp add: min_def split: if_splits)
  ultimately show ?case using i by (simp add: strncpy_copy.simps)
next
  case (Suc k)
  then have i: "i < n" "i < length (cstr src)" "i < length dest" by auto
  have src: "aget src i = Some (cstr src ! i)" "cstr src ! i \<noteq> 0"
    using i length_cstr_le[of src] nth_cstr_nonzero[of i src] by (simp_all add: nth_cstr)
  have "strncpy_copy dest src n i = strncpy_copy (dest[i := cstr src ! i]) src n (Suc i)"
    using i src by (simp add: strncpy_copy.simps[of dest src n i])
  also have "\<dots> = Some (take n (cstr src) @ drop (min n (length (cstr src))) (dest[i := cstr src ! i]),
      min n (length (cstr src)))"
    by (rule Suc.hyps(1)) (use Suc i in \<open>auto simp: take_Suc_update take_Suc_conv_app_nth\<close>)
  finally show ?case using i by simp
qed

lemma strncpy_pad_eq:
  "i \<le> n \<Longrightarrow> n \<le> length dest \<Longrightarrow>
    strncpy_pad dest n i = Some (take i dest @ replicate (n - i) 0 @ drop n dest)"
proof (induction "n - i" arbitrary: i dest)
  case 0
  then show ?case by (simp add: strncpy_pad.simps)
next
  case (Suc k)
  then have "i < n" by simp
  with Suc.prems have "strncpy_pad dest n i = strncpy_pad (dest[i := 0]) n (Suc i)"
    by (simp add: strncpy_pad.simps[of dest n i])
  also have "\<dots> = Some (take (Suc i) (dest[i := 0]) @ replicate (n - Suc i) 0 @ drop n (dest[i := 0]))"
    by (rule Suc.hyps(1)) (use Suc in auto)
  also have "take (Suc i) (dest[i := 0]) @ replicate (n - Suc i) 0 @ drop n (dest[i := 0]) =
      take i dest @ replicate (n - i) 0 @ drop n dest"
  proof -
    have "n - i = Suc (n - Suc i)" using Suc.hyps(2) by simp
    then show ?thesis using Suc.hyps(2) Suc.prems by (simp add: take_Suc_update)
  qed
  finally show ?case .
qed

lemma strncpy_eq:
  assumes "terminated src" "n \<le> length dest"
  shows "strncpy dest src n =
    Some (take n (cstr src) @ replicate (n - length (cstr src)) 0 @ drop n dest)"
proof -
  let ?k = "min n (length (cstr src))"
  have k: "take ?k (take n (cstr src) @ drop ?k dest) = take n (cstr src)"
    "drop n (take n (cstr src) @ drop ?k dest) = drop n dest" "n - ?k = n - length (cstr src)"
    by (cases "n \<le> length (cstr src)"; simp add: min_def)+
  have "strncpy dest src n = strncpy_pad (take n (cstr src) @ drop ?k dest) n ?k"
    using strncpy_copy_eq[OF assms, of 0] by (simp add: strncpy_def)
  also have "\<dots> = Some (take n (cstr src) @ replicate (n - length (cstr src)) 0 @ drop n dest)"
    using assms by (subst strncpy_pad_eq) (simp_all only: k, simp_all)
  finally show ?thesis .
qed

lemma strcmp_strncpy_roundtrip:
  assumes "terminated src" "length (cstr src) < n" "n \<le> length dest"
    "strncpy dest src n = Some dest'"
  shows "strcmp dest' src = Some 0"
proof -
  have d: "dest' = cstr src @ 0 # replicate (n - Suc (length (cstr src))) 0 @ drop n dest"
  proof -
    have "replicate (n - length (cstr src)) 0 = (0 :: u8) # replicate (n - Suc (length (cstr src))) 0"
      using assms(2) by (simp flip: replicate_Suc add: Suc_diff_Suc)
    with assms strncpy_eq[of src n dest] show ?thesis by simp
  qed
  then show ?thesis using assms(1) by (simp add: strcmp_0_iff cstr_append_zero)
qed

section \<open>Overlapping copies\<close>

definition blit :: "bytes \<Rightarrow> nat \<Rightarrow> bytes \<Rightarrow> bytes" where
  "blit m d bs = take d m @ bs @ drop (d + length bs) m"

lemma length_blit [simp]: "d + length bs \<le> length m \<Longrightarrow> length (blit m d bs) = length m"
  by (simp add: blit_def)

lemma blit_Cons: "d < length m \<Longrightarrow> blit (m[d := c]) (Suc d) bs = blit m d (c # bs)"
  by (simp add: blit_def take_Suc_update)

lemma blit_snoc:
  "d + length bs < length m \<Longrightarrow> blit (m[d + length bs := c]) d bs = blit m d (bs @ [c])"
  by (simp add: blit_def drop_update_swap flip: Cons_nth_drop_Suc)

lemma copy_up_eq:
  "d \<le> s \<or> s + n \<le> d \<Longrightarrow> d + n \<le> length m \<Longrightarrow> s + n \<le> length m \<Longrightarrow>
    copy_up m d s n = Some (blit m d (take n (drop s m)))"
proof (induction n arbitrary: m d s)
  case 0
  then show ?case by (simp add: blit_def)
next
  case (Suc n)
  have "copy_up m d s (Suc n) = copy_up (m[d := m ! s]) (Suc d) (Suc s) n"
    using Suc.prems by simp
  also have "\<dots> = Some (blit (m[d := m ! s]) (Suc d) (take n (drop (Suc s) (m[d := m ! s]))))"
    by (rule Suc.IH) (use Suc.prems in auto)
  also have "take n (drop (Suc s) (m[d := m ! s])) = take n (drop (Suc s) m)"
    using Suc.prems(1) by (auto simp: drop_update_swap take_update_cancel)
  also have "blit (m[d := m ! s]) (Suc d) (take n (drop (Suc s) m)) = blit m d (take (Suc n) (drop s m))"
    using Suc.prems by (simp add: blit_Cons flip: Cons_nth_drop_Suc)
  finally show ?case .
qed

lemma copy_down_eq:
  "s \<le> d \<Longrightarrow> d + n \<le> length m \<Longrightarrow>
    copy_down m (d + n) (s + n) n = Some (blit m d (take n (drop s m)))"
proof (induction n arbitrary: m)
  case 0
  then show ?case by (simp add: blit_def)
next
  case (Suc n)
  let ?m = "m[d + n := m ! (s + n)]"
  have "copy_down m (d + Suc n) (s + Suc n) (Suc n) = copy_down ?m (d + n) (s + n) n"
    using Suc.prems by simp
  also have "\<dots> = Some (blit ?m d (take n (drop s ?m)))"
    by (rule Suc.IH) (use Suc.prems in auto)
  also have "take n (drop s ?m) = take n (drop s m)"
    using Suc.prems(1) by (simp add: drop_update_swap take_update_cancel)
  also have "blit ?m d (take n (drop s m)) = blit m d (take n (drop s m) @ [m ! (s + n)])"
    using Suc.prems blit_snoc[of d "take n (drop s m)" m] by simp
  also have "take n (drop s m) @ [m ! (s + n)] = take (Suc n) (drop s m)"
    using Suc.prems by (simp add: take_Suc_conv_app_nth)
  finally show ?case .
qed

lemma memmove_eq:
  "d + n \<le> length m \<Longrightarrow> s + n \<le> length m \<Longrightarrow>
    memmove m d s n = Some (blit m d (take n (drop s m)))"
  by (cases "d < s") (auto simp: memmove_def copy_up_eq copy_down_eq)

lemma memcpy_eq:
  "d \<le> s \<or> s + n \<le> d \<Longrightarrow> d + n \<le> length m \<Longrightarrow> s + n \<le> length m \<Longrightarrow>
    memcpy m d s n = Some (blit m d (take n (drop s m)))"
  by (simp add: memcpy_def copy_up_eq)

lemma memset_eq:
  "n \<le> length p \<Longrightarrow> memset p c n = Some (replicate n (ucast c) @ drop n p)"
  by (induction p c n rule: memset.induct) auto

lemma memcmp_0_iff:
  "n \<le> length p \<Longrightarrow> n \<le> length q \<Longrightarrow> memcmp p q n = Some 0 \<longleftrightarrow> take n p = take n q"
  by (induction p q n rule: memcmp.induct) (auto simp: word_uint_eq_iff)

section \<open>Decimal numbers: printing and reading back\<close>

lemma less_10_cases:
  "d < 10 \<Longrightarrow> d = 0 \<or> d = 1 \<or> d = 2 \<or> d = 3 \<or> d = 4 \<or> d = 5 \<or> d = 6 \<or> d = 7 \<or> d = 8 \<or> d = (9 :: nat)"
  by presburger

lemma atoi_digit: "d < 10 \<Longrightarrow> 48 \<le> (48 + of_nat d :: u8) \<and> (48 + of_nat d :: u8) \<le> 57
    \<and> uint (48 + of_nat d :: u8) = 48 + int d"
proof -
  assume "d < 10"
  from less_10_cases[OF this] show ?thesis by (elim disjE) simp_all
qed

lemma atoi_loop_decimal:
  "k * 10 ^ length (decimal n) + int n < 2 ^ 31 \<Longrightarrow> 0 \<le> k \<Longrightarrow>
    atoi_loop k (decimal n @ s) = atoi_loop (k * 10 ^ length (decimal n) + int n) s"
proof (induction n arbitrary: k s rule: decimal.induct)
  case (1 n)
  show ?case
  proof (cases "n < 10")
    case True
    with 1(2,3) atoi_digit[of n] show ?thesis by (simp add: decimal.simps[of n] Let_def)
  next
    case False
    let ?l = "length (decimal (n div 10))"
    let ?k = "k * 10 ^ ?l + int (n div 10)"
    have len: "length (decimal n) = Suc ?l" using False by (simp add: decimal.simps[of n])
    have k: "k * 10 ^ length (decimal n) + int n = ?k * 10 + int (n mod 10)"
      unfolding len by (simp add: zmod_int zdiv_int algebra_simps)
    then have small: "?k < 2 ^ 31" using 1(2) by simp
    have "atoi_loop k (decimal n @ s) = atoi_loop k (decimal (n div 10) @ ((48 + of_nat (n mod 10)) # s))"
      using False by (simp add: decimal.simps[of n])
    also have "\<dots> = atoi_loop ?k ((48 + of_nat (n mod 10)) # s)"
      using 1(1)[OF False small 1(3)] .
    also have "\<dots> = atoi_loop (?k * 10 + int (n mod 10)) s"
      using 1(2) k atoi_digit[of "n mod 10"] by (simp add: Let_def)
    finally show ?thesis using k by simp
  qed
qed

lemma atoi_decimal: "n < 2 ^ 31 \<Longrightarrow> atoi (decimal n @ [0]) = Some (int n)"
  using atoi_loop_decimal[of 0 n "[0]"] by (simp add: atoi_def)

end
