(* ===== verification/OnesSum.thy ===== *)
theory OnesSum
  imports Prelude
begin

text \<open>
  One's complement sums, the arithmetic behind the Internet checksum. \<open>lesum bs\<close> is the sum
  of the bytes taken as little-endian 16-bit words (a last odd byte counts as a word with a
  zero high byte) and \<open>fold_sum\<close> its reduction to 16 bits. The locale \<open>chksum\<close> is the
  contract of a checksum routine: it computes the complement of the reduced sum. What
  senders and receivers rely on follows from it: storing the checksum in a zeroed field
  makes the checksum of the whole zero. The checksum of \<open>net.c\<close> and those of lwIP
  interpret it.
\<close>

section \<open>Sums\<close>

fun lesum :: "bytes \<Rightarrow> nat" where
  "lesum [] = 0"
| "lesum [a] = unat a"
| "lesum (a # b # bs) = unat a + 256 * unat b + lesum bs"

definition fold_sum :: "nat \<Rightarrow> nat" where
  "fold_sum n = (if n = 0 then 0 else (n - 1) mod 65535 + 1)"

lemma fold_sum_le: "fold_sum n \<le> 65535"
  using mod_less_divisor[of 65535 "n - 1"] by (auto simp: fold_sum_def)

lemma fold_sum_small: "n \<le> 65535 \<Longrightarrow> fold_sum n = n"
  by (auto simp: fold_sum_def)

lemma fold_sum_mod: "fold_sum n mod 65535 = n mod 65535"
proof (cases n)
  case (Suc m)
  then have "fold_sum n mod 65535 = (m mod 65535 + 1) mod 65535" by (simp add: fold_sum_def)
  also have "\<dots> = (m + 1) mod 65535" by (rule mod_add_left_eq)
  finally show ?thesis using Suc by simp
qed (simp add: fold_sum_def)

lemma fold_sum_0_iff [simp]: "fold_sum n = 0 \<longleftrightarrow> n = 0"
  by (simp add: fold_sum_def)

lemma mod_eq_pos: "0 < a \<Longrightarrow> a \<le> N \<Longrightarrow> 0 < b \<Longrightarrow> b \<le> N \<Longrightarrow> a mod N = b mod N \<Longrightarrow> a = (b :: nat)"
  by (cases "a = N"; cases "b = N") simp_all

lemma fold_sum_unique:
  assumes "m \<le> 65535" "m mod 65535 = n mod 65535" "m = 0 \<longleftrightarrow> n = 0"
  shows "m = fold_sum n"
proof (cases "n = 0")
  case False
  let ?f = "fold_sum n"
  have "0 < ?f" "0 < m" using False assms(3) by (simp_all add: fold_sum_def)
  moreover have "?f mod 65535 = m mod 65535" "?f \<le> 65535"
    using assms(2) fold_sum_mod[of n] fold_sum_le[of n] by simp_all
  ultimately show ?thesis using assms(1) mod_eq_pos[of m 65535 ?f] by simp
qed (use assms in \<open>simp add: fold_sum_def\<close>)

lemma fold_sum_step: "fold_sum (n mod 65536 + n div 65536) = fold_sum n"
proof (rule fold_sum_unique)
  show "fold_sum (n mod 65536 + n div 65536) \<le> 65535" by (rule fold_sum_le)
  have n: "n = n div 65536 * 65536 + n mod 65536" by (rule div_mult_mod_eq[symmetric])
  then have "n = 65535 * (n div 65536) + (n mod 65536 + n div 65536)" by linarith
  then have "n mod 65535 = (65535 * (n div 65536) + (n mod 65536 + n div 65536)) mod 65535"
    by (rule arg_cong)
  also have "\<dots> = (n mod 65536 + n div 65536) mod 65535" by (rule mod_mult_self4)
  finally show "fold_sum (n mod 65536 + n div 65536) mod 65535 = n mod 65535"
    by (simp only: fold_sum_mod)
  have "n mod 65536 + n div 65536 = 0 \<longleftrightarrow> n = 0"
  proof
    assume "n mod 65536 + n div 65536 = 0"
    with n show "n = 0" by linarith
  qed simp
  then show "fold_sum (n mod 65536 + n div 65536) = 0 \<longleftrightarrow> n = 0" by (simp only: fold_sum_0_iff)
qed

lemma fold_sum_add: "fold_sum (fold_sum a + b) = fold_sum (a + b)"
proof (rule fold_sum_unique)
  have "(fold_sum a + b) mod 65535 = (a + b) mod 65535"
    by (rule mod_add_cong) (simp_all add: fold_sum_mod)
  then show "fold_sum (fold_sum a + b) mod 65535 = (a + b) mod 65535" by (simp add: fold_sum_mod)
qed (simp_all add: fold_sum_le)

lemma lesum_append: "even (length xs) \<Longrightarrow> lesum (xs @ ys) = lesum xs + lesum ys"
  by (induction xs rule: lesum.induct) auto

lemma lesum_take_mono:
  assumes "even a" "a \<le> b"
  shows "lesum (take a bs) \<le> lesum (take b bs)"
proof (cases "a \<le> length bs")
  case True
  have "take b bs = take a bs @ take (b - a) (drop a bs)"
    using assms(2) by (metis le_add_diff_inverse take_add)
  with True assms(1) lesum_append[of "take a bs" "take (b - a) (drop a bs)"] show ?thesis by simp
next
  case False
  with assms(2) show ?thesis by simp
qed

lemma lesum_le: "lesum bs \<le> 65535 * ((length bs + 1) div 2)"
proof (induction bs rule: lesum.induct)
  case (2 a)
  then show ?case using unat_u8_lt[of a] by simp
next
  case (3 a b bs)
  then show ?case using unat_u8_lt[of a] unat_u8_lt[of b] by simp
qed simp

lemma unat_le16: "unat (le16 a b) = unat a + 256 * unat b"
proof -
  have d: "ucast a AND push_bit 8 (ucast b :: u16) = 0"
    by (auto simp: bit_eq_iff bit_simps)
  have "le16 a b = ucast a + push_bit 8 (ucast b)"
    unfolding le16_def using disjunctive_add[of "ucast a :: u16" "push_bit 8 (ucast b)"] d
    by (simp add: bit_eq_iff bit_simps)
  then have "unat (le16 a b) = (unat a + 256 * unat b) mod 65536"
    by (simp add: unat_word_ariths push_bit_eq_mult mod_add_right_eq mult.commute)
  then show ?thesis using unat_u8_lt[of a] unat_u8_lt[of b] by simp
qed

lemma unat_fold_step:
  "unat ((acc AND 0xFFFF) + drop_bit 16 acc :: u32) = unat acc mod 65536 + unat acc div 65536"
proof -
  have "unat acc mod 65536 + unat acc div 65536 < 2 ^ 32"
    using mod_less_divisor[of 65536 "unat acc"] unat_u32_lt[of acc] by (simp add: less_mult_imp_div_less)
  then show ?thesis
    using unat_and_ffff[of acc] by (simp add: unat_word_ariths drop_bit_eq_div unat_div)
qed

lemma unat_not_low: "unat s \<le> 65535 \<Longrightarrow> unat (ucast (NOT s :: u32) :: u16) = 65535 - unat s"
proof -
  assume s: "unat s \<le> 65535"
  have "(ucast (NOT s) :: u16) = NOT (ucast s)" by (auto simp: bit_eq_iff bit_simps)
  also have "\<dots> = - 1 - ucast s" by (simp add: not_eq_complement)
  finally have "unat (ucast (NOT s) :: u16) = unat (- 1 - ucast s :: u16)" by simp
  also have "\<dots> = 65535 - unat (ucast s :: u16)"
    by (subst unat_sub) (simp_all add: unsigned_minus_1_eq_mask mask_eq_exp_minus_1)
  also have "unat (ucast s :: u16) = unat s"
    using s by (simp add: unsigned_ucast_eq take_bit_nat_eq_self)
  finally show ?thesis .
qed

lemma fold_cong:
  "a mod 65535 = b mod 65535 \<Longrightarrow> (a = 0 \<longleftrightarrow> b = 0) \<Longrightarrow> fold_sum a = fold_sum b"
  by (rule fold_sum_unique) (simp_all add: fold_sum_mod fold_sum_le)

lemma fold_sum_idem [simp]: "fold_sum (fold_sum a) = fold_sum a"
  by (rule fold_sum_small[OF fold_sum_le])

lemma fold_sum_once:
  assumes "n \<le> 131070"
  shows "n mod 65536 + n div 65536 = fold_sum n"
proof -
  have "n mod 65536 + n div 65536 \<le> 65535"
  proof (cases "n < 65536")
    case False
    with assms have "n = 65536 + (n - 65536)" "n - 65536 < 65535" by linarith+
    then have "n div 65536 = 1" "n mod 65536 = n - 65536"
      using div_mult_self1[of 65536 "n - 65536" 1] mod_mult_self1[of "n - 65536" 1 65536] by simp_all
    with \<open>n - 65536 < 65535\<close> show ?thesis by linarith
  qed simp
  then have "n mod 65536 + n div 65536 = fold_sum (n mod 65536 + n div 65536)"
    by (rule fold_sum_small[symmetric])
  then show ?thesis by (simp only: fold_sum_step)
qed

lemma fold_sum_twice:
  assumes "n < 2 ^ 32"
  shows "(n mod 65536 + n div 65536) mod 65536 + (n mod 65536 + n div 65536) div 65536 = fold_sum n"
proof -
  have "n mod 65536 < 65536" "n div 65536 < 65536" using assms by (simp_all add: less_mult_imp_div_less)
  then have "n mod 65536 + n div 65536 \<le> 131070" by linarith
  from fold_sum_once[OF this] show ?thesis by (simp only: fold_sum_step)
qed

text \<open>Rotating the bytes of a sum is multiplication by 256.\<close>

lemma fold_sum_256: "x \<le> 65535 \<Longrightarrow> fold_sum (256 * x) = 256 * (x mod 256) + x div 256"
proof -
  assume "x \<le> 65535"
  then have "x div 256 \<le> 65535 div 256" by (intro div_le_mono)
  then have small: "x div 256 \<le> 255" by simp
  have e: "256 * x = (x div 256) * 65536 + 256 * (x mod 256)" using div_mult_mod_eq[of x 256] by linarith
  have lt: "256 * (x mod 256) < 65536" by simp
  have "(256 * x) mod 65536 = 256 * (x mod 256)" "(256 * x) div 65536 = x div 256"
    using lt unfolding e by simp_all
  then have "fold_sum (256 * x) = fold_sum (256 * (x mod 256) + x div 256)"
    using fold_sum_step[of "256 * x"] by simp
  also have "\<dots> = 256 * (x mod 256) + x div 256"
  proof (rule fold_sum_small)
    have "x mod 256 \<le> 255" using mod_less_divisor[of 256 x] by linarith
    then show "256 * (x mod 256) + x div 256 \<le> 65535" using small by linarith
  qed
  finally show ?thesis .
qed

lemma mod_65536: "(a + 65536 * b) mod 65535 = (a + b) mod (65535 :: nat)"
proof -
  have "a + 65536 * b = a + b + 65535 * b" by simp
  then show ?thesis by (simp only: mod_mult_self2)
qed

lemma fold_sum_65536: "fold_sum (a + 65536 * b) = fold_sum (a + b)"
  by (rule fold_cong) (simp_all add: mod_65536)

text \<open>A prefix of odd length shifts the words of what follows it by one byte.\<close>

lemma lesum_0_iff: "lesum bs = 0 \<longleftrightarrow> (\<forall>b \<in> set bs. b = 0)"
  by (induction bs rule: lesum.induct) (auto simp: unat_eq_0)

lemma lesum_Cons_mod: "lesum (a # bs) mod 65535 = (unat a + 256 * lesum bs) mod 65535"
proof (induction bs arbitrary: a rule: lesum.induct)
  case (3 b c bs)
  have "lesum (a # b # c # bs) mod 65535 = (unat a + 256 * unat b + lesum (c # bs)) mod 65535" by simp
  also have "\<dots> = (unat a + 256 * unat b + (unat c + 256 * lesum bs)) mod 65535"
    by (rule mod_add_cong) (simp_all only: 3)
  also have "\<dots> = (unat a + 256 * unat b + 256 * lesum bs + 65536 * unat c) mod 65535"
    unfolding mod_65536 by (simp add: ac_simps)
  finally show ?case by (simp add: algebra_simps)
qed simp_all

lemma lesum_odd_append:
  "odd (length xs) \<Longrightarrow> lesum (xs @ ys) mod 65535 = (lesum xs + 256 * lesum ys) mod 65535"
proof (induction xs rule: lesum.induct)
  case (2 a)
  show ?case using lesum_Cons_mod[of a ys] by simp
next
  case (3 a b xs)
  then have "(unat a + 256 * unat b + lesum (xs @ ys)) mod 65535 =
      (unat a + 256 * unat b + (lesum xs + 256 * lesum ys)) mod 65535"
    by (intro mod_add_cong) simp_all
  then show ?case by (simp add: add.assoc)
qed simp

lemma fold_lesum_append:
  "fold_sum (lesum (xs @ ys)) = fold_sum (lesum xs + (if even (length xs) then 1 else 256) * lesum ys)"
proof (cases "even (length xs)")
  case False
  have "(lesum (xs @ ys) = 0) = (lesum xs + 256 * lesum ys = 0)" by (auto simp: lesum_0_iff)
  with False lesum_odd_append[of xs ys] show ?thesis by (auto intro: fold_cong)
qed (simp add: lesum_append)

text \<open>Replacing the word at an even offset changes the sum by the difference.\<close>

lemma lesum_update16:
  "even k \<Longrightarrow> Suc k < length bs \<Longrightarrow>
    lesum (bs[k := a, Suc k := b]) + unat (bs ! k) + 256 * unat (bs ! Suc k) =
    lesum bs + unat a + 256 * unat b"
proof (induction bs arbitrary: k rule: lesum.induct)
  case (3 x y bs)
  show ?case
  proof (cases k)
    case (Suc k')
    with "3.prems" obtain j where "k = Suc (Suc j)" "even j" by (cases k') auto
    with "3.IH"[of j] "3.prems" show ?thesis by simp
  qed simp
qed simp_all

section \<open>The contract of a checksum routine\<close>

locale chksum =
  fixes cks :: "bytes \<Rightarrow> u16"
    and limit :: nat
  assumes cks: "length bs \<le> limit \<Longrightarrow> unat (cks bs) = 65535 - fold_sum (lesum bs)"
begin

lemma cks_0_iff:
  "length bs \<le> limit \<Longrightarrow> cks bs = 0 \<longleftrightarrow> fold_sum (lesum bs) = 65535"
  using cks[of bs] fold_sum_le[of "lesum bs"] by (auto simp: unat_eq_0[symmetric] simp del: unat_eq_0)

text \<open>A message with its checksum in a field that was zero verifies.\<close>

lemma cks_insert:
  assumes "length bs \<le> limit" "even k" "Suc k < length bs" "bs ! k = 0" "bs ! Suc k = 0"
  shows "cks (bs[k := byte_at 0 (cks bs), Suc k := byte_at 1 (cks bs)]) = 0"
proof -
  let ?c = "cks bs" and ?bs = "bs[k := byte_at 0 (cks bs), Suc k := byte_at 1 (cks bs)]"
  have c: "unat (byte_at 0 ?c) + 256 * unat (byte_at 1 ?c) = unat ?c"
    using unat_le16[of "byte_at 0 ?c" "byte_at 1 ?c"] le16_byte_at[of ?c] by simp
  with lesum_update16[OF assms(2,3), of "byte_at 0 ?c" "byte_at 1 ?c"] assms(4,5) cks[OF assms(1)]
  have s: "lesum ?bs = lesum bs + (65535 - fold_sum (lesum bs))" by simp
  have "fold_sum (lesum ?bs) = fold_sum (fold_sum (lesum bs) + (65535 - fold_sum (lesum bs)))"
    unfolding s by (rule fold_sum_add[symmetric])
  also have "\<dots> = 65535" using fold_sum_le[of "lesum bs"] by (simp add: fold_sum_small)
  finally show ?thesis using cks_0_iff[of ?bs] assms(1) by simp
qed

end

end
