(* ===== verification/LwipDef.thy ===== *)
theory LwipDef
  imports CStrings OnesSum
begin

text \<open>
  The common helpers of lwIP, \<open>src/src/lwip/core/def.c\<close>: byte order, case-insensitive
  comparison, bounded search, decimal conversion and constant-time comparison.

  Strings are byte objects as in \<open>CStrings\<close>; a returned pointer into \<open>buffer\<close> is an index,
  and \<open>Some None\<close> is the null pointer. The lemmas state the two conversions as byte
  reversals, the comparison as equality of the lower-cased strings and the decimal
  conversion as printing with a bound.
\<close>

section \<open>Byte order\<close>

definition lwip_htons :: "u16 \<Rightarrow> u16" where
  "lwip_htons n = (push_bit 8 (n AND 0x00FF)) OR (drop_bit 8 (n AND 0xFF00))"

definition lwip_htonl :: "u32 \<Rightarrow> u32" where
  "lwip_htonl n = push_bit 24 (n AND 0x000000FF) OR push_bit 8 (n AND 0x0000FF00) OR
     drop_bit 8 (n AND 0x00FF0000) OR drop_bit 24 (n AND 0xFF000000)"

section \<open>Searching\<close>

function strnstr_loop :: "bytes \<Rightarrow> bytes \<Rightarrow> nat \<Rightarrow> nat \<Rightarrow> nat \<Rightarrow> nat option option" where
  "strnstr_loop buffer token tokenlen n p = do {
     c \<leftarrow> aget buffer p;
     if c \<noteq> 0 \<and> p + tokenlen \<le> n then do {
       t \<leftarrow> aget token 0;
       found \<leftarrow> (if c = t then map_option (\<lambda>r. r = 0) (strncmp (drop p buffer) token tokenlen)
                else Some False);
       if found then Some (Some p) else strnstr_loop buffer token tokenlen n (Suc p)
     } else Some None
   }"
  by pat_completeness auto
termination
  by (relation "measure (\<lambda>(buffer, token, tokenlen, n, p). length buffer - p)") (auto simp: aset_simps)

declare strnstr_loop.simps [simp del]

definition lwip_strnstr :: "bytes \<Rightarrow> bytes \<Rightarrow> nat \<Rightarrow> nat option option" where
  "lwip_strnstr buffer token n = do {
     tokenlen \<leftarrow> strlen token;
     if tokenlen = 0 then Some (Some 0) else strnstr_loop buffer token tokenlen n 0
   }"

section \<open>Comparison without case\<close>

text \<open>The test on two bytes that both functions share: \<open>True\<close> when they differ for good.\<close>

definition char_differs :: "u8 \<Rightarrow> u8 \<Rightarrow> bool" where
  "char_differs c1 c2 =
     (if c1 \<noteq> c2 then
        let c1_upc = c1 OR 0x20 in
        if 97 \<le> c1_upc \<and> c1_upc \<le> 122 then
          let c2_upc = c2 OR 0x20 in
          if c1_upc \<noteq> c2_upc then True else False
        else True
      else False)"

fun lwip_stricmp :: "bytes \<Rightarrow> bytes \<Rightarrow> int option" where
  "lwip_stricmp (c1 # str1) (c2 # str2) =
     (if char_differs c1 c2 then Some 1
      else if c1 \<noteq> 0 then lwip_stricmp str1 str2 else Some 0)"
| "lwip_stricmp _ _ = None"

fun lwip_strnicmp :: "bytes \<Rightarrow> bytes \<Rightarrow> u32 \<Rightarrow> int option" where
  "lwip_strnicmp (c1 # str1) (c2 # str2) len =
     (if char_differs c1 c2 then Some 1
      else let len = len - 1 in
        if len \<noteq> 0 \<and> c1 \<noteq> 0 then lwip_strnicmp str1 str2 len else Some 0)"
| "lwip_strnicmp _ _ _ = None"

function strnistr_loop :: "bytes \<Rightarrow> bytes \<Rightarrow> nat \<Rightarrow> nat \<Rightarrow> nat \<Rightarrow> nat option option" where
  "strnistr_loop buffer token tokenlen n p = do {
     c \<leftarrow> aget buffer p;
     if c \<noteq> 0 \<and> p + tokenlen \<le> n then do {
       r \<leftarrow> lwip_strnicmp (drop p buffer) token (of_nat tokenlen);
       if r = 0 then Some (Some p) else strnistr_loop buffer token tokenlen n (Suc p)
     } else Some None
   }"
  by pat_completeness auto
termination
  by (relation "measure (\<lambda>(buffer, token, tokenlen, n, p). length buffer - p)") (auto simp: aset_simps)

declare strnistr_loop.simps [simp del]

definition lwip_strnistr :: "bytes \<Rightarrow> bytes \<Rightarrow> nat \<Rightarrow> nat option option" where
  "lwip_strnistr buffer token n = do {
     tokenlen \<leftarrow> strlen token;
     if tokenlen = 0 then Some (Some 0) else strnistr_loop buffer token tokenlen n 0
   }"

section \<open>Decimal conversion\<close>

text \<open>
  \<open>while ((n != 0) && (tmp > res))\<close>; \<open>n\<close> is not negative there.
\<close>

function itoa_loop :: "int \<Rightarrow> nat \<Rightarrow> nat \<Rightarrow> bytes \<Rightarrow> (int \<times> nat \<times> bytes) option" where
  "itoa_loop n tmp res buf =
     (if n \<noteq> 0 \<and> res < tmp then do {
        let val = 48 + of_int (n mod 10);
        let tmp = tmp - 1;
        buf \<leftarrow> aset buf tmp val;
        itoa_loop (n div 10) tmp res buf
      } else Some (n, tmp, buf))"
  by pat_completeness auto
termination
  by (relation "measure (\<lambda>(n, tmp, res, buf). tmp)") auto

declare itoa_loop.simps [simp del]

text \<open>The negation of the least \<open>int\<close> overflows, which is undefined.\<close>

definition lwip_itoa :: "bytes \<Rightarrow> nat \<Rightarrow> int \<Rightarrow> bytes option" where
  "lwip_itoa result bufsize number =
     (if number = - (2 ^ 31) then None
      else let n = (if 0 \<le> number then number else - number) in
      if bufsize < 2 then (if bufsize = 1 then aset result 0 0 else Some result)
      else do {
        let tmp = bufsize - 1;
        (res, result) \<leftarrow> (if number < 0 then map_option (Pair 1) (aset result 0 45) else Some (0, result));
        result \<leftarrow> aset result tmp 0;
        (n, tmp, result) \<leftarrow> itoa_loop n tmp res result;
        if n \<noteq> 0 then aset result 0 0
        else do {
          c \<leftarrow> aget result tmp;
          if c = 0 then do {
            result \<leftarrow> aset result res 48;
            aset result (res + 1) 0
          } else memmove result res tmp (bufsize - tmp)
        }
      })"

section \<open>Constant-time comparison\<close>

fun memcmp_loop :: "bytes \<Rightarrow> bytes \<Rightarrow> nat \<Rightarrow> u8 \<Rightarrow> u8 option" where
  "memcmp_loop a1 a2 0 ret = Some ret"
| "memcmp_loop (x # a1) (y # a2) (Suc n) ret = memcmp_loop a1 a2 n (ret OR (x XOR y))"
| "memcmp_loop _ _ (Suc n) ret = None"

definition lwip_memcmp_consttime :: "bytes \<Rightarrow> bytes \<Rightarrow> nat \<Rightarrow> int option" where
  "lwip_memcmp_consttime s1 s2 len = map_option uint (memcmp_loop s1 s2 len 0)"

section \<open>Byte order is reversal\<close>

lemma lwip_htons_le16: "lwip_htons (le16 a b) = le16 b a"
proof -
  have "lwip_htons (le16 a b) =
      push_bit 8 (le16 a b AND mask 8) OR drop_bit 8 (le16 a b AND push_bit 8 (mask 8))"
    by (simp add: lwip_htons_def mask_eq_decr_exp push_bit_eq_mult)
  also have "\<dots> = le16 b a"
    by (rule bit_word_eqI) (auto simp: le16_def bit_simps)
  finally show ?thesis .
qed

lemma lwip_htonl_le32: "lwip_htonl (le32 a b c d) = le32 d c b a"
proof -
  let ?w = "le32 a b c d"
  have m: "(0xFF :: u32) = mask 8" "(0xFF00 :: u32) = push_bit 8 (mask 8)"
    "(0xFF0000 :: u32) = push_bit 16 (mask 8)" "(0xFF000000 :: u32) = push_bit 24 (mask 8)"
    by (simp_all add: mask_eq_decr_exp push_bit_eq_mult)
  have "lwip_htonl ?w = push_bit 24 (?w AND mask 8) OR push_bit 8 (?w AND push_bit 8 (mask 8)) OR
      drop_bit 8 (?w AND push_bit 16 (mask 8)) OR drop_bit 24 (?w AND push_bit 24 (mask 8))"
    unfolding lwip_htonl_def m ..
  also have "\<dots> = le32 d c b a"
  proof (rule bit_word_eqI)
    fix n assume "n < LENGTH(32)"
    then consider "n < 8" | "8 \<le> n \<and> n < 16" | "16 \<le> n \<and> n < 24" | "24 \<le> n \<and> n < 32"
      by fastforce
    then show "bit (push_bit 24 (?w AND mask 8) OR push_bit 8 (?w AND push_bit 8 (mask 8)) OR
        drop_bit 8 (?w AND push_bit 16 (mask 8)) OR drop_bit 24 (?w AND push_bit 24 (mask 8))) n =
        bit (le32 d c b a) n"
      by cases (auto simp: le32_def bit_simps)
  qed
  finally show ?thesis .
qed

lemma lwip_htons_htons [simp]: "lwip_htons (lwip_htons n) = n"
  by (metis lwip_htons_le16 le16_byte_at)

lemma lwip_htonl_htonl [simp]: "lwip_htonl (lwip_htonl n) = n"
  by (metis lwip_htonl_le32 le32_byte_at)

section \<open>Comparison without case is comparison of the lower-cased strings\<close>

text \<open>The rows of 32 characters.\<close>

lemma u8_rows:
  obtains q r where "unat (c :: u8) = 32 * q + r" "r < 32" "unat c div 32 = q"
    "q = 0 \<or> q = 1 \<or> q = 2 \<or> q = 3 \<or> q = 4 \<or> q = 5 \<or> q = 6 \<or> q = 7"
proof (rule that)
  show "unat c = 32 * (unat c div 32) + unat c mod 32" by simp
  have "unat c div 32 < 8" using unat_u8_lt[of c] by (simp add: less_mult_imp_div_less)
  then show "unat c div 32 = 0 \<or> unat c div 32 = 1 \<or> unat c div 32 = 2 \<or> unat c div 32 = 3 \<or>
      unat c div 32 = 4 \<or> unat c div 32 = 5 \<or> unat c div 32 = 6 \<or> unat c div 32 = 7" by linarith
qed simp_all

lemma or_0x20:
  "unat (c OR 0x20 :: u8) = (if odd (unat c div 32) then unat c else unat c + 32)"
proof -
  have b: "odd (unat c div 32) \<longleftrightarrow> bit c 5"
    using bit_iff_odd[of "unat c" 5] by (simp add: bit_unsigned_iff)
  have "(0x20 :: u8) = push_bit 5 1" by (simp add: push_bit_eq_mult)
  then have t: "bit (0x20 :: u8) n \<longleftrightarrow> n = 5" for n
    by (auto simp only: bit_push_bit_iff bit_1_iff) auto
  show ?thesis
  proof (cases "bit c 5")
    case True
    have "c OR 0x20 = c"
    proof (rule bit_word_eqI)
      fix n
      show "bit (c OR 0x20) n \<longleftrightarrow> bit c n"
        unfolding bit_or_iff t using True by auto
    qed
    then show ?thesis using True b by simp
  next
    case False
    then have "\<not> bit c n \<or> \<not> bit (0x20 :: u8) n" for n unfolding t by auto
    then have "c OR 0x20 = c + 0x20" by (rule disjunctive_add[symmetric])
    moreover have "unat c < 224" using unat_u8_lt[of c] False b by (cases rule: u8_rows[of c]) auto
    ultimately show ?thesis using False b by (simp add: unat_word_ariths)
  qed
qed

lemmas class_defs = isalpha_def islower_def isupper_def word_le_nat_alt

lemma unat_tolower: "unat (tolower c) = (if isupper c then unat c + 32 else unat c)"
  by (simp add: tolower_def isupper_def word_le_nat_alt unat_word_ariths)

lemma letter_facts:
  "97 \<le> c OR 0x20 \<and> c OR 0x20 \<le> 122 \<longleftrightarrow> isalpha c"
  "tolower c = (if isalpha c then c OR 0x20 else c)"
  "isalpha (tolower c) \<longleftrightarrow> isalpha c"
  "tolower c = 0 \<longleftrightarrow> c = 0"
proof -
  obtain q r where c: "unat c = 32 * q + r" "r < 32" "unat c div 32 = q"
    and q: "q = 0 \<or> q = 1 \<or> q = 2 \<or> q = 3 \<or> q = 4 \<or> q = 5 \<or> q = 6 \<or> q = 7"
    by (rule u8_rows)
  show "97 \<le> c OR 0x20 \<and> c OR 0x20 \<le> 122 \<longleftrightarrow> isalpha c"
    unfolding class_defs or_0x20 c(3) using q c(1,2) by (elim disjE) auto
  have "odd (unat c div 32)" if "97 \<le> unat c" "unat c \<le> 122"
    unfolding c(3) using q c(1,2) that by (elim disjE) auto
  moreover have "even (unat c div 32)" if "65 \<le> unat c" "unat c \<le> 90"
    unfolding c(3) using q c(1,2) that by (elim disjE) auto
  ultimately show "tolower c = (if isalpha c then c OR 0x20 else c)"
    by (auto simp: word_unat_eq_iff unat_tolower or_0x20 class_defs)
  show "isalpha (tolower c) \<longleftrightarrow> isalpha c" by (auto simp: class_defs unat_tolower)
  show "tolower c = 0 \<longleftrightarrow> c = 0" by (auto simp: word_unat_eq_iff unat_tolower class_defs)
qed

lemma char_differs_iff: "char_differs c1 c2 \<longleftrightarrow> tolower c1 \<noteq> tolower c2"
proof (cases "isalpha c1 = isalpha c2")
  case True
  then show ?thesis
    unfolding char_differs_def letter_facts(1) Let_def by (auto simp: letter_facts(2))
next
  case False
  then have "tolower c1 \<noteq> tolower c2" "c1 \<noteq> c2" "c1 OR 0x20 \<noteq> c2 OR 0x20"
    using letter_facts(1,3)[of c1] letter_facts(1,3)[of c2] by auto
  then show ?thesis by (simp add: char_differs_def Let_def)
qed

lemma lwip_stricmp_0_iff:
  "terminated a \<Longrightarrow> terminated b \<Longrightarrow>
    lwip_stricmp a b = Some (if map tolower (cstr a) = map tolower (cstr b) then 0 else 1)"
proof (induction a b rule: lwip_stricmp.induct)
  case (1 c1 str1 c2 str2)
  then show ?case
    using letter_facts(4)[of c1] letter_facts(4)[of c2] by (auto simp: char_differs_iff)
qed simp_all

section \<open>Decimal conversion prints what fits\<close>

lemma aset_0 [simp]: "xs \<noteq> [] \<Longrightarrow> aset xs 0 v = Some (xs[0 := v])"
  by simp

lemma length_decimal: "0 < n \<Longrightarrow> length (decimal n) = length (digits_rev n)"
  by (simp flip: rev_digits_rev)

lemma digit_nonzero: "c \<in> set (decimal n) \<Longrightarrow> c \<noteq> 0"
proof (induction n rule: decimal.induct)
  case (1 n)
  then show ?case
    using atoi_digit[of "n mod 10"] atoi_digit[of n] by (auto simp: decimal.simps[of n] split: if_splits)
qed

lemma cstr_decimal: "cstr (decimal n @ 0 # r) = decimal n"
  using digit_nonzero by (intro cstr_append_zero) blast

lemma itoa_loop_fits:
  "length (digits_rev n) \<le> tmp - res \<Longrightarrow> tmp \<le> length buf \<Longrightarrow>
    itoa_loop (int n) tmp res buf =
      Some (0, tmp - length (digits_rev n), blit buf (tmp - length (digits_rev n)) (rev (digits_rev n)))"
proof (induction n arbitrary: tmp buf rule: digits_rev.induct)
  case (1 n)
  show ?case
  proof (cases "n = 0")
    case True
    then show ?thesis by (simp add: itoa_loop.simps blit_def)
  next
    case False
    let ?d = "48 + of_nat (n mod 10) :: u8"
    let ?l = "length (digits_rev (n div 10))"
    have t: "tmp - 1 < length buf" "res < tmp" "?l \<le> tmp - 1 - res" "tmp - 1 \<le> length buf"
      using "1.prems" False by (auto simp: digits_rev_pos)
    have d: "48 + of_int (int n mod 10) = ?d" by (metis of_int_of_nat_eq of_nat_numeral zmod_int)
    have "itoa_loop (int n) tmp res buf = itoa_loop (int (n div 10)) (tmp - 1) res (buf[tmp - 1 := ?d])"
      using False t(1,2) unfolding itoa_loop.simps[of "int n"] by (simp add: d Let_def zdiv_int)
    also have "\<dots> = Some (0, tmp - 1 - ?l, blit (buf[tmp - 1 := ?d]) (tmp - 1 - ?l) (rev (digits_rev (n div 10))))"
      using "1.IH"[OF False t(3), of "buf[tmp - 1 := ?d]"] t(4) by simp
    also have "blit (buf[tmp - 1 := ?d]) (tmp - 1 - ?l) (rev (digits_rev (n div 10))) =
        blit buf (tmp - 1 - ?l) (rev (digits_rev (n div 10)) @ [?d])"
      using blit_snoc[of "tmp - 1 - ?l" "rev (digits_rev (n div 10))" buf ?d] t by simp
    finally show ?thesis using False by (simp add: digits_rev_pos)
  qed
qed

lemma itoa_loop_full:
  "tmp - res < length (digits_rev n) \<Longrightarrow> tmp \<le> length buf \<Longrightarrow> res \<le> tmp \<Longrightarrow>
    \<exists>m buf'. itoa_loop (int n) tmp res buf = Some (m, res, buf') \<and> m \<noteq> 0 \<and> length buf' = length buf"
proof (induction n arbitrary: tmp buf rule: digits_rev.induct)
  case (1 n)
  then have n: "n \<noteq> 0" by (cases "n = 0") simp_all
  show ?case
  proof (cases "tmp = res")
    case True
    then show ?thesis using n by (simp add: itoa_loop.simps)
  next
    case False
    let ?b = "buf[tmp - 1 := 48 + of_int (int n mod 10)]"
    have "itoa_loop (int n) tmp res buf = itoa_loop (int (n div 10)) (tmp - 1) res ?b"
      using False n 1(3,4) unfolding itoa_loop.simps[of "int n"] by (simp add: Let_def zdiv_int)
    then show ?thesis
      using "1.IH"[OF n, of "tmp - 1" ?b] False n 1(2-4) by (simp add: digits_rev_pos)
  qed
qed

text \<open>The end of \<open>lwip_itoa\<close>, from the loop on.\<close>

definition itoa_tail :: "nat \<Rightarrow> nat \<Rightarrow> int \<Rightarrow> nat \<Rightarrow> bytes \<Rightarrow> bytes option" where
  "itoa_tail bufsize res n tmp result = do {
     (n, tmp, result) \<leftarrow> itoa_loop n tmp res result;
     if n \<noteq> 0 then aset result 0 0
     else do {
       c \<leftarrow> aget result tmp;
       if c = 0 then do {
         result \<leftarrow> aset result res 48;
         aset result (res + 1) 0
       } else memmove result res tmp (bufsize - tmp)
     }
   }"

lemma itoa_tail_zero:
  assumes "2 \<le> bufsize" "bufsize \<le> length result"
  shows "\<exists>r. itoa_tail bufsize 0 0 (bufsize - 1) (result[bufsize - 1 := 0]) = Some r \<and> terminated r \<and>
    length r = length result \<and> cstr r = [48]"
proof -
  let ?b = "result[bufsize - 1 := 0]"
  have "result \<noteq> []" using assms by auto
  then have "itoa_tail bufsize 0 0 (bufsize - 1) ?b = Some (?b[0 := 48, 1 := 0])"
    using assms by (simp add: itoa_tail_def itoa_loop.simps)
  moreover obtain a b rest where "?b = a # b # rest"
    using assms by (cases ?b; cases "tl ?b") (auto dest: arg_cong[of _ _ length])
  moreover have "length ?b = length result" by simp
  ultimately show ?thesis by auto
qed

lemma itoa_tail_fits:
  assumes "res + length (decimal m) < bufsize" "bufsize \<le> length buf" "0 < m" "buf ! (bufsize - 1) = 0"
  shows "\<exists>r. itoa_tail bufsize res (int m) (bufsize - 1) buf = Some (take res buf @ decimal m @ 0 # r) \<and>
    length buf = res + length (decimal m) + 1 + length r"
proof -
  let ?l = "length (decimal m)" and ?t = "bufsize - 1 - length (decimal m)"
  let ?b = "blit buf ?t (decimal m)"
  have l: "length (digits_rev m) = ?l" using assms(3) by (simp add: length_decimal)
  have loop: "itoa_loop (int m) (bufsize - 1) res buf = Some (0, ?t, ?b)"
    using itoa_loop_fits[of m "bufsize - 1" res buf] assms(1-3) by (simp add: l rev_digits_rev)
  have t: "?t + ?l = bufsize - 1" "res \<le> ?t" "?t \<le> length buf" "bufsize - ?t = Suc ?l" using assms(1,2) by linarith+
  have "drop (bufsize - 1) buf = 0 # drop bufsize buf"
    using Cons_nth_drop_Suc[of "bufsize - 1" buf] assms by simp
  then have d: "drop ?t ?b = decimal m @ 0 # drop bufsize buf"
    using t(1,3) by (simp add: blit_def)
  have tr: "take res ?b = take res buf" using t(2,3) by (simp add: blit_def min.absorb1)
  obtain c ds where c: "decimal m = c # ds" "c \<noteq> 0"
    using digit_nonzero[of _ m] by (cases "decimal m") (auto simp: decimal.simps[of m] split: if_splits)
  have len: "length ?b = length buf" "?t < length ?b" using t assms(1,2) by simp_all
  then have "?b ! ?t = c" using hd_drop_conv_nth[of ?t ?b] unfolding d by (simp add: c(1))
  then have "itoa_tail bufsize res (int m) (bufsize - 1) buf = memmove ?b res ?t (Suc ?l)"
    using len c(2) t(4) unfolding itoa_tail_def loop by simp
  also have "\<dots> = Some (blit ?b res (take (Suc ?l) (drop ?t ?b)))"
    using len t assms(2) by (intro memmove_eq) linarith+
  also have "\<dots> = Some (take res buf @ decimal m @ 0 # drop (res + Suc ?l) ?b)"
    unfolding blit_def[of ?b] d tr by simp
  finally show ?thesis using len(1) t(1,2) assms(1,2) by (intro exI conjI) (assumption, simp)
qed

lemma itoa_tail_full:
  assumes "bufsize - 1 - res < length (decimal m)" "bufsize \<le> length buf" "0 < m" "2 \<le> bufsize" "res \<le> 1"
  shows "\<exists>r. itoa_tail bufsize res (int m) (bufsize - 1) buf = Some (0 # r) \<and> length buf = Suc (length r)"
proof -
  obtain n b where b: "itoa_loop (int m) (bufsize - 1) res buf = Some (n, res, b)" "n \<noteq> 0" "length b = length buf"
    using itoa_loop_full[of "bufsize - 1" res m buf] assms unfolding length_decimal[OF assms(3)] by fastforce
  then show ?thesis using assms by (cases b) (auto simp: itoa_tail_def)
qed

definition printed :: "int \<Rightarrow> bytes" where
  "printed n = (if n < 0 then 45 # decimal (nat (- n)) else decimal (nat n))"

text \<open>
  C14: \<open>lwip_itoa\<close> with a buffer of at least two bytes leaves the decimal representation of
  the number, with its sign, as a terminated string when it fits and the empty string
  otherwise; it never writes outside the buffer.
\<close>

theorem itoa_prints_or_empties:
  assumes "2 \<le> bufsize" "bufsize \<le> length result" "- (2 ^ 31) < number"
  shows "\<exists>r. lwip_itoa result bufsize number = Some r \<and> terminated r \<and> length r = length result \<and>
    cstr r = (if length (printed number) < bufsize then printed number else [])"
proof -
  define m res where "m = nat \<bar>number\<bar>" and "res = (if number < 0 then Suc 0 else 0)"
  let ?buf = "(if number < 0 then result[0 := 45] else result)[bufsize - 1 := 0]"
  have m: "(if 0 \<le> number then number else - number) = int m" by (simp add: m_def)
  have buf: "length ?buf = length result" "?buf ! (bufsize - 1) = 0"
    "number < 0 \<Longrightarrow> ?buf ! 0 = 45" using assms(1,2) by (auto simp: nth_list_update simp flip: length_greater_0_conv)
  have ne: "result \<noteq> []" using assms(1,2) by auto
  then have def: "lwip_itoa result bufsize number = itoa_tail bufsize res (int m) (bufsize - 1) ?buf"
    using assms by (simp add: lwip_itoa_def itoa_tail_def m res_def Let_def split: if_splits)
  show ?thesis
  proof (cases "m = 0")
    case True
    then have "number = 0" by (simp add: m_def)
    then show ?thesis
      using def True buf assms itoa_tail_zero[of bufsize result] by (simp add: res_def printed_def decimal.simps)
  next
    case False
    then have p: "printed number = take res [45] @ decimal m" "0 < m"
      by (auto simp: printed_def m_def res_def)
    show ?thesis
    proof (cases "length (printed number) < bufsize")
      case True
      then have "res + length (decimal m) < bufsize" using p by (simp add: res_def split: if_splits)
      from itoa_tail_fits[OF this _ p(2), of ?buf] show ?thesis
        using def True p buf assms by (auto simp: res_def take_Suc_conv_app_nth cstr_decimal)
    next
      case f: False
      moreover have "decimal m \<noteq> []" by (simp add: decimal.simps[of m])
      ultimately have "bufsize - 1 - res < length (decimal m)"
        using p assms(1) by (cases "decimal m") (auto simp: res_def split: if_splits)
      from itoa_tail_full[OF this _ p(2) assms(1), of ?buf] show ?thesis
        using def f buf assms by (auto simp: res_def)
    qed
  qed
qed

theorem itoa_prints_or_empties_witness:
  "(\<exists>r. lwip_itoa (replicate 8 0) 8 (- 4711) = Some r \<and> cstr r = ascii ''-4711'') \<and>
   (\<exists>r. lwip_itoa (replicate 8 0) 5 (- 4711) = Some r \<and> cstr r = [])"
proof -
  have "printed (- 4711) = ascii ''-4711''"
    by (simp add: printed_def decimal.simps ascii_def)
  with itoa_prints_or_empties[of 8 "replicate 8 0" "- 4711"] itoa_prints_or_empties[of 5 "replicate 8 0" "- 4711"]
  show ?thesis by auto
qed

section \<open>Constant-time comparison\<close>

lemma xor_0_iff: "x XOR y = 0 \<longleftrightarrow> x = (y :: 'a::len word)"
  by (auto simp: bit_eq_iff bit_xor_iff)

lemma memcmp_loop_eq:
  "n \<le> length a \<Longrightarrow> n \<le> length b \<Longrightarrow>
    \<exists>r. memcmp_loop a b n ret = Some r \<and> (r = 0 \<longleftrightarrow> ret = 0 \<and> take n a = take n b)"
proof (induction a b n ret rule: memcmp_loop.induct)
  case (2 x a1 y a2 n ret)
  have "ret OR (x XOR y) = 0 \<longleftrightarrow> ret = 0 \<and> x = y"
    by (simp add: or_eq_0_iff xor_0_iff)
  with 2 show ?case by simp
qed simp_all

lemma lwip_memcmp_consttime_0_iff:
  "n \<le> length a \<Longrightarrow> n \<le> length b \<Longrightarrow>
    \<exists>r. lwip_memcmp_consttime a b n = Some r \<and> (r = 0 \<longleftrightarrow> take n a = take n b)"
  using memcmp_loop_eq[of n a b 0] by (auto simp: lwip_memcmp_consttime_def uint_0_iff)

end
