(* ===== verification/Ip4Addr.thy ===== *)
theory Ip4Addr
  imports LwipDef
begin

text \<open>
  IPv4 addresses, \<open>src/src/lwip/core/ipv4/ip4_addr.c\<close> with the macros of
  \<open>src/include/lwip/ip4_addr.h\<close>, and the part of \<open>struct netif\<close> that the IPv4 code reads.

  An address is the 32-bit word the target stores, its bytes in network order. Strings are
  byte objects; \<open>None\<close> is an access outside the object. The lemmas show that printing and
  parsing an address gives it back, which buffers are large enough for printing, and that
  the netmask test accepts the masks that are a run of ones followed by zeros.
\<close>

section \<open>Addresses and interfaces\<close>

definition IPADDR_NONE :: u32 where "IPADDR_NONE = 0xFFFFFFFF"
definition IPADDR_ANY :: u32 where "IPADDR_ANY = 0"
definition IPADDR_BROADCAST :: u32 where "IPADDR_BROADCAST = 0xFFFFFFFF"

definition NETIF_FLAG_UP :: u8 where "NETIF_FLAG_UP = 0x01"
definition NETIF_FLAG_BROADCAST :: u8 where "NETIF_FLAG_BROADCAST = 0x02"
definition NETIF_FLAG_LINK_UP :: u8 where "NETIF_FLAG_LINK_UP = 0x04"
definition NETIF_FLAG_ETHARP :: u8 where "NETIF_FLAG_ETHARP = 0x08"

record netif =
  ip_addr :: u32
  netmask :: u32
  gw :: u32
  mtu :: u16
  hwaddr :: bytes
  hwaddr_len :: u8
  nflags :: u8
  name0 :: u8
  name1 :: u8
  num :: u8

definition ip4_addr_net_eq :: "u32 \<Rightarrow> u32 \<Rightarrow> u32 \<Rightarrow> bool" where
  "ip4_addr_net_eq addr1 addr2 msk \<longleftrightarrow> addr1 AND msk = addr2 AND msk"

definition ip4_addr_isbroadcast_u32 :: "u32 \<Rightarrow> netif \<Rightarrow> bool" where
  "ip4_addr_isbroadcast_u32 addr nif =
     (if NOT addr = IPADDR_ANY \<or> addr = IPADDR_ANY then True
      else if nflags nif AND NETIF_FLAG_BROADCAST = 0 then False
      else if addr = ip_addr nif then False
      else if ip4_addr_net_eq addr (ip_addr nif) (netmask nif) \<and>
        addr AND NOT (netmask nif) = IPADDR_BROADCAST AND NOT (netmask nif) then True
      else False)"

section \<open>Netmasks\<close>

text \<open>The two loops of \<open>ip4_addr_netmask_valid\<close>: to the first zero, and on to the end.\<close>

lemma drop_bit_1_less: "w \<noteq> 0 \<Longrightarrow> unat (drop_bit 1 w :: u32) < unat w"
  by (simp add: drop_bit_eq_div unat_div unat_gt_0)

function first_zero :: "u32 \<Rightarrow> u32 \<Rightarrow> u32" where
  "first_zero nm msk =
     (if msk \<noteq> 0 then if nm AND msk = 0 then msk else first_zero nm (drop_bit 1 msk) else msk)"
  by pat_completeness auto
termination
  by (relation "measure (\<lambda>(nm, msk). unat msk)") (auto intro: drop_bit_1_less[simplified])

function no_ones :: "u32 \<Rightarrow> u32 \<Rightarrow> bool" where
  "no_ones nm msk =
     (if msk \<noteq> 0 then if nm AND msk \<noteq> 0 then False else no_ones nm (drop_bit 1 msk) else True)"
  by pat_completeness auto
termination
  by (relation "measure (\<lambda>(nm, msk). unat msk)") (auto intro: drop_bit_1_less[simplified])

declare first_zero.simps [simp del] no_ones.simps [simp del]

definition ip4_addr_netmask_valid :: "u32 \<Rightarrow> bool" where
  "ip4_addr_netmask_valid netmsk =
     (let nm_hostorder = lwip_htonl netmsk
      in no_ones nm_hostorder (first_zero nm_hostorder (push_bit 31 1)))"

section \<open>Parsing\<close>

text \<open>
  The inner loop of \<open>ip4addr_aton\<close>: the number at position \<open>cp\<close>. The value is a 32-bit
  word and wraps around.
\<close>

function aton_digits :: "bytes \<Rightarrow> nat \<Rightarrow> u32 \<Rightarrow> u32 \<Rightarrow> (u32 \<times> nat) option" where
  "aton_digits s cp base val =
     (case aget s cp of
        None \<Rightarrow> None
      | Some c \<Rightarrow>
          if isdigit c then
            if base = 8 \<and> 8 \<le> (ucast c - 48 :: u32) then Some (val, cp)
            else aton_digits s (Suc cp) base (val * base + (ucast c - 48))
          else if base = 16 \<and> isxdigit c then
            aton_digits s (Suc cp) base
              (push_bit 4 val OR (ucast c + 10 - (if islower c then 97 else 65)))
          else Some (val, cp))"
  by pat_completeness auto
termination
  by (relation "measure (\<lambda>(s, cp, base, val). length s - cp)") (auto simp: aset_simps)

declare aton_digits.simps [simp del]

text \<open>One number with its prefix; \<open>Some None\<close> when there is no digit.\<close>

definition aton_number :: "bytes \<Rightarrow> nat \<Rightarrow> (u32 \<times> nat) option option" where
  "aton_number s cp = do {
     c \<leftarrow> aget s cp;
     if \<not> isdigit c then Some None
     else if c = 48 then do {
       c \<leftarrow> aget s (cp + 1);
       if c = 120 \<or> c = 88 then map_option Some (aton_digits s (cp + 2) 16 0)
       else map_option Some (aton_digits s (cp + 1) 8 0)
     } else map_option Some (aton_digits s cp 10 0)
   }"

lemma aton_digits_mono: "aton_digits s cp base val = Some (v, cp') \<Longrightarrow> cp \<le> cp'"
proof (induction "length s - cp" arbitrary: cp val rule: less_induct)
  case less
  have ih: "Suc cp \<le> cp'" if "cp < length s" "aton_digits s (Suc cp) base w = Some (v, cp')" for w
    using less.hyps[of "Suc cp" w] that by simp
  from less.prems show ?case
    by (subst (asm) aton_digits.simps) (auto simp: aset_simps split: option.splits if_splits dest: ih)
qed

lemma aton_number_mono: "aton_number s cp = Some (Some (v, cp')) \<Longrightarrow> cp \<le> cp'"
  by (auto simp: aton_number_def bind_eq_Some_conv split: if_splits dest!: aton_digits_mono)

text \<open>
  The outer loop: the parts before the last number, the last number and where it ends.
  \<open>Some None\<close> is the return of 0.
\<close>

function aton_parts :: "bytes \<Rightarrow> nat \<Rightarrow> u32 list \<Rightarrow> (u32 list \<times> u32 \<times> nat) option option" where
  "aton_parts s cp parts =
     (case aton_number s cp of
        None \<Rightarrow> None
      | Some None \<Rightarrow> Some None
      | Some (Some (val, cp)) \<Rightarrow>
          (case aget s cp of
             None \<Rightarrow> None
           | Some c \<Rightarrow>
               if c = 46 then
                 if 3 \<le> length parts then Some None else aton_parts s (cp + 1) (parts @ [val])
               else Some (Some (parts, val, cp))))"
  by pat_completeness auto
termination
  by (relation "measure (\<lambda>(s, cp, parts). length s - cp)")
    (auto simp: aset_simps dest!: aton_number_mono)

declare aton_parts.simps [simp del]

text \<open>The final switch on the number of parts.\<close>

definition aton_combine :: "u32 list \<Rightarrow> u32 \<Rightarrow> u32 option" where
  "aton_combine parts val =
     (case parts of
        [] \<Rightarrow> Some val
      | [a] \<Rightarrow> if val > 0xFFFFFF then None else if a > 0xFF then None else Some (val OR push_bit 24 a)
      | [a, b] \<Rightarrow> if val > 0xFFFF then None else if a > 0xFF \<or> b > 0xFF then None
          else Some (val OR (push_bit 24 a OR push_bit 16 b))
      | [a, b, c] \<Rightarrow> if val > 0xFF then None else if a > 0xFF \<or> b > 0xFF \<or> c > 0xFF then None
          else Some (val OR (push_bit 24 a OR push_bit 16 b OR push_bit 8 c))
      | _ \<Rightarrow> None)"

text \<open>\<open>Some (Some addr)\<close> is the return of 1 with the address stored.\<close>

definition ip4addr_aton :: "bytes \<Rightarrow> u32 option option" where
  "ip4addr_aton s = do {
     r \<leftarrow> aton_parts s 0 [];
     (case r of
        None \<Rightarrow> Some None
      | Some (parts, val, cp) \<Rightarrow> do {
          c \<leftarrow> aget s cp;
          if c \<noteq> 0 \<and> \<not> isspace c then Some None
          else Some (map_option lwip_htonl (aton_combine parts val))
        })
   }"

definition ipaddr_addr :: "bytes \<Rightarrow> u32 option" where
  "ipaddr_addr s = do {
     r \<leftarrow> ip4addr_aton s;
     Some (case r of Some val \<Rightarrow> val | None \<Rightarrow> IPADDR_NONE)
   }"

section \<open>Printing\<close>

text \<open>\<open>do ... while (*ap)\<close>: the digits of one byte, last digit first, in \<open>inv[3]\<close>.\<close>

function inv_digits :: "u8 \<Rightarrow> nat \<Rightarrow> bytes \<Rightarrow> (nat \<times> bytes) option" where
  "inv_digits ap i dig =
     (case aset dig i (48 + ap mod 10) of
        None \<Rightarrow> None
      | Some dig \<Rightarrow> if ap div 10 \<noteq> 0 then inv_digits (ap div 10) (Suc i) dig else Some (Suc i, dig))"
  by pat_completeness auto
termination
  by (relation "measure (\<lambda>(ap, i, dig). length dig - i)") (auto simp: aset_simps)

declare inv_digits.simps [simp del]

text \<open>
  A store of one character at \<open>rp = buf + len\<close> with the test before it; the flag is
  \<open>False\<close> when the test makes the function return the null pointer.
\<close>

definition put_len :: "nat \<Rightarrow> u8 \<Rightarrow> bytes \<times> nat \<Rightarrow> ((bytes \<times> nat) \<times> bool) option" where
  "put_len buflen c = (\<lambda>(buf, len).
     if buflen \<le> len then Some ((buf, Suc len), False)
     else map_option (\<lambda>buf. ((buf, Suc len), True)) (aset buf len c))"

fun put_inv :: "nat \<Rightarrow> bytes \<Rightarrow> nat \<Rightarrow> bytes \<times> nat \<Rightarrow> ((bytes \<times> nat) \<times> bool) option" where
  "put_inv buflen dig 0 st = Some (st, True)"
| "put_inv buflen dig (Suc i) st = do {
     c \<leftarrow> aget dig i;
     (st, ok) \<leftarrow> put_len buflen c st;
     if ok then put_inv buflen dig i st else Some (st, False)
   }"

fun ntoa_bytes :: "nat \<Rightarrow> bytes \<Rightarrow> bytes \<times> nat \<Rightarrow> ((bytes \<times> nat) \<times> bool) option" where
  "ntoa_bytes buflen [] st = Some (st, True)"
| "ntoa_bytes buflen (ap # aps) st = do {
     (i, dig) \<leftarrow> inv_digits ap 0 [0, 0, 0];
     (st, ok) \<leftarrow> put_inv buflen dig i st;
     if ok then do {
       (st, ok) \<leftarrow> put_len buflen 46 st;
       if ok then ntoa_bytes buflen aps st else Some (st, False)
     } else Some (st, False)
   }"

text \<open>The second component tells a returned buffer from the null pointer.\<close>

definition ip4addr_ntoa_r :: "u32 \<Rightarrow> bytes \<Rightarrow> nat \<Rightarrow> (bytes \<times> bool) option" where
  "ip4addr_ntoa_r s_addr buf buflen = do {
     ((buf, len), ok) \<leftarrow> ntoa_bytes buflen (bytes32 s_addr) (buf, 0);
     if ok then map_option (\<lambda>buf. (buf, True)) (aset buf (len - 1) 0) else Some (buf, False)
   }"

definition IP4ADDR_STRLEN_MAX :: nat where "IP4ADDR_STRLEN_MAX = 16"

definition ip4addr_ntoa :: "u32 \<Rightarrow> bytes \<Rightarrow> (bytes \<times> bool) option" where
  "ip4addr_ntoa addr str = ip4addr_ntoa_r addr str IP4ADDR_STRLEN_MAX"

section \<open>Valid netmasks\<close>

lemma and_single_bit:
  fixes w :: u32
  assumes "j < 32"
  shows "w AND push_bit j 1 = 0 \<longleftrightarrow> \<not> bit w j"
proof
  assume "w AND push_bit j 1 = 0"
  from arg_cong[OF this, of "\<lambda>w. bit w j"] show "\<not> bit w j" using assms by (simp add: bit_simps)
next
  assume "\<not> bit w j"
  then show "w AND push_bit j 1 = 0"
    by (intro bit_word_eqI) (auto simp: bit_and_iff bit_exp_iff)
qed

lemma single_bit_nonzero: "push_bit j 1 \<noteq> (0 :: u32)" if "j < 32"
  using that and_single_bit[of j "- 1"] by (auto simp: bit_simps)

lemma drop_single_bit:
  "drop_bit 1 (push_bit (Suc j) 1) = (push_bit j 1 :: u32)" if "Suc j < 32"
  using that by (intro bit_word_eqI) (auto simp: bit_simps)

lemma no_ones_iff: "j < 32 \<Longrightarrow> no_ones nm (push_bit j 1) \<longleftrightarrow> (\<forall>i \<le> j. \<not> bit nm i)"
proof (induction j)
  case 0
  have "no_ones nm 0" by (simp add: no_ones.simps)
  then show ?case using and_single_bit[of 0 nm] by (simp add: no_ones.simps[of nm 1])
next
  case (Suc j)
  then have "no_ones nm (push_bit (Suc j) 1) \<longleftrightarrow> \<not> bit nm (Suc j) \<and> no_ones nm (push_bit j 1)"
    using single_bit_nonzero[of "Suc j"] and_single_bit[of "Suc j" nm] drop_single_bit[of j]
    by (subst no_ones.simps) simp
  then show ?case using Suc by (auto simp: le_Suc_eq)
qed

lemma first_zero_eq:
  "j < 32 \<Longrightarrow> (\<forall>i \<le> j. bit nm i) \<and> first_zero nm (push_bit j 1) = 0 \<or>
    (\<exists>k \<le> j. first_zero nm (push_bit j 1) = push_bit k 1 \<and> \<not> bit nm k \<and> (\<forall>i. k < i \<and> i \<le> j \<longrightarrow> bit nm i))"
proof (induction j)
  case 0
  have "first_zero nm 0 = 0" by (simp add: first_zero.simps)
  then show ?case using and_single_bit[of 0 nm] by (auto simp: first_zero.simps[of nm 1])
next
  case (Suc j)
  show ?case
  proof (cases "bit nm (Suc j)")
    case True
    then have "first_zero nm (push_bit (Suc j) 1) = first_zero nm (push_bit j 1)"
      using Suc.prems single_bit_nonzero[of "Suc j"] and_single_bit[of "Suc j" nm] drop_single_bit[of j]
      by (subst first_zero.simps) simp
    with Suc True show ?thesis by (auto simp: le_Suc_eq)
  next
    case False
    then have "first_zero nm (push_bit (Suc j) 1) = push_bit (Suc j) 1"
      using Suc.prems and_single_bit[of "Suc j" nm] by (subst first_zero.simps) simp
    with False show ?thesis by auto
  qed
qed

lemma eq_NOT_mask_iff: "(w :: u32) = NOT (mask k) \<longleftrightarrow> (\<forall>i < 32. bit w i \<longleftrightarrow> k \<le> i)"
  by (auto simp: bit_eq_iff bit_simps not_less)

text \<open>
  C20: \<open>ip4_addr_netmask_valid\<close> accepts a netmask exactly if it is, in host order, a run of ones
  followed by a run of zeros; both runs may be empty.
\<close>

theorem netmask_valid_iff:
  "ip4_addr_netmask_valid netmsk \<longleftrightarrow> (\<exists>k \<le> 32. lwip_htonl netmsk = NOT (mask k))"
proof -
  let ?nm = "lwip_htonl netmsk"
  have l31: "(31 :: nat) < 32" by simp
  have nv: "ip4_addr_netmask_valid netmsk = no_ones ?nm (first_zero ?nm (push_bit 31 1))"
    by (simp only: ip4_addr_netmask_valid_def Let_def)
  have "no_ones ?nm (first_zero ?nm (push_bit 31 1)) \<longleftrightarrow> (\<exists>k \<le> 32. \<forall>i < 32. bit ?nm i \<longleftrightarrow> k \<le> i)"
    using first_zero_eq[OF l31, of ?nm]
  proof (elim disjE conjE exE)
    assume a: "\<forall>i \<le> 31. bit ?nm i" and "first_zero ?nm (push_bit 31 1) = 0"
    then have "no_ones ?nm (first_zero ?nm (push_bit 31 1))" by (simp add: no_ones.simps)
    moreover have "\<forall>i < 32. bit ?nm i \<longleftrightarrow> 0 \<le> i" using a by auto
    ultimately show ?thesis by blast
  next
    fix k
    assume k: "k \<le> 31" "first_zero ?nm (push_bit 31 1) = push_bit k 1" "\<not> bit ?nm k"
      and above: "\<forall>i. k < i \<and> i \<le> 31 \<longrightarrow> bit ?nm i"
    have "(\<forall>i \<le> k. \<not> bit ?nm i) \<longleftrightarrow> (\<exists>k \<le> 32. \<forall>i < 32. bit ?nm i \<longleftrightarrow> k \<le> i)"
    proof
      assume "\<forall>i \<le> k. \<not> bit ?nm i"
      then have "\<forall>i < 32. bit ?nm i \<longleftrightarrow> Suc k \<le> i" using above by (auto simp: not_le Suc_le_eq)
      then show "\<exists>k \<le> 32. \<forall>i < 32. bit ?nm i \<longleftrightarrow> k \<le> i" using k(1) by (intro exI[of _ "Suc k"]) simp
    next
      assume "\<exists>k \<le> 32. \<forall>i < 32. bit ?nm i \<longleftrightarrow> k \<le> i"
      then show "\<forall>i \<le> k. \<not> bit ?nm i" using k(1,3) by (auto simp: not_le)
    qed
    then show ?thesis using no_ones_iff[of k ?nm] k(1) unfolding k(2) by simp
  qed
  then show ?thesis unfolding nv eq_NOT_mask_iff .
qed

section \<open>Printing an address\<close>

definition dotted :: "u32 \<Rightarrow> bytes" where
  "dotted addr = decimal (unat (byte_at 0 addr)) @ [46] @ decimal (unat (byte_at 1 addr)) @ [46] @
     decimal (unat (byte_at 2 addr)) @ [46] @ decimal (unat (byte_at 3 addr))"

lemma length_decimal_u8: "length (decimal (unat (b :: u8))) \<le> 3"
proof (cases "unat b = 0")
  case False
  have "unat b < 10 ^ 3" using unat_u8_lt[of b] by simp
  then have "length (digits_rev (unat b)) \<le> 3" by (rule length_digits_rev)
  then show ?thesis using length_decimal[of "unat b"] False by simp
qed (simp add: decimal.simps)

lemma inv_digits_eq:
  "i + length (decimal (unat ap)) \<le> length dig \<Longrightarrow>
    inv_digits ap i dig = Some (i + length (decimal (unat ap)),
      take i dig @ rev (decimal (unat ap)) @ drop (i + length (decimal (unat ap))) dig)"
proof (induction ap i dig rule: inv_digits.induct)
  case (1 ap i dig)
  have "unat ap mod 10 < 256" by (rule less_trans[of _ 10]) simp_all
  then have d: "(of_nat (unat ap mod 10) :: u8) = ap mod 10"
    by (simp add: word_unat_eq_iff unsigned_of_nat take_bit_nat_eq_self unat_mod)
  have z: "ap div 10 = 0 \<longleftrightarrow> unat ap < 10"
    by (simp add: unat_div div_eq_0_iff flip: unat_eq_0)
  have dec: "decimal (unat ap) = (if unat ap < 10 then [48 + ap mod 10]
      else decimal (unat (ap div 10)) @ [48 + ap mod 10])"
  proof (cases "unat ap < 10")
    case True
    then have "unat ap mod 10 = unat ap" by simp
    then show ?thesis using True decimal.simps[of "unat ap"] d by simp
  next
    case False
    then show ?thesis using decimal.simps[of "unat ap"] d by (simp add: unat_div)
  qed
  have i: "i < length dig" using "1.prems" by (simp add: dec split: if_splits)
  then have s: "aset dig i (48 + ap mod 10) = Some (dig[i := 48 + ap mod 10])" by simp
  show ?case
  proof (cases "unat ap < 10")
    case True
    then show ?thesis
      using i z by (subst inv_digits.simps) (simp add: dec upd_conv_take_nth_drop)
  next
    case False
    have "inv_digits ap i dig = inv_digits (ap div 10) (Suc i) (dig[i := 48 + ap mod 10])"
      using False i z by (subst inv_digits.simps) simp
    also have "\<dots> = Some (Suc i + length (decimal (unat (ap div 10))),
        take (Suc i) (dig[i := 48 + ap mod 10]) @ rev (decimal (unat (ap div 10))) @
        drop (Suc i + length (decimal (unat (ap div 10)))) (dig[i := 48 + ap mod 10]))"
      using "1.IH"[OF s] False z "1.prems" by (simp add: dec)
    finally show ?thesis using False i by (simp add: dec take_Suc_update)
  qed
qed

text \<open>Storing a string character by character, with the test of \<open>put_len\<close> before each.\<close>

fun put_str :: "nat \<Rightarrow> bytes \<Rightarrow> bytes \<times> nat \<Rightarrow> ((bytes \<times> nat) \<times> bool) option" where
  "put_str buflen [] st = Some (st, True)"
| "put_str buflen (c # w) st = do {
     (st, ok) \<leftarrow> put_len buflen c st;
     if ok then put_str buflen w st else Some (st, False)
   }"

lemma put_str_append:
  "put_str buflen (v @ w) st = do {
     (st, ok) \<leftarrow> put_str buflen v st;
     if ok then put_str buflen w st else Some (st, False)
   }"
  by (induction v arbitrary: st) (auto split: Option.bind_splits)

lemma put_inv_str: "i \<le> length dig \<Longrightarrow> put_inv buflen dig i st = put_str buflen (rev (take i dig)) st"
  by (induction i arbitrary: st) (auto simp: take_Suc_conv_app_nth split: Option.bind_splits)

lemma put_str_fits:
  "len + length w \<le> buflen \<Longrightarrow> buflen \<le> length buf \<Longrightarrow>
    put_str buflen w (buf, len) = Some ((blit buf len w, len + length w), True)"
  by (induction w arbitrary: buf len) (auto simp: put_len_def blit_def take_Suc_update)

lemma put_str_full:
  "buflen < len + length w \<Longrightarrow> len \<le> buflen \<Longrightarrow> buflen \<le> length buf \<Longrightarrow>
    \<exists>buf' len'. put_str buflen w (buf, len) = Some ((buf', len'), False) \<and> length buf' = length buf"
proof (induction w arbitrary: buf len)
  case (Cons c w)
  show ?case
  proof (cases "len = buflen")
    case False
    then show ?thesis using Cons.IH[of "Suc len" "buf[len := c]"] Cons.prems by (auto simp: put_len_def)
  qed (simp add: put_len_def)
qed simp

lemma ntoa_bytes_str:
  "ntoa_bytes buflen aps st = put_str buflen (concat (map (\<lambda>b. decimal (unat b) @ [46]) aps)) st"
proof (induction aps arbitrary: st)
  case (Cons ap aps)
  let ?n = "length (decimal (unat ap))"
  have d: "inv_digits ap 0 [0, 0, 0] = Some (?n, rev (decimal (unat ap)) @ drop ?n [0, 0, 0])"
    using inv_digits_eq[of 0 ap "[0, 0, 0]"] length_decimal_u8[of ap] by simp
  have "put_inv buflen (rev (decimal (unat ap)) @ drop ?n [0, 0, 0]) ?n st' =
      put_str buflen (decimal (unat ap)) st'" for st'
    by (subst put_inv_str) simp_all
  then show ?case
    by (auto simp: d Cons.IH put_str_append split: Option.bind_splits)
qed simp

lemma ntoa_r_fits:
  assumes "length (dotted addr) < buflen" "buflen \<le> length buf"
  shows "\<exists>rest. ip4addr_ntoa_r addr buf buflen = Some (dotted addr @ 0 # rest, True) \<and>
    length buf = length (dotted addr) + 1 + length rest"
proof -
  have c: "concat (map (\<lambda>b. decimal (unat b) @ [46]) (bytes32 addr)) = dotted addr @ [46]"
    by (simp add: dotted_def bytes32_def)
  have "ntoa_bytes buflen (bytes32 addr) (buf, 0) =
      Some ((blit buf 0 (dotted addr @ [46]), length (dotted addr) + 1), True)"
    unfolding ntoa_bytes_str c using put_str_fits[of 0 "dotted addr @ [46]" buflen buf] assms by simp
  then have "ip4addr_ntoa_r addr buf buflen =
      Some (dotted addr @ 0 # drop (length (dotted addr) + 1) buf, True)"
    using assms by (simp add: ip4addr_ntoa_r_def blit_def list_update_append)
  then show ?thesis using assms by auto
qed

lemma ntoa_r_full:
  assumes "buflen \<le> length (dotted addr)" "buflen \<le> length buf"
  shows "\<exists>buf'. ip4addr_ntoa_r addr buf buflen = Some (buf', False)"
proof -
  have c: "concat (map (\<lambda>b. decimal (unat b) @ [46]) (bytes32 addr)) = dotted addr @ [46]"
    by (simp add: dotted_def bytes32_def)
  show ?thesis
    using put_str_full[of buflen 0 "dotted addr @ [46]" buf] assms
    by (auto simp: ip4addr_ntoa_r_def ntoa_bytes_str c)
qed

text \<open>
  C19: \<open>ip4addr_ntoa_r\<close> returns the buffer with the dotted decimal form of the address as a
  terminated string if the string and its terminator fit into \<open>buflen\<close> bytes and the null
  pointer otherwise; it never stores past \<open>buflen\<close>.
\<close>

theorem ntoa_r_result:
  assumes "buflen \<le> length buf"
  shows "\<exists>r ok. ip4addr_ntoa_r addr buf buflen = Some (r, ok) \<and> (ok \<longleftrightarrow> length (dotted addr) < buflen) \<and>
    (ok \<longrightarrow> cstr r = dotted addr \<and> terminated r)"
proof (cases "length (dotted addr) < buflen")
  case True
  have "0 \<notin> set (dotted addr)" using digit_nonzero by (auto simp: dotted_def)
  with ntoa_r_fits[OF True assms] True show ?thesis by (auto simp: cstr_append_zero)
next
  case False
  then show ?thesis using ntoa_r_full[of buflen addr buf] assms by auto
qed

theorem ntoa_r_result_witness:
  "\<exists>r ok. ip4addr_ntoa_r 0x0201A8C0 (replicate 16 0) 16 = Some (r, ok) \<and>
    (ok \<longleftrightarrow> length (dotted 0x0201A8C0) < 16) \<and> (ok \<longrightarrow> cstr r = dotted 0x0201A8C0 \<and> terminated r)"
  by (rule ntoa_r_result) simp

section \<open>Parsing what was printed\<close>

lemma drop_eq_Cons: "drop k s = c # r \<Longrightarrow> k < length s \<and> s ! k = c \<and> drop (Suc k) s = r"
  by (metis Cons_nth_drop_Suc drop_all list.distinct(1) list.inject not_le)

lemma isdigit_decimal: "c \<in> set (decimal n) \<Longrightarrow> isdigit c"
proof (induction n rule: decimal.induct)
  case (1 n)
  then show ?case
    using atoi_digit[of "n mod 10"] atoi_digit[of n]
    by (auto simp: decimal.simps[of n] isdigit_def split: if_splits)
qed

lemma first_digit: "0 < n \<Longrightarrow> \<exists>e w. decimal n = e # w \<and> e \<noteq> 48"
proof (induction n rule: decimal.induct)
  case (1 n)
  show ?case
  proof (cases "n < 10")
    case True
    with less_10_cases[OF True] "1.prems" show ?thesis by (elim disjE) (simp_all add: decimal.simps)
  next
    case False
    then have "0 < n div 10" by (simp add: div_greater_zero_iff)
    with False "1.IH" show ?thesis by (auto simp: decimal.simps[of n])
  qed
qed

lemma ucast_digit: "d < 10 \<Longrightarrow> ucast (48 + of_nat d :: u8) - 48 = (of_nat d :: u32)"
proof -
  assume "d < 10"
  from less_10_cases[OF this] show ?thesis by (elim disjE) simp_all
qed

lemma aton_digits_step:
  assumes "drop cp s = (48 + of_nat d) # r" "d < 10"
  shows "aton_digits s cp 10 val = aton_digits s (Suc cp) 10 (val * 10 + of_nat d)"
proof -
  have "aget s cp = Some (48 + of_nat d)" using drop_eq_Cons[OF assms(1)] by simp
  moreover have "isdigit (48 + of_nat d)" using atoi_digit[OF assms(2)] by (simp add: isdigit_def)
  ultimately show ?thesis using ucast_digit[OF assms(2)] by (subst aton_digits.simps) simp
qed

lemma aton_digits_decimal:
  "drop cp s = decimal n @ r \<Longrightarrow> aton_digits s cp 10 val =
    aton_digits s (cp + length (decimal n)) 10 (val * 10 ^ length (decimal n) + of_nat n)"
proof (induction n arbitrary: cp val r rule: decimal.induct)
  case (1 n)
  show ?case
  proof (cases "n < 10")
    case True
    then show ?thesis using "1.prems" aton_digits_step[of cp s n r val] by (simp add: decimal.simps[of n])
  next
    case False
    let ?l = "length (decimal (n div 10))" and ?d = "48 + of_nat (n mod 10) :: u8"
    have dec: "decimal n = decimal (n div 10) @ [?d]" using False by (simp add: decimal.simps[of n])
    have "drop (cp + ?l) s = ?d # r"
      using arg_cong[OF "1.prems", of "drop ?l"] by (simp add: dec add.commute)
    note step = aton_digits_step[OF this]
    have "aton_digits s cp 10 val = aton_digits s (cp + ?l) 10 (val * 10 ^ ?l + of_nat (n div 10))"
      using "1.IH"[OF False, of cp "?d # r" val] "1.prems" dec by simp
    also have "\<dots> = aton_digits s (Suc (cp + ?l)) 10 ((val * 10 ^ ?l + of_nat (n div 10)) * 10 + of_nat (n mod 10))"
      by (rule step) simp
    also have "(val * 10 ^ ?l + of_nat (n div 10)) * 10 + of_nat (n mod 10) =
        val * 10 ^ length (decimal n) + (of_nat n :: u32)"
    proof -
      have "(of_nat n :: u32) = of_nat (n div 10 * 10 + n mod 10)" by (simp only: div_mult_mod_eq)
      also have "\<dots> = of_nat (n div 10) * 10 + of_nat (n mod 10)"
        by (simp only: of_nat_add of_nat_mult of_nat_numeral)
      finally show ?thesis by (simp add: dec algebra_simps)
    qed
    finally show ?thesis by (simp add: dec)
  qed
qed

lemma aton_number_decimal:
  assumes "drop cp s = decimal n @ c # r" "c = 46 \<or> c = 0"
  shows "aton_number s cp = Some (Some (of_nat n, cp + length (decimal n)))"
proof -
  have nd: "\<not> isdigit c" "c \<noteq> 120" "c \<noteq> 88" using assms(2) by (auto simp: isdigit_def)
  have at: "aget s (cp + length (decimal n)) = Some c"
    using arg_cong[OF assms(1), of "drop (length (decimal n))"]
      drop_eq_Cons[of "cp + length (decimal n)" s c r] by (simp add: add.commute)
  have stop: "aton_digits s (cp + length (decimal n)) b v = Some (v, cp + length (decimal n))" if "b \<noteq> 16" for b v
    using at nd that by (subst aton_digits.simps) simp
  show ?thesis
  proof (cases "n = 0")
    case True
    have d: "decimal n = [48]" using True by (simp add: decimal.simps)
    have "aget s cp = Some 48" using drop_eq_Cons[of cp s 48 "c # r"] assms(1) d by simp
    then show ?thesis
      using stop[of 8 0] at nd unfolding d by (simp add: aton_number_def isdigit_def True)
  next
    case False
    obtain e w where e: "decimal n = e # w" "e \<noteq> 48" "isdigit e"
      using first_digit[of n] False isdigit_decimal[of _ n] by (cases "decimal n") auto
    have "aget s cp = Some e" using drop_eq_Cons[of cp s e "w @ c # r"] assms(1) e by simp
    then show ?thesis
      using e aton_digits_decimal[OF assms(1), of 0] stop[of 10 "of_nat n"]
      by (simp add: aton_number_def)
  qed
qed

lemma after_number:
  assumes "drop cp s = w @ c # r"
  shows "aget s (cp + length w) = Some c" "drop (Suc (cp + length w)) s = r"
proof -
  have d: "drop (cp + length w) s = c # r"
    using arg_cong[OF assms, of "drop (length w)"] by (simp add: add.commute)
  show "aget s (cp + length w) = Some c" "drop (Suc (cp + length w)) s = r"
    using drop_eq_Cons[OF d] by simp_all
qed

lemma aton_parts_dot:
  assumes "drop cp s = decimal n @ 46 # r" "length parts < 3"
  shows "aton_parts s cp parts = aton_parts s (Suc (cp + length (decimal n))) (parts @ [of_nat n])"
  using aton_number_decimal[OF assms(1)] after_number[OF assms(1)] assms(2)
  by (subst aton_parts.simps) simp

lemma aton_parts_end:
  assumes "drop cp s = decimal n @ 0 # r"
  shows "aton_parts s cp parts = Some (Some (parts, of_nat n, cp + length (decimal n)))"
  using aton_number_decimal[OF assms] after_number[OF assms] by (subst aton_parts.simps) simp

lemma of_nat_unat_u8: "(of_nat (unat (b :: u8)) :: u32) = ucast b"
  by simp

lemma ucast_u8_le: "\<not> (ucast (b :: u8) :: u32) > 0xFF"
  using unat_u8_lt[of b] by (simp add: word_less_nat_alt)

lemma aton_dotted: "ip4addr_aton (dotted addr @ 0 # r) = Some (Some addr)"
proof -
  let ?b = "\<lambda>k. byte_at k addr" and ?s = "dotted addr @ 0 # r"
  let ?d = "\<lambda>k. decimal (unat (byte_at k addr))"
  have s0: "drop 0 ?s = ?d 0 @ 46 # (?d 1 @ 46 # (?d 2 @ 46 # (?d 3 @ 0 # r)))"
    by (simp add: dotted_def)
  note s1 = after_number(2)[OF s0] and p0 = aton_parts_dot[OF s0, of "[]"]
  note s2 = after_number(2)[OF s1] and p1 = aton_parts_dot[OF s1, of "[ucast (?b 0)]"]
  note s3 = after_number(2)[OF s2] and p2 = aton_parts_dot[OF s2, of "[ucast (?b 0), ucast (?b 1)]"]
  note p3 = aton_parts_end[OF s3, of "[ucast (?b 0), ucast (?b 1), ucast (?b 2)]"] after_number(1)[OF s3]
  have c: "aton_combine [ucast (?b 0), ucast (?b 1), ucast (?b 2)] (ucast (?b 3)) = Some (le32 (?b 3) (?b 2) (?b 1) (?b 0))"
    using ucast_u8_le by (simp add: aton_combine_def le32_def or.assoc or.commute or.left_commute)
  show ?thesis
    using p0 p1 p2 p3 c lwip_htonl_le32[of "?b 3" "?b 2" "?b 1" "?b 0"] le32_byte_at[of addr]
    by (simp add: ip4addr_aton_def)
qed

text \<open>
  C18: Printing an address with \<open>ip4addr_ntoa\<close> and parsing the string with
  \<open>ip4addr_aton\<close> gives the address back, for every address.
\<close>

theorem ntoa_aton_roundtrip:
  assumes "length str = 16"
  shows "\<exists>r. ip4addr_ntoa addr str = Some (r, True) \<and> ip4addr_aton r = Some (Some addr)"
proof -
  have "length (dotted addr) < 16"
    using length_decimal_u8[of "byte_at 0 addr"] length_decimal_u8[of "byte_at 1 addr"]
      length_decimal_u8[of "byte_at 2 addr"] length_decimal_u8[of "byte_at 3 addr"]
    by (simp add: dotted_def)
  with ntoa_r_fits[of addr 16 str] assms show ?thesis
    by (auto simp: ip4addr_ntoa_def IP4ADDR_STRLEN_MAX_def aton_dotted)
qed

theorem ntoa_aton_roundtrip_witness:
  "\<exists>r. ip4addr_ntoa 0xFFFFFFFF (replicate 16 7) = Some (r, True) \<and> ip4addr_aton r = Some (Some 0xFFFFFFFF)"
  by (rule ntoa_aton_roundtrip) simp

lemma aton_single: "ip4addr_aton (decimal n @ 0 # r) = Some (Some (lwip_htonl (of_nat n)))"
  using aton_parts_end[of 0 "decimal n @ 0 # r" n r "[]"] after_number(1)[of 0 "decimal n @ 0 # r" "decimal n" 0 r]
  by (simp add: ip4addr_aton_def aton_combine_def)

text \<open>
  C21: The parser does not check a number for overflow of its 32-bit accumulator. A string that is
  one decimal number is accepted whatever the number is, as the address that is the number
  modulo \<open>2^32\<close>; so every address is also written by infinitely many numbers beyond the range
  (\<open>4294967297\<close> is taken for 0.0.0.1).
\<close>

theorem aton_wraps:
  "ip4addr_aton (decimal n @ 0 # r) = Some (Some (lwip_htonl (of_nat (n mod 2 ^ 32)))) \<and>
   ip4addr_aton (decimal (n + k * 2 ^ 32) @ 0 # r) = ip4addr_aton (decimal n @ 0 # r)"
proof -
  have "(of_nat (n mod 2 ^ 32) :: u32) = of_nat n" "(of_nat (n + k * 2 ^ 32) :: u32) = of_nat n"
    by (simp_all add: unat_of_nat word_unat_eq_iff del: of_nat_add of_nat_mult)
  then show ?thesis unfolding aton_single by (simp del: of_nat_add of_nat_mult)
qed

end
