(* ===== verification/HttpClient.thy ===== *)
theory HttpClient
  imports Ip4Addr
begin

text \<open>
  The HTTP client, \<open>src/src/http_client.c\<close>: a state machine driven by the callbacks of lwIP. The
  calls it makes into lwIP are recorded in order, and what they return is chosen by the
  environment, one answer per position of the record. \<open>None\<close> is an access outside an object or
  waiting forever for the UART.
\<close>

section \<open>State\<close>

definition ERR_OK :: int where "ERR_OK = 0"
definition ERR_INPROGRESS :: int where "ERR_INPROGRESS = - 5"

text \<open>For the registration of a callback the flag says whether it is set or cleared.\<close>

datatype call =
    Tcp_arg nat | Tcp_sent nat | Tcp_recv nat bool | Tcp_err nat bool | Tcp_poll nat | Tcp_close nat
  | Tcp_new "nat option" | Tcp_connect nat u32 nat int | Tcp_write nat bytes int | Tcp_output nat
  | Tcp_recved nat nat | Pbuf_free "bytes list" | Dns_gethostbyname bytes int u32

record http =
  http_pcb :: "nat option"
  http_busy :: bool
  request_buf :: bytes
  ntoa_str :: bytes
  calls :: "call list"
  ans_err :: "nat \<Rightarrow> int"
  ans_pcb :: "nat \<Rightarrow> nat option"
  ans_ip :: "nat \<Rightarrow> u32"

definition call :: "call \<Rightarrow> http \<Rightarrow> http" where
  "call c h = h\<lparr>calls := calls h @ [c]\<rparr>"

definition next_err :: "http \<Rightarrow> int" where
  "next_err h = ans_err h (length (calls h))"

section \<open>Operations\<close>

definition http_close_conn :: "nat \<Rightarrow> http \<Rightarrow> uart \<Rightarrow> (http \<times> uart) option" where
  "http_close_conn tpcb h u = do {
     let h = call (Tcp_close tpcb) (call (Tcp_poll tpcb) (call (Tcp_err tpcb False) (call (Tcp_recv tpcb False)
       (call (Tcp_sent tpcb) (call (Tcp_arg tpcb) h)))));
     let h = h\<lparr>http_pcb := None, http_busy := False\<rparr>;
     u \<leftarrow> uart_println (lit (CHR 0x0A # ''[HTTP] Connection closed.'')) u;
     Some (h, u)
   }"

fun put_data :: "bytes \<Rightarrow> uart \<Rightarrow> uart option" where
  "put_data [] u = Some u"
| "put_data (c # data) u = uart_putc c u \<bind> put_data data"

fun put_chain :: "bytes list \<Rightarrow> uart \<Rightarrow> uart option" where
  "put_chain [] u = Some u"
| "put_chain (payload # q) u = put_data payload u \<bind> put_chain q"

definition http_recv_cb :: "nat \<Rightarrow> bytes list option \<Rightarrow> int \<Rightarrow> http \<Rightarrow> uart \<Rightarrow> (int \<times> http \<times> uart) option" where
  "http_recv_cb tpcb p err h u =
     (case p of
        None \<Rightarrow> map_option (\<lambda>(h, u). (ERR_OK, h, u)) (http_close_conn tpcb h u)
      | Some q \<Rightarrow>
          if err \<noteq> ERR_OK then Some (err, call (Pbuf_free q) h, u)
          else do {
            u \<leftarrow> put_chain q u;
            Some (ERR_OK, call (Pbuf_free q) (call (Tcp_recved tpcb (length (concat q))) h), u)
          })"

definition http_err_cb :: "int \<Rightarrow> http \<Rightarrow> uart \<Rightarrow> (http \<times> uart) option" where
  "http_err_cb err h u = do {
     u \<leftarrow> uart_print (lit (CHR 0x0A # ''[HTTP] Error: '')) u;
     u \<leftarrow> uart_print_int err u;
     u \<leftarrow> uart_println (lit '''') u;
     Some (h\<lparr>http_pcb := None, http_busy := False\<rparr>, u)
   }"

definition http_connected_cb :: "nat \<Rightarrow> int \<Rightarrow> http \<Rightarrow> uart \<Rightarrow> (int \<times> http \<times> uart) option" where
  "http_connected_cb tpcb err h u =
     (if err \<noteq> ERR_OK then do {
        u \<leftarrow> uart_println (lit (CHR 0x0A # ''[HTTP] Connection failed.'')) u;
        (h, u) \<leftarrow> http_close_conn tpcb h u;
        Some (err, h, u)
      } else do {
        u \<leftarrow> uart_println (lit ''[HTTP] Connected. Sending request...'') u;
        let h = call (Tcp_err tpcb True) (call (Tcp_recv tpcb True) h);
        n \<leftarrow> strlen (request_buf h);
        let write_err = next_err h;
        let h = call (Tcp_write tpcb (take n (request_buf h)) write_err) h;
        if write_err = ERR_OK then Some (ERR_OK, call (Tcp_output tpcb) h, u)
        else do {
          u \<leftarrow> uart_println (lit ''[HTTP] Failed to write request.'') u;
          (h, u) \<leftarrow> http_close_conn tpcb h u;
          Some (ERR_OK, h, u)
        }
      })"

definition http_dns_cb :: "u32 option \<Rightarrow> http \<Rightarrow> uart \<Rightarrow> (http \<times> uart) option" where
  "http_dns_cb ipaddr h u =
     (case ipaddr of
        None \<Rightarrow> do {
          u \<leftarrow> uart_println (lit ''[HTTP] DNS resolution failed.'') u;
          Some (h\<lparr>http_busy := False\<rparr>, u)
        }
      | Some ip \<Rightarrow> do {
          u \<leftarrow> uart_print (lit ''[HTTP] Resolved IP: '') u;
          (str, ok) \<leftarrow> ip4addr_ntoa ip (ntoa_str h);
          let h = h\<lparr>ntoa_str := str\<rparr>;
          u \<leftarrow> (if ok then uart_println str u else None);
          let r = ans_pcb h (length (calls h));
          let h = (call (Tcp_new r) h)\<lparr>http_pcb := r\<rparr>;
          case r of
            None \<Rightarrow> do {
              u \<leftarrow> uart_println (lit ''[HTTP] Failed to create TCP PCB.'') u;
              Some (h\<lparr>http_busy := False\<rparr>, u)
            }
          | Some pcb \<Rightarrow> do {
              let h = call (Tcp_err pcb True) (call (Tcp_arg pcb) h);
              u \<leftarrow> uart_println (lit ''[HTTP] Connecting to server...'') u;
              let err = next_err h;
              let h = call (Tcp_connect pcb ip 80 err) h;
              if err \<noteq> ERR_OK then do {
                u \<leftarrow> uart_println (lit ''[HTTP] tcp_connect error.'') u;
                http_close_conn pcb h u
              } else Some (h, u)
            }
        })"

text \<open>\<open>strcpy(request_buf + strlen(request_buf), s)\<close>\<close>

definition append_request :: "bytes \<Rightarrow> bytes \<Rightarrow> bytes option" where
  "append_request s buf = do {
     n \<leftarrow> strlen buf;
     r \<leftarrow> strcpy (drop n buf) s;
     Some (take n buf @ r)
   }"

definition CRLF :: string where
  "CRLF = [CHR 0x0D, CHR 0x0A]"

definition hdr_host :: string where
  "hdr_host = '' HTTP/1.1'' @ CRLF @ ''Host: ''"

definition hdr_end :: string where
  "hdr_end = CRLF @ ''Connection: close'' @ CRLF @ CRLF"

definition build_request :: "bytes \<Rightarrow> bytes \<Rightarrow> bytes \<Rightarrow> bytes option" where
  "build_request hostname path buf = do {
     buf \<leftarrow> strcpy buf (lit ''GET '');
     buf \<leftarrow> append_request path buf;
     buf \<leftarrow> append_request (lit hdr_host) buf;
     buf \<leftarrow> append_request hostname buf;
     append_request (lit hdr_end) buf
   }"

definition http_get :: "bytes \<Rightarrow> bytes \<Rightarrow> http \<Rightarrow> uart \<Rightarrow> (http \<times> uart) option" where
  "http_get hostname path h u =
     (if http_busy h then do {
        u \<leftarrow> uart_println (lit ''[HTTP] Client is already busy.'') u;
        Some (h, u)
      } else do {
        let h = h\<lparr>http_busy := True\<rparr>;
        buf \<leftarrow> build_request hostname path (request_buf h);
        let h = h\<lparr>request_buf := buf\<rparr>;
        u \<leftarrow> uart_print (lit ''[HTTP] Resolving '') u;
        u \<leftarrow> uart_println hostname u;
        let err = next_err h;
        let server_ip = ans_ip h (length (calls h));
        let h = call (Dns_gethostbyname (cstr hostname) err server_ip) h;
        if err = ERR_OK then http_dns_cb (Some server_ip) h u
        else if err = ERR_INPROGRESS then Some (h, u)
        else do {
          u \<leftarrow> uart_println (lit ''[HTTP] DNS error.'') u;
          Some (h\<lparr>http_busy := False\<rparr>, u)
        }
      })"



section \<open>Printing\<close>

text \<open>On a live console every printing step returns; \<open>pr\<close> is the console after it.\<close>

definition pr :: "(uart \<Rightarrow> uart option) \<Rightarrow> uart \<Rightarrow> uart" where
  "pr f u = the (f u)"

lemma emits_pr: "tty.emits f bs \<Longrightarrow> live u \<Longrightarrow> f u = Some (pr f u) \<and> live (pr f u) \<and> sent (pr f u) = sent u @ bs"
  by (auto simp: pr_def elim!: tty.emitsE)

lemma print_pr [simp]:
  assumes "terminated s" "live u"
  shows "uart_print s u = Some (pr (uart_print s) u)" "live (pr (uart_print s) u)"
    "uart_println s u = Some (pr (uart_println s) u)" "live (pr (uart_println s) u)"
  using emits_pr[OF uart_print_eq] emits_pr[OF uart_println_emits] assms by auto

lemma emits_print_int: "n < 2 ^ 31 \<Longrightarrow> \<exists>bs. tty.emits (uart_print_int n) bs"
proof (cases "0 \<le> n")
  case False
  then have "tty.emits (uart_print_int n) []" by (simp add: tty.emits_def uart_print_int_negative)
  then show ?thesis by blast
qed (use uart_print_int_emits in blast)

lemma print_int_pr [simp]:
  assumes "n < 2 ^ 31" "live u"
  shows "uart_print_int n u = Some (pr (uart_print_int n) u)" "live (pr (uart_print_int n) u)"
  using emits_print_int[OF assms(1)] emits_pr assms(2) by blast+

lemma put_data_emits: "tty.emits (put_data data) data"
proof (induction data)
  case Nil
  then show ?case using tty.emits_skip by (simp add: tty.emits_def)
next
  case (Cons c data)
  then show ?case using tty.emits_seq[OF tty.emits_putc Cons.IH, of c] by (simp add: tty.emits_def)
qed

lemma put_chain_emits: "tty.emits (put_chain q) (concat q)"
proof (induction q)
  case Nil
  then show ?case using tty.emits_skip by (simp add: tty.emits_def)
next
  case (Cons p q)
  then show ?case using tty.emits_seq[OF put_data_emits Cons.IH, of p] by (simp add: tty.emits_def)
qed

lemma put_chain_pr [simp]:
  assumes "live u"
  shows "put_chain q u = Some (pr (put_chain q) u)" "live (pr (put_chain q) u)"
  using emits_pr[OF put_chain_emits assms] by auto

section \<open>The request\<close>

lemma append_request_fits:
  assumes "terminated buf" "terminated s" "length (cstr buf) + length (cstr s) < length buf"
  shows "\<exists>buf'. append_request s buf = Some buf' \<and> length buf' = length buf \<and> terminated buf' \<and>
    cstr buf' = cstr buf @ cstr s"
proof -
  let ?n = "length (cstr buf)"
  have take: "take ?n buf = cstr buf" unfolding cstr_def by (rule takeWhile_eq_take[symmetric])
  have "strcpy (drop ?n buf) s = Some (cstr s @ 0 # drop (Suc (length (cstr s))) (drop ?n buf))"
    using assms by (intro strcpy_eq) auto
  then have "append_request s buf = Some ((cstr buf @ cstr s) @ 0 # drop (Suc (length (cstr s))) (drop ?n buf))"
    using assms(1) take by (simp add: append_request_def strlen_eq)
  moreover have "cstr ((cstr buf @ cstr s) @ 0 # xs) = cstr buf @ cstr s" for xs
    by (rule cstr_append_zero) simp
  moreover have "length ((cstr buf @ cstr s) @ 0 # drop (Suc (length (cstr s))) (drop ?n buf)) = length buf"
    using assms(3) by simp
  ultimately show ?thesis by (intro exI conjI) (assumption | rule terminated_append_zero)+
qed

lemma append_request_full:
  assumes "terminated buf" "terminated s" "length buf \<le> length (cstr buf) + length (cstr s)"
  shows "append_request s buf = None"
  using assms strcpy_overflow[of s "drop (length (cstr buf)) buf"] by (simp add: append_request_def strlen_eq)

lemma append_request_cases:
  assumes "terminated buf" "terminated s"
  obtains buf' where "append_request s buf = Some buf'" "length buf' = length buf" "terminated buf'"
      "cstr buf' = cstr buf @ cstr s" "length (cstr buf) + length (cstr s) < length buf"
    | "append_request s buf = None" "length buf \<le> length (cstr buf) + length (cstr s)"
  using append_request_fits[OF assms] append_request_full[OF assms] by (meson not_le)

definition request :: "bytes \<Rightarrow> bytes \<Rightarrow> bytes" where
  "request hostname path =
     ascii ''GET '' @ path @ ascii hdr_host @ hostname @
     ascii hdr_end"

lemma request_lits [simp]:
  "cstr (lit ''GET '') = ascii ''GET ''" "cstr (lit hdr_host) = ascii hdr_host" "cstr (lit hdr_end) = ascii hdr_end"
  by (rule cstr_lit, simp add: ascii_def CRLF_def hdr_host_def hdr_end_def)+

lemma length_hdr [simp]: "length hdr_host = 17" "length hdr_end = 23"
  by (simp_all add: CRLF_def hdr_host_def hdr_end_def)

lemma length_request: "length (request hostname path) = 44 + length path + length hostname"
  by (simp add: request_def)


lemma build_request_cases:
  assumes "length buf = 256" "terminated hostname" "terminated path"
  shows "if length (cstr path) + length (cstr hostname) \<le> 211
    then \<exists>buf'. build_request hostname path buf = Some buf' \<and> length buf' = 256 \<and> terminated buf' \<and>
      cstr buf' = request (cstr hostname) (cstr path)
    else build_request hostname path buf = None"
proof -
  define b0 where "b0 = cstr (lit ''GET '') @ 0 # drop 5 buf"
  have s: "strcpy buf (lit ''GET '') = Some b0"
    using assms(1) strcpy_eq[of "lit ''GET ''" buf] by (simp add: b0_def request_lits numeral_nat)
  have b0: "length b0 = 256" "terminated b0" "cstr b0 = ascii ''GET ''"
    using assms(1) unfolding b0_def by (simp_all add: request_lits) (simp add: cstr_def ascii_def)
  show ?thesis
  proof (cases rule: append_request_cases[OF b0(2) assms(3)])
    case a: (1 b1)
    show ?thesis
    proof (cases rule: append_request_cases[OF a(3) terminated_lit[of hdr_host]])
      case b: (1 b2)
      show ?thesis
      proof (cases rule: append_request_cases[OF b(3) assms(2)])
        case c: (1 b3)
        show ?thesis
          by (cases rule: append_request_cases[OF c(3) terminated_lit[of hdr_end]])
            (use a b c b0 s in \<open>auto simp: build_request_def request_def\<close>)
      qed (use a b b0 s in \<open>auto simp: build_request_def\<close>)
    qed (use a b0 s in \<open>auto simp: build_request_def\<close>)
  qed (use b0 s in \<open>auto simp: build_request_def\<close>)
qed


section \<open>The connection\<close>

text \<open>
  What lwIP owes the client, from the calls the client made: the answer to a name query, the
  outcome of a connection attempt, or data, end and errors of an open connection; and the
  callbacks that are registered.
\<close>

datatype phase = Idle | Resolving | Created nat | Connecting nat | Open nat

record conn =
  ph :: phase
  recv_set :: bool
  err_set :: bool

fun observe :: "call \<Rightarrow> conn \<Rightarrow> conn" where
  "observe (Dns_gethostbyname _ e _) c = (if e = ERR_INPROGRESS then c\<lparr>ph := Resolving\<rparr> else c)"
| "observe (Tcp_new (Some p)) c = \<lparr>ph = Created p, recv_set = False, err_set = False\<rparr>"
| "observe (Tcp_connect p _ _ e) c = (if e = ERR_OK then c\<lparr>ph := Connecting p\<rparr> else c)"
| "observe (Tcp_close p) c = c\<lparr>ph := Idle\<rparr>"
| "observe (Tcp_recv p b) c = c\<lparr>recv_set := b\<rparr>"
| "observe (Tcp_err p b) c = c\<lparr>err_set := b\<rparr>"
| "observe _ c = c"

definition owed :: "http \<Rightarrow> http \<Rightarrow> conn \<Rightarrow> conn" where
  "owed h h' c = fold observe (drop (length (calls h)) (calls h')) c"

text \<open>
  The steps: a request of the shell, and each callback when lwIP owes it and it is registered.
  The callback for errors comes when lwIP has already freed the connection.
\<close>

inductive hstep :: "conn \<times> http \<times> uart \<Rightarrow> conn \<times> http \<times> uart \<Rightarrow> bool" where
  get: "http_get hostname path h u = Some (h', u') \<Longrightarrow> terminated hostname \<Longrightarrow> terminated path \<Longrightarrow>
    hstep (c, h, u) (owed h h' c, h', u')"
| dns: "ph c = Resolving \<Longrightarrow> http_dns_cb ip h u = Some (h', u') \<Longrightarrow>
    hstep (c, h, u) (owed h h' (c\<lparr>ph := Idle\<rparr>), h', u')"
| connected: "ph c = Connecting p \<Longrightarrow> http_connected_cb p e h u = Some (r, h', u') \<Longrightarrow>
    hstep (c, h, u) (owed h h' (c\<lparr>ph := Open p\<rparr>), h', u')"
| recv: "ph c = Open p \<Longrightarrow> recv_set c \<Longrightarrow> http_recv_cb p q e h u = Some (r, h', u') \<Longrightarrow>
    hstep (c, h, u) (owed h h' c, h', u')"
| err: "ph c = Connecting p \<or> ph c = Open p \<Longrightarrow> err_set c \<Longrightarrow> e < 128 \<Longrightarrow> http_err_cb e h u = Some (h', u') \<Longrightarrow>
    hstep (c, h, u) (owed h h' (c\<lparr>ph := Idle\<rparr>), h', u')"

inductive_cases hstepE: "hstep (c, h, u) s'"

fun pcb_of :: "phase \<Rightarrow> nat option" where
  "pcb_of (Connecting p) = Some p"
| "pcb_of (Open p) = Some p"
| "pcb_of _ = None"

fun hinv :: "conn \<times> http \<times> uart \<Rightarrow> bool" where
  "hinv (c, h, u) \<longleftrightarrow>
     (http_busy h \<longleftrightarrow> ph c \<noteq> Idle) \<and> http_pcb h = pcb_of (ph c) \<and> (\<forall>p. ph c \<noteq> Created p) \<and>
     (\<forall>p. ph c = Connecting p \<longrightarrow> err_set c) \<and> (\<forall>p. ph c = Open p \<longrightarrow> err_set c \<and> recv_set c) \<and>
     length (request_buf h) = 256 \<and> terminated (request_buf h) \<and> length (ntoa_str h) = 16 \<and> live u"

lemma call_sel [simp]:
  "http_pcb (call c h) = http_pcb h" "http_busy (call c h) = http_busy h" "request_buf (call c h) = request_buf h"
  "ntoa_str (call c h) = ntoa_str h" "calls (call c h) = calls h @ [c]"
  by (simp_all add: call_def)

lemma ntoa_ok:
  assumes "length str = 16"
  shows "\<exists>str'. ip4addr_ntoa ip str = Some (str', True) \<and> terminated str' \<and> length str' = 16"
proof -
  have len: "length (dotted ip) < 16"
    using length_decimal_u8[of "byte_at 0 ip"] length_decimal_u8[of "byte_at 1 ip"] length_decimal_u8[of "byte_at 2 ip"]
      length_decimal_u8[of "byte_at 3 ip"] by (simp add: dotted_def)
  with ntoa_r_fits[OF len, of str] assms show ?thesis
    by (auto simp: ip4addr_ntoa_def IP4ADDR_STRLEN_MAX_def)
qed

lemma close_ok:
  assumes "live u"
  shows "\<exists>h' u'. http_close_conn p h u = Some (h', u') \<and> live u' \<and> http_pcb h' = None \<and> \<not> http_busy h' \<and>
    request_buf h' = request_buf h \<and> ntoa_str h' = ntoa_str h \<and>
    calls h' = calls h @ [Tcp_arg p, Tcp_sent p, Tcp_recv p False, Tcp_err p False, Tcp_poll p, Tcp_close p]"
  using assms by (simp add: http_close_conn_def Let_def)



lemma dns_ok:
  assumes "live u" "length (ntoa_str h) = 16" "http_busy h" "http_pcb h = None" "ph c = Idle"
    "length (request_buf h) = 256" "terminated (request_buf h)"
  shows "\<exists>h' u' ys. http_dns_cb ip h u = Some (h', u') \<and> calls h' = calls h @ ys \<and> hinv (fold observe ys c, h', u') \<and>
    request_buf h' = request_buf h"
proof (cases ip)
  case None
  then show ?thesis using assms
    by (intro exI[of _ "h\<lparr>http_busy := False\<rparr>"] exI[of _ "pr (uart_println (lit ''[HTTP] DNS resolution failed.'')) u"]
        exI[of _ "[]"]) (simp add: http_dns_cb_def)
next
  case (Some a)
  obtain str where str: "ip4addr_ntoa a (ntoa_str h) = Some (str, True)" "terminated str" "length str = 16"
    using ntoa_ok[OF assms(2)] by blast
  show ?thesis
  proof (cases "ans_pcb h (length (calls h))")
    case None
    let ?u = "pr (uart_println (lit ''[HTTP] Failed to create TCP PCB.'')) (pr (uart_println str)
      (pr (uart_print (lit ''[HTTP] Resolved IP: '')) u))"
    from None show ?thesis using assms Some str
      by (intro exI[of _ "(call (Tcp_new None) (h\<lparr>ntoa_str := str\<rparr>))\<lparr>http_pcb := None, http_busy := False\<rparr>"]
          exI[of _ ?u] exI[of _ "[Tcp_new None]"]) (simp add: http_dns_cb_def Let_def)
  next
    case pcb: (Some pcb)
    define h1 where "h1 = call (Tcp_err pcb True) (call (Tcp_arg pcb)
      ((call (Tcp_new (Some pcb)) (h\<lparr>ntoa_str := str\<rparr>))\<lparr>http_pcb := Some pcb\<rparr>))"
    define h2 where "h2 = call (Tcp_connect pcb a 80 (next_err h1)) h1"
    have h2: "calls h2 = calls h @ [Tcp_new (Some pcb), Tcp_arg pcb, Tcp_err pcb True, Tcp_connect pcb a 80 (next_err h1)]"
      "request_buf h2 = request_buf h" "ntoa_str h2 = str" "http_pcb h2 = Some pcb" "http_busy h2"
      using assms by (simp_all add: h2_def h1_def)
    let ?u = "pr (uart_println (lit ''[HTTP] Connecting to server...'')) (pr (uart_println str)
      (pr (uart_print (lit ''[HTTP] Resolved IP: '')) u))"
    show ?thesis
    proof (cases "next_err h1 = ERR_OK")
      case True
      then have "http_dns_cb ip h u = Some (h2, ?u)"
        using assms Some str pcb by (simp add: http_dns_cb_def Let_def h1_def[symmetric] h2_def)
      then show ?thesis using h2 True assms str
        by (intro exI[of _ h2] exI[of _ ?u] exI[of _ "drop (length (calls h)) (calls h2)"]) simp
    next
      case False
      let ?v = "pr (uart_println (lit ''[HTTP] tcp_connect error.'')) ?u"
      have v: "live ?v" using assms(1) str(2) by simp
      have run: "http_dns_cb ip h u = http_close_conn pcb h2 ?v"
        using assms(1) Some str pcb False by (simp add: http_dns_cb_def Let_def h1_def[symmetric] h2_def)
      obtain h3 u3 where h3: "http_close_conn pcb h2 ?v = Some (h3, u3)" "live u3"
          "http_pcb h3 = None" "\<not> http_busy h3" "request_buf h3 = request_buf h2" "ntoa_str h3 = ntoa_str h2"
          "calls h3 = calls h2 @ [Tcp_arg pcb, Tcp_sent pcb, Tcp_recv pcb False, Tcp_err pcb False, Tcp_poll pcb, Tcp_close pcb]"
        using close_ok[OF v, of pcb h2] by blast
      define ys where "ys = drop (length (calls h)) (calls h3)"
      have "calls h3 = calls h @ ys" "ph (fold observe ys c) = Idle" using h3(7) h2(1) False by (simp_all add: ys_def)
      then show ?thesis using run h3 h2(2,3) assms(6,7) str(3) by auto
    qed
  qed
qed





lemma get_ok:
  assumes inv: "hinv (c, h, u)" and t: "terminated hostname" "terminated path" and idle: "\<not> http_busy h"
    and fits: "length (cstr path) + length (cstr hostname) \<le> 211"
  shows "\<exists>h' u' err ip rest. http_get hostname path h u = Some (h', u') \<and> hinv (owed h h' c, h', u') \<and>
    cstr (request_buf h') = request (cstr hostname) (cstr path) \<and>
    calls h' = calls h @ Dns_gethostbyname (cstr hostname) err ip # rest"
proof -
  have i: "live u" "length (request_buf h) = 256" "length (ntoa_str h) = 16" "ph c = Idle" "http_pcb h = None"
    using inv idle by auto
  obtain buf where buf: "build_request hostname path (request_buf h) = Some buf" "length buf = 256" "terminated buf"
      "cstr buf = request (cstr hostname) (cstr path)"
    using build_request_cases[OF i(2) t] fits by auto
  let ?e = "ans_err h (length (calls h))" and ?ip = "ans_ip h (length (calls h))"
  define h1 where "h1 = call (Dns_gethostbyname (cstr hostname) ?e ?ip) (h\<lparr>http_busy := True, request_buf := buf\<rparr>)"
  let ?v = "pr (uart_println hostname) (pr (uart_print (lit ''[HTTP] Resolving '')) u)"
  have h1: "calls h1 = calls h @ [Dns_gethostbyname (cstr hostname) ?e ?ip]" "request_buf h1 = buf" "http_busy h1"
      "http_pcb h1 = None" "length (ntoa_str h1) = 16" using i by (simp_all add: h1_def)
  have run: "http_get hostname path h u = (if ?e = ERR_OK then http_dns_cb (Some ?ip) h1 ?v
      else if ?e = ERR_INPROGRESS then Some (h1, ?v)
      else Some (h1\<lparr>http_busy := False\<rparr>, pr (uart_println (lit ''[HTTP] DNS error.'')) ?v))"
    using idle i(1) t buf(1) by (simp add: http_get_def Let_def next_err_def h1_def)
  show ?thesis
  proof (cases "?e = ERR_OK")
    case True
    have v: "live ?v" "length (request_buf h1) = 256" "terminated (request_buf h1)" using i(1) t h1(2) buf by simp_all
    then obtain h2 u2 ys where "http_dns_cb (Some ?ip) h1 ?v = Some (h2, u2)" "calls h2 = calls h1 @ ys"
        "hinv (fold observe ys c, h2, u2)" "request_buf h2 = request_buf h1"
      using dns_ok[OF v(1) h1(5,3,4) i(4) v(2,3), of "Some ?ip"] by blast
    then show ?thesis using run True h1 buf by (auto simp: owed_def ERR_OK_def ERR_INPROGRESS_def)
  next
    case False
    then show ?thesis using run h1 buf i t by (auto simp: owed_def)
  qed
qed


section \<open>Properties\<close>

definition fresh_http :: "http \<Rightarrow> bool" where
  "fresh_http h \<longleftrightarrow> http_pcb h = None \<and> \<not> http_busy h \<and> length (request_buf h) = 256 \<and> terminated (request_buf h) \<and>
     length (ntoa_str h) = 16"

definition no_conn :: conn where
  "no_conn = \<lparr>ph = Idle, recv_set = False, err_set = False\<rparr>"




text \<open>The witnesses run on a client whose first answers are a query in progress and a connection.\<close>

definition sample_http :: http where
  "sample_http = \<lparr>http_pcb = None, http_busy = False, request_buf = replicate 256 0, ntoa_str = replicate 16 0,
     calls = [], ans_err = (\<lambda>n. if n = 0 then ERR_INPROGRESS else ERR_OK), ans_pcb = (\<lambda>_. Some 7), ans_ip = (\<lambda>_. 0)\<rparr>"

lemma terminated_replicate [simp]: "0 < n \<Longrightarrow> terminated (replicate n 0)"
  by (cases n) simp_all

lemma sample_fresh: "fresh_http sample_http"
  by (simp add: sample_http_def fresh_http_def)



text \<open>
  C40: The request fits or the buffer overflows, and nothing in between. An idle client that is
  asked for a path and a host name of together at most 211 characters returns, has asked for the
  address of exactly that host, and holds in \<open>request_buf\<close> the bytes of a GET request for the
  path with the \<open>Host\<close> and \<open>Connection\<close> headers; one character more and \<open>strcpy\<close> writes past the
  256 bytes.
\<close>

theorem http_get_request:
  assumes "live u" "fresh_http h" and "terminated hostname" "terminated path"
  shows "if length (cstr path) + length (cstr hostname) \<le> 211
    then \<exists>h' u' err ip rest. http_get hostname path h u = Some (h', u') \<and>
      cstr (request_buf h') = request (cstr hostname) (cstr path) \<and> length (request_buf h') = 256 \<and>
      calls h' = calls h @ Dns_gethostbyname (cstr hostname) err ip # rest
    else http_get hostname path h u = None"
proof -
  have inv: "hinv (no_conn, h, u)" "\<not> http_busy h" "length (request_buf h) = 256"
    using assms(1,2) by (simp_all add: no_conn_def fresh_http_def)
  show ?thesis
  proof (cases "length (cstr path) + length (cstr hostname) \<le> 211")
    case True
    then show ?thesis using get_ok[OF inv(1) assms(3,4) inv(2)] by fastforce
  next
    case False
    then show ?thesis using build_request_cases[OF inv(3) assms(3,4)] inv(2) by (simp add: http_get_def)
  qed
qed

theorem http_get_request_witness:
  "(\<exists>h' u'. http_get (lit ''example.com'') (lit ''/'') sample_http idle_uart = Some (h', u') \<and>
      cstr (request_buf h') = request (ascii ''example.com'') (ascii ''/'')) \<and>
   http_get (replicate 211 97 @ [0]) (lit ''/'') sample_http idle_uart = None"
proof -
  have c: "cstr (lit ''example.com'') = ascii ''example.com''" "cstr (lit ''/'') = ascii ''/''"
    by (rule cstr_lit, simp add: ascii_def)+
  have d: "cstr (replicate 211 97 @ [0]) = replicate 211 97" by (rule cstr_append_zero) simp
  have "\<exists>h' u'. http_get (lit ''example.com'') (lit ''/'') sample_http idle_uart = Some (h', u') \<and>
      cstr (request_buf h') = request (ascii ''example.com'') (ascii ''/'')"
    using http_get_request[OF live_idle_uart sample_fresh terminated_lit terminated_lit, of "''/''" "''example.com''"]
    unfolding c by auto
  moreover have "http_get (replicate 211 97 @ [0]) (lit ''/'') sample_http idle_uart = None"
    using http_get_request[OF live_idle_uart sample_fresh terminated_append_zero terminated_lit, of "''/''" "replicate 211 97" "[]"]
    unfolding c d by simp
  ultimately show ?thesis by blast
qed

end
