(* ===== verification/Mmio.thy ===== *)
theory Mmio
  imports Uart
begin

text \<open>
  Memory-mapped registers, the macro \<open>REG\<close> of \<open>src/src/eth.c\<close>, and the interrupt mask
  of the processor. Every access through a \<open>volatile\<close> pointer is visible: the value of the
  register at address \<open>a\<close> at its \<open>n\<close>-th read is \<open>rd a n\<close>, chosen by the device, and
  the writes are kept in order in \<open>wr\<close>.
\<close>

record mmio =
  rd :: "u32 \<Rightarrow> nat \<Rightarrow> u32"
  rdn :: "u32 \<Rightarrow> nat"
  wr :: "(u32 \<times> u32) list"

definition reg_read :: "u32 \<Rightarrow> mmio \<Rightarrow> u32 \<times> mmio" where
  "reg_read a d = (rd d a (rdn d a), d\<lparr>rdn := (rdn d)(a := Suc (rdn d a))\<rparr>)"

definition reg_write :: "u32 \<Rightarrow> u32 \<Rightarrow> mmio \<Rightarrow> mmio" where
  "reg_write a v d = d\<lparr>wr := wr d @ [(a, v)]\<rparr>"

lemma reg_write_simps [simp]:
  "wr (reg_write a v d) = wr d @ [(a, v)]" "rd (reg_write a v d) = rd d" "rdn (reg_write a v d) = rdn d"
  by (simp_all add: reg_write_def)

text \<open>\<open>REG(a) &= v\<close> and \<open>REG(a) |= v\<close>: a read and a write.\<close>

definition reg_and :: "u32 \<Rightarrow> u32 \<Rightarrow> mmio \<Rightarrow> mmio" where
  "reg_and a v d = (case reg_read a d of (x, d) \<Rightarrow> reg_write a (x AND v) d)"

definition reg_or :: "u32 \<Rightarrow> u32 \<Rightarrow> mmio \<Rightarrow> mmio" where
  "reg_or a v d = (case reg_read a d of (x, d) \<Rightarrow> reg_write a (x OR v) d)"

section \<open>The interrupt mask\<close>

text \<open>
  \<open>cpsie i\<close> clears \<open>PRIMASK\<close>, \<open>cpsid i\<close> sets it; \<open>sys_arch_protect\<close> and
  \<open>sys_arch_unprotect\<close> of \<open>src/src/lwip_port.c\<close> save and restore it.
\<close>

record cpu =
  primask :: u32

definition interrupts_enable :: "cpu \<Rightarrow> cpu" where
  "interrupts_enable c = c\<lparr>primask := 0\<rparr>"

definition interrupts_disable :: "cpu \<Rightarrow> cpu" where
  "interrupts_disable c = c\<lparr>primask := 1\<rparr>"

definition sys_arch_protect :: "cpu \<Rightarrow> u32 \<times> cpu" where
  "sys_arch_protect c = (let pval = primask c in (pval, interrupts_disable c))"

definition sys_arch_unprotect :: "u32 \<Rightarrow> cpu \<Rightarrow> cpu" where
  "sys_arch_unprotect pval c = c\<lparr>primask := pval\<rparr>"

text \<open>
  A critical section around \<open>body\<close>: protect, run, unprotect. Sections nest because the
  mask is saved, not counted.
\<close>

definition critical :: "(cpu \<Rightarrow> cpu) \<Rightarrow> cpu \<Rightarrow> cpu" where
  "critical body c =
     (case sys_arch_protect c of (pval, c) \<Rightarrow> sys_arch_unprotect pval (body c))"

lemma critical_primask [simp]: "primask (critical body c) = primask c"
  by (simp add: critical_def sys_arch_protect_def sys_arch_unprotect_def interrupts_disable_def Let_def)

end
