(* ===== verification/EthDrv.thy ===== *)
theory EthDrv
  imports Mmio
begin

text \<open>
  The Ethernet driver, \<open>src/src/eth.c\<close> and \<open>src/include/eth.h\<close>, and the interrupt
  handlers of \<open>src/src/interrupt.c\<close>.
\<close>

definition ETH_MACRIS :: u32 where "ETH_MACRIS = 0x40048000"
definition ETH_MACIM :: u32 where "ETH_MACIM = 0x40048004"
definition ETH_MACIACK :: u32 where "ETH_MACIACK = 0x40048008"
definition ETH_MACRCTL :: u32 where "ETH_MACRCTL = 0x4004800C"
definition ETH_MACTCTL :: u32 where "ETH_MACTCTL = 0x40048010"
definition ETH_MACDATA :: u32 where "ETH_MACDATA = 0x40048014"
definition ETH_MACIA0 :: u32 where "ETH_MACIA0 = 0x40048018"
definition ETH_MACIA1 :: u32 where "ETH_MACIA1 = 0x4004801C"
definition ETH_MACNPV :: u32 where "ETH_MACNPV = 0x40048020"
definition ETH_MACTR :: u32 where "ETH_MACTR = 0x40048038"

definition MAC_RCTL_RSTFIFO :: u32 where "MAC_RCTL_RSTFIFO = 0x10"
definition MAC_RCTL_RXEN :: u32 where "MAC_RCTL_RXEN = 0x01"
definition MAC_TCTL_PADEN :: u32 where "MAC_TCTL_PADEN = 0x04"
definition MAC_TCTL_CRC :: u32 where "MAC_TCTL_CRC = 0x02"
definition MAC_TCTL_TXEN :: u32 where "MAC_TCTL_TXEN = 0x01"
definition MAC_INT_TXEMP :: u32 where "MAC_INT_TXEMP = 0x40"
definition MAC_INT_RX :: u32 where "MAC_INT_RX = 0x01"

lemmas eth_regs = ETH_MACRIS_def ETH_MACIM_def ETH_MACIACK_def ETH_MACRCTL_def ETH_MACTCTL_def
  ETH_MACDATA_def ETH_MACIA0_def ETH_MACIA1_def ETH_MACNPV_def ETH_MACTR_def

lemmas eth_bits = MAC_RCTL_RSTFIFO_def MAC_RCTL_RXEN_def MAC_TCTL_PADEN_def MAC_TCTL_CRC_def
  MAC_TCTL_TXEN_def MAC_INT_TXEMP_def MAC_INT_RX_def

section \<open>Initialisation\<close>

definition eth_init :: "bytes \<Rightarrow> mmio \<Rightarrow> uart \<Rightarrow> (mmio \<times> uart) option" where
  "eth_init mac d u = do {
     u \<leftarrow> uart_println (lit ''[ETH] Initializing Ethernet Controller...'') u;
     let d = reg_write ETH_MACIM 0 d;
     let d = reg_write ETH_MACRCTL 0 d;
     let d = reg_write ETH_MACTCTL 0 d;
     m0 \<leftarrow> aget mac 0;
     m1 \<leftarrow> aget mac 1;
     m2 \<leftarrow> aget mac 2;
     m3 \<leftarrow> aget mac 3;
     let d = reg_write ETH_MACIA0 (ucast m0 OR push_bit 8 (ucast m1) OR push_bit 16 (ucast m2) OR
                push_bit 24 (ucast m3)) d;
     m4 \<leftarrow> aget mac 4;
     m5 \<leftarrow> aget mac 5;
     let d = reg_write ETH_MACIA1 (ucast m4 OR push_bit 8 (ucast m5)) d;
     let d = reg_write ETH_MACRCTL (MAC_RCTL_RXEN OR MAC_RCTL_RSTFIFO) d;
     let d = reg_write ETH_MACTCTL (MAC_TCTL_TXEN OR MAC_TCTL_PADEN OR MAC_TCTL_CRC) d;
     let d = reg_write ETH_MACIM MAC_INT_RX d;
     u \<leftarrow> uart_println (lit ''[ETH] Ethernet Initialized.'') u;
     Some (d, u)
   }"

section \<open>Sending\<close>

text \<open>
  The loop \<open>for (uint32_t i = 0; i < len; i += 4)\<close>, from \<open>i\<close>. The additions on \<open>i\<close> are
  those of 32-bit words.
\<close>

partial_function (option) send_loop :: "bytes \<Rightarrow> u32 \<Rightarrow> u32 \<Rightarrow> mmio \<Rightarrow> mmio option" where
  "send_loop p len i d =
     (if i < len then do {
        b0 \<leftarrow> aget p (unat i);
        let w = (ucast b0 :: u32);
        w \<leftarrow> (if i + 1 < len then map_option (\<lambda>b. w OR push_bit 8 (ucast b)) (aget p (unat (i + 1))) else Some w);
        w \<leftarrow> (if i + 2 < len then map_option (\<lambda>b. w OR push_bit 16 (ucast b)) (aget p (unat (i + 2))) else Some w);
        w \<leftarrow> (if i + 3 < len then map_option (\<lambda>b. w OR push_bit 24 (ucast b)) (aget p (unat (i + 3))) else Some w);
        send_loop p len (i + 4) (reg_write ETH_MACDATA w d)
      } else Some d)"

text \<open>\<open>for (volatile int i = 0; i < 1000; i++) if (...) break;\<close>, with the polls left.\<close>

fun tx_wait :: "nat \<Rightarrow> mmio \<Rightarrow> mmio" where
  "tx_wait 0 d = d"
| "tx_wait (Suc n) d =
     (case reg_read ETH_MACRIS d of (v, d) \<Rightarrow>
        if v AND MAC_INT_TXEMP \<noteq> 0 then d else tx_wait n d)"

definition eth_send :: "bytes \<Rightarrow> u32 \<Rightarrow> mmio \<Rightarrow> mmio option" where
  "eth_send data len d = do {
     let d = reg_write ETH_MACDATA ((len AND 0xFF) OR push_bit 8 (drop_bit 8 len AND 0xFF)) d;
     d \<leftarrow> send_loop data len 0 d;
     let d = reg_write ETH_MACTR 1 d;
     let d = tx_wait 1000 d;
     Some (reg_write ETH_MACIACK MAC_INT_TXEMP d)
   }"

section \<open>Receiving\<close>

text \<open>The inner loop \<open>for (int j = 0; j < 4; j++)\<close>, from \<open>j\<close>.\<close>

function store_word :: "nat \<Rightarrow> u32 \<Rightarrow> nat \<Rightarrow> nat \<Rightarrow> bytes \<Rightarrow> nat \<Rightarrow> (bytes \<times> nat) option" where
  "store_word j w bytes_to_read max_len p stored_len =
     (if j < 4 then
        (if stored_len < bytes_to_read + 2 \<and> stored_len < max_len then do {
           p \<leftarrow> aset p stored_len (ucast (drop_bit (j * 8) w AND 0xFF));
           store_word (Suc j) w bytes_to_read max_len p (Suc stored_len)
         } else store_word (Suc j) w bytes_to_read max_len p stored_len)
      else Some (p, stored_len))"
  by pat_completeness auto
termination
  by (relation "measure (\<lambda>(j, w, b, m, p, s). 4 - j)") auto

declare store_word.simps [simp del]

text \<open>The outer loop, with the number of words left.\<close>

fun recv_loop :: "nat \<Rightarrow> nat \<Rightarrow> nat \<Rightarrow> bytes \<Rightarrow> nat \<Rightarrow> mmio \<Rightarrow> (bytes \<times> nat \<times> mmio) option" where
  "recv_loop 0 bytes_to_read max_len p stored_len d = Some (p, stored_len, d)"
| "recv_loop (Suc n) bytes_to_read max_len p stored_len d =
     (case reg_read ETH_MACDATA d of (w, d) \<Rightarrow> do {
        (p, stored_len) \<leftarrow> store_word 0 w bytes_to_read max_len p stored_len;
        recv_loop n bytes_to_read max_len p stored_len d
      })"

definition eth_receive :: "bytes \<Rightarrow> nat \<Rightarrow> mmio \<Rightarrow> (nat \<times> bytes \<times> mmio) option" where
  "eth_receive buffer max_len d =
     (case reg_read ETH_MACNPV d of (npv, d) \<Rightarrow>
        if \<not> (npv AND 0xFF \<noteq> 0) then Some (0, buffer, d)
        else case reg_read ETH_MACDATA d of (len_word, d) \<Rightarrow>
          let len = len_word AND 0xFFFF in
          if len = 0 \<or> len > 1522 then
            let d = reg_and ETH_MACRCTL (NOT MAC_RCTL_RXEN) d;
                d = reg_or ETH_MACRCTL MAC_RCTL_RSTFIFO d;
                d = reg_or ETH_MACRCTL MAC_RCTL_RXEN d
            in Some (0, buffer, d)
          else do {
            (p, stored_len) \<leftarrow>
              (if max_len \<ge> 2 then do {
                 p \<leftarrow> aset buffer 0 (ucast (drop_bit 16 len_word AND 0xFF));
                 p \<leftarrow> aset p 1 (ucast (drop_bit 24 len_word AND 0xFF));
                 Some (p, 2)
               } else Some (buffer, 0));
            let bytes_to_read = (if len > 2 then unat len - 2 else 0);
            let words_to_read = (bytes_to_read + 3) div 4;
            (p, stored_len, d) \<leftarrow> recv_loop words_to_read bytes_to_read max_len p stored_len d;
            Some (stored_len, p, d)
          })"

section \<open>Interrupt handlers\<close>

definition ethernet_handler :: "bool \<Rightarrow> mmio \<Rightarrow> bool \<times> mmio" where
  "ethernet_handler eth_rx_flag d =
     (case reg_read ETH_MACRIS d of (status, d) \<Rightarrow>
        let eth_rx_flag = (if status AND MAC_INT_RX \<noteq> 0 then True else eth_rx_flag)
        in (eth_rx_flag, reg_write ETH_MACIACK status d))"

definition sys_inc_ticks :: "u32 \<Rightarrow> u32 \<Rightarrow> u32" where
  "sys_inc_ticks ms sys_ticks = sys_ticks + ms"

definition sys_now :: "u32 \<Rightarrow> u32" where
  "sys_now sys_ticks = sys_ticks"

definition systick_handler :: "u32 \<Rightarrow> u32" where
  "systick_handler sys_ticks = sys_inc_ticks 10 sys_ticks"

section \<open>Frames as words\<close>

text \<open>The reference packing: four bytes to a word, little-endian, the last word padded.\<close>

fun pack :: "bytes \<Rightarrow> u32 list" where
  "pack [] = []"
| "pack [a] = [le32 a 0 0 0]"
| "pack [a, b] = [le32 a b 0 0]"
| "pack [a, b, c] = [le32 a b c 0]"
| "pack (a # b # c # d # bs) = le32 a b c d # pack bs"

definition word_bytes :: "u32 \<Rightarrow> bytes" where
  "word_bytes w = [byte_at 0 w, byte_at 1 w, byte_at 2 w, byte_at 3 w]"

lemma length_word_bytes [simp]: "length (word_bytes w) = 4"
  by (simp add: word_bytes_def)

lemma word_bytes_le32 [simp]: "word_bytes (le32 a b c d) = [a, b, c, d]"
  by (simp add: word_bytes_def)

lemma pack_unpack: "take (length bs) (concat (map word_bytes (pack bs))) = bs"
  by (induction bs rule: pack.induct) simp_all

lemma unpack_pack: "concat (map word_bytes (pack bs)) = bs @ replicate (4 * length (pack bs) - length bs) 0"
  by (induction bs rule: pack.induct) (simp_all add: numeral_eq_Suc)

lemma length_pack: "length (pack bs) = (length bs + 3) div 4"
  by (induction bs rule: pack.induct) simp_all

lemma unat_add_of_nat: "unat i + k < 2 ^ 32 \<Longrightarrow> unat (i + of_nat k :: u32) = unat i + k"
  by (simp add: unat_word_ariths unsigned_of_nat take_bit_nat_eq_self)

definition nth0 :: "bytes \<Rightarrow> nat \<Rightarrow> u8" where
  "nth0 xs k = (if k < length xs then xs ! k else 0)"

lemma pack_step:
  "xs \<noteq> [] \<Longrightarrow> pack xs = le32 (nth0 xs 0) (nth0 xs 1) (nth0 xs 2) (nth0 xs 3) # pack (drop 4 xs)"
  by (cases xs rule: pack.cases) (simp_all add: nth0_def eval_nat_numeral)

text \<open>The word assembled by one iteration of the sending loop.\<close>

lemma send_word:
  assumes "i < len" "unat len \<le> length p" "unat len + 4 \<le> 2 ^ 32"
  defines "xs \<equiv> take (unat len - unat i) (drop (unat i) p)"
  shows "send_loop p len i d = send_loop p len (i + 4)
    (reg_write ETH_MACDATA (le32 (nth0 xs 0) (nth0 xs 1) (nth0 xs 2) (nth0 xs 3)) d)"
proof -
  have fit: "unat i + 4 < 2 ^ 32" and ilen: "unat i < unat len"
    using assms by (auto simp: word_less_nat_alt)
  have add: "unat (i + 1) = unat i + 1" "unat (i + 2) = unat i + 2" "unat (i + 3) = unat i + 3"
    using unat_add_of_nat[of i 1] unat_add_of_nat[of i 2] unat_add_of_nat[of i 3] fit by simp_all
  have z: "nth0 xs k = (if unat i + k < unat len then p ! (unat i + k) else 0)" for k
    using assms(2) by (auto simp: nth0_def xs_def)
  have lt: "(i + 1 < len) = (unat i + 1 < unat len)" "(i + 2 < len) = (unat i + 2 < unat len)"
      "(i + 3 < len) = (unat i + 3 < unat len)"
    by (simp_all add: word_less_nat_alt add)
  show ?thesis
    unfolding z le32_def using assms(1,2) ilen
    by (subst send_loop.simps) (simp add: add lt or.assoc)
qed

lemma send_loop_eq:
  assumes "unat len \<le> length p" "unat len + 4 \<le> 2 ^ 32"
  shows "send_loop p len i d = Some (d\<lparr>wr := wr d @
    map (Pair ETH_MACDATA) (pack (take (unat len - unat i) (drop (unat i) p)))\<rparr>)"
proof (induction "unat len - unat i" arbitrary: i d rule: less_induct)
  case less
  show ?case
  proof (cases "i < len")
    case False
    then show ?thesis by (simp add: send_loop.simps[of p len i d] word_less_nat_alt)
  next
    case True
    let ?xs = "take (unat len - unat i) (drop (unat i) p)"
    let ?w = "le32 (nth0 ?xs 0) (nth0 ?xs 1) (nth0 ?xs 2) (nth0 ?xs 3)"
    have i4: "unat (i + 4) = unat i + 4"
      using unat_add_of_nat[of i 4] True assms by (simp add: word_less_nat_alt)
    have ne: "?xs \<noteq> []" using True assms by (auto simp: word_less_nat_alt)
    have "send_loop p len (i + 4) (reg_write ETH_MACDATA ?w d) =
        Some ((reg_write ETH_MACDATA ?w d)\<lparr>wr := wr (reg_write ETH_MACDATA ?w d) @
          map (Pair ETH_MACDATA) (pack (drop 4 ?xs))\<rparr>)"
      using less[of "i + 4"] True by (simp add: i4 word_less_nat_alt drop_take add.commute)
    then show ?thesis
      using send_word[OF True assms] pack_step[OF ne] by (simp add: reg_write_def)
  qed
qed

lemma tx_wait_simps [simp]: "wr (tx_wait n d) = wr d" "rd (tx_wait n d) = rd d"
  by (induction n arbitrary: d) (auto simp: reg_read_def)

lemma len_word: "(len AND 0xFF) OR push_bit 8 (drop_bit 8 len AND 0xFF) = (len AND 0xFFFF :: u32)"
proof (rule bit_word_eqI)
  fix n assume "n < LENGTH(32)"
  have m: "(0xFF :: u32) = mask 8" "(0xFFFF :: u32) = mask 16" by (simp_all add: mask_eq_decr_exp)
  show "bit ((len AND 0xFF) OR push_bit 8 (drop_bit 8 len AND 0xFF)) n = bit (len AND 0xFFFF) n"
    unfolding m by (auto simp: bit_simps)
qed

lemma eth_send_loop:
  assumes "unat len \<le> length p" "unat len + 4 \<le> 2 ^ 32"
  shows "\<exists>d'. eth_send p len d = Some d' \<and>
    wr d' = wr d @ (ETH_MACDATA, len AND 0xFFFF) # map (Pair ETH_MACDATA) (pack (take (unat len) p)) @
      [(ETH_MACTR, 1), (ETH_MACIACK, MAC_INT_TXEMP)]"
  using send_loop_eq[OF assms, of 0] unfolding eth_send_def len_word by (simp add: Let_def)

lemma eth_send_returns:
  "unat len \<le> length p \<Longrightarrow> unat len + 4 \<le> 2 ^ 32 \<Longrightarrow> \<exists>d'. eth_send p len d = Some d'"
  using eth_send_loop by blast

text \<open>
  C9: \<open>eth_send\<close> of a buffer that holds the frame returns for every length up to
  \<open>2^32 - 4\<close> and its register writes are exactly: the low 16 bits of the length, the words of
  the frame, the transmission request and the acknowledgement. The words are the frame packed
  four bytes to a word, the first byte lowest and the last word filled up with zero bytes:
  there are \<open>(len + 3) div 4\<close> of them and unpacked they are the frame and the zero bytes.
\<close>

theorem eth_send_writes:
  assumes "unat len \<le> length p" "unat len + 4 \<le> 2 ^ 32"
  shows "\<exists>d' ws. eth_send p len d = Some d' \<and>
    wr d' = wr d @ (ETH_MACDATA, len AND 0xFFFF) # map (Pair ETH_MACDATA) ws @
      [(ETH_MACTR, 1), (ETH_MACIACK, MAC_INT_TXEMP)] \<and>
    length ws = (unat len + 3) div 4 \<and>
    concat (map word_bytes ws) = take (unat len) p @ replicate (4 * length ws - unat len) 0"
proof -
  let ?ws = "pack (take (unat len) p)"
  have len: "length (take (unat len) p) = unat len" using assms(1) by simp
  have "length ?ws = (unat len + 3) div 4" using length_pack[of "take (unat len) p"] len by simp
  moreover have "concat (map word_bytes ?ws) = take (unat len) p @ replicate (4 * length ?ws - unat len) 0"
    using unpack_pack[of "take (unat len) p"] len by simp
  ultimately show ?thesis using eth_send_loop[OF assms, of d] by blast
qed

definition quiet_mac :: mmio where
  "quiet_mac = \<lparr>rd = (\<lambda>_ _. 0), rdn = (\<lambda>_. 0), wr = []\<rparr>"

theorem eth_send_writes_witness:
  "\<exists>d' ws. eth_send [1, 2, 3, 4, 5] 5 quiet_mac = Some d' \<and>
    wr d' = (ETH_MACDATA, 5) # map (Pair ETH_MACDATA) ws @
      [(ETH_MACTR, 1), (ETH_MACIACK, MAC_INT_TXEMP)] \<and>
    length ws = 2 \<and> concat (map word_bytes ws) = [1, 2, 3, 4, 5, 0, 0, 0]"
proof -
  obtain d' ws where w: "eth_send [1, 2, 3, 4, 5] 5 quiet_mac = Some d'"
      "wr d' = wr quiet_mac @ (ETH_MACDATA, 5 AND 0xFFFF) # map (Pair ETH_MACDATA) ws @
        [(ETH_MACTR, 1), (ETH_MACIACK, MAC_INT_TXEMP)]" "length ws = 2"
      "concat (map word_bytes ws) = [1, 2, 3, 4, 5] @ replicate (4 * length ws - 5) 0"
    using eth_send_writes[of 5 "[1, 2, 3, 4, 5]" quiet_mac] by auto
  then show ?thesis by (intro exI[of _ d'] exI[of _ ws]) (simp add: quiet_mac_def numeral_3_eq_3)
qed

section \<open>Receiving stays inside the buffer\<close>

lemma store_word_eq:
  assumes "L = min (btr + 2) max_len" "L \<le> length p" "s \<le> L" "j \<le> 4"
  shows "store_word j w btr max_len p s =
    Some (take s p @ take (L - s) (drop j (word_bytes w)) @ drop (min L (s + (4 - j))) p,
          min L (s + (4 - j)))"
  using assms
proof (induction "4 - j" arbitrary: j p s)
  case 0
  then show ?case by (subst store_word.simps) simp
next
  case (Suc k)
  then have j: "j < 4" by simp
  have wb: "drop j (word_bytes w) = byte_at j w # drop (Suc j) (word_bytes w)"
  proof -
    have "word_bytes w ! j = byte_at j w"
      using j by (auto simp: word_bytes_def nth_Cons' less_Suc_eq numeral_eq_Suc)
    then show ?thesis using j by (metis Cons_nth_drop_Suc length_word_bytes)
  qed
  have mask: "ucast (drop_bit (j * 8) w AND 0xFF) = byte_at j w"
  proof -
    have "(0xFF :: u32) = mask 8" by (simp add: mask_eq_decr_exp)
    then show ?thesis by (auto simp: byte_at_def bit_eq_iff bit_simps mult.commute)
  qed
  show ?case
  proof (cases "s < L")
    case True
    then have "s < length p" using Suc.prems(2) by simp
    with True have "store_word j w btr max_len p s =
        store_word (Suc j) w btr max_len (p[s := byte_at j w]) (Suc s)"
      using j Suc.prems by (simp add: store_word.simps[of j] mask)
    also have "\<dots> = Some (take (Suc s) (p[s := byte_at j w]) @ take (L - Suc s) (drop (Suc j) (word_bytes w)) @
          drop (min L (Suc s + (4 - Suc j))) (p[s := byte_at j w]), min L (Suc s + (4 - Suc j)))"
      by (rule Suc.hyps(1)) (use Suc.hyps(2) Suc.prems(1,2) True j in simp_all)
    also have "Suc s + (4 - Suc j) = s + (4 - j)" using j by simp
    finally show ?thesis
      using True Suc.prems j wb by (simp add: take_Suc_update take_Cons' min_def)
  next
    case False
    then have "\<not> (s < btr + 2 \<and> s < max_len)" using Suc.prems(1) by auto
    then have "store_word j w btr max_len p s = store_word (Suc j) w btr max_len p s"
      using j by (subst store_word.simps) (simp only: if_True if_False simp_thms)
    also have "\<dots> = Some (take s p @ take (L - s) (drop (Suc j) (word_bytes w)) @
        drop (min L (s + (4 - Suc j))) p, min L (s + (4 - Suc j)))"
      by (rule Suc.hyps(1)) (use Suc.hyps(2) Suc.prems j in simp_all)
    finally have ih: "store_word j w btr max_len p s = \<dots>" .
    have "s = L" using False Suc.prems(3) by simp
    then show ?thesis using ih by simp
  qed
qed

text \<open>The words the device delivers at the next \<open>n\<close> reads of the data register.\<close>

definition fifo :: "nat \<Rightarrow> mmio \<Rightarrow> u32 list" where
  "fifo n d = map (\<lambda>k. rd d ETH_MACDATA (rdn d ETH_MACDATA + k)) [0..<n]"

lemma fifo_0 [simp]: "fifo 0 d = []"
  by (simp add: fifo_def)

lemma fifo_Suc: "reg_read ETH_MACDATA d = (w, d') \<Longrightarrow> fifo (Suc n) d = w # fifo n d'"
  by (auto simp: fifo_def reg_read_def map_upt_Suc simp del: upt_Suc)

lemma drop_append_long: "length xs \<le> k \<Longrightarrow> drop k (xs @ ys) = drop (k - length xs) ys"
  by simp

lemma recv_loop_eq:
  assumes "L = min (btr + 2) max_len" "L \<le> length p" "s \<le> L"
  shows "\<exists>d'. recv_loop n btr max_len p s d =
    Some (take s p @ take (L - s) (concat (map word_bytes (fifo n d))) @ drop (min L (s + 4 * n)) p,
          min L (s + 4 * n), d')"
  using assms
proof (induction n arbitrary: p s d)
  case 0
  then show ?case by simp
next
  case (Suc n)
  obtain w d1 where r: "reg_read ETH_MACDATA d = (w, d1)" by fastforce
  let ?p = "take s p @ take (L - s) (word_bytes w) @ drop (min L (s + 4)) p" and ?s = "min L (s + 4)"
  have st: "store_word 0 w btr max_len p s = Some (?p, ?s)"
    using store_word_eq[OF Suc.prems, of 0 w] by simp
  have len: "length (take s p @ take (L - s) (word_bytes w)) = ?s" using Suc.prems(2,3) by auto
  then have lp: "length ?p = length p" using Suc.prems(2) by auto
  obtain d' where d': "recv_loop n btr max_len ?p ?s d1 =
      Some (take ?s ?p @ take (L - ?s) (concat (map word_bytes (fifo n d1))) @
        drop (min L (?s + 4 * n)) ?p, min L (?s + 4 * n), d')"
  proof -
    have "L \<le> length ?p" "?s \<le> L" using Suc.prems(2) lp by simp_all
    from Suc.IH[OF Suc.prems(1) this, of d1] show thesis using that by blast
  qed
  have tk: "take ?s ?p = take s p @ take (L - s) (word_bytes w)"
    by (metis append.assoc append_eq_conv_conj len)
  have ms: "min L (?s + 4 * n) = min L (s + 4 * Suc n)" by auto
  have "drop (min L (s + 4 * Suc n)) ?p = drop (min L (s + 4 * Suc n) - ?s) (drop ?s p)"
  proof -
    have P: "?p = (take s p @ take (L - s) (word_bytes w)) @ drop ?s p" by simp
    have "?s \<le> min L (s + 4 * Suc n)" by simp
    with drop_append_long[of "take s p @ take (L - s) (word_bytes w)" "min L (s + 4 * Suc n)" "drop ?s p"]
    show ?thesis by (simp only: P len)
  qed
  also have "\<dots> = drop (min L (s + 4 * Suc n)) p" by simp
  finally have dr: "drop (min L (s + 4 * Suc n)) ?p = drop (min L (s + 4 * Suc n)) p" .
  have app: "take (L - s) (concat (map word_bytes (fifo (Suc n) d))) =
      take (L - s) (word_bytes w) @ take (L - ?s) (concat (map word_bytes (fifo n d1)))"
    by (simp add: fifo_Suc[OF r] min_def)
  show ?case using d' st r unfolding ms dr app tk by simp
qed

text \<open>The frame in the receive FIFO: its first two bytes share a word with the length.\<close>

definition rx_frame :: "nat \<Rightarrow> mmio \<Rightarrow> bytes" where
  "rx_frame n d = drop 2 (concat (map word_bytes (fifo (Suc n) d)))"

definition rx_pending :: "mmio \<Rightarrow> bool" where
  "rx_pending d \<longleftrightarrow> rd d ETH_MACNPV (rdn d ETH_MACNPV) AND 0xFF \<noteq> 0"

definition rx_len :: "mmio \<Rightarrow> nat" where
  "rx_len d = unat (rd d ETH_MACDATA (rdn d ETH_MACDATA)) mod 65536"

definition rx_valid :: "mmio \<Rightarrow> bool" where
  "rx_valid d \<longleftrightarrow> rx_len d \<noteq> 0 \<and> rx_len d \<le> 1522"

lemma word_bytes_hi:
  fixes w :: u32
  shows "ucast (drop_bit 16 w AND 0xFF) = byte_at 2 w" "ucast (drop_bit 24 w AND 0xFF) = byte_at 3 w"
proof -
  have "(0xFF :: u32) = mask 8" by (simp add: mask_eq_decr_exp)
  then show "ucast (drop_bit 16 w AND 0xFF) = byte_at 2 w" "ucast (drop_bit 24 w AND 0xFF) = byte_at 3 w"
    by (auto simp: byte_at_def bit_eq_iff bit_simps)
qed

lemma rx_len_cond: "w AND 0xFFFF = 0 \<longleftrightarrow> unat (w :: u32) mod 65536 = 0"
    "w AND 0xFFFF > 1522 \<longleftrightarrow> 1522 < unat (w :: u32) mod 65536"
    "w AND 0xFFFF > 2 \<longleftrightarrow> 2 < unat (w :: u32) mod 65536"
  using unat_and_ffff[of w] by (auto simp: word_less_nat_alt unat_eq_0[symmetric] simp del: unat_eq_0)

lemma recv_loop_wr: "recv_loop n btr max_len p s d = Some (p', s', d') \<Longrightarrow> wr d' = wr d"
  by (induction n arbitrary: p s d) (auto simp: bind_eq_Some_conv reg_read_def)

lemma eth_receive_valid:
  assumes "2 \<le> max_len" "max_len \<le> length buffer" "rx_pending d" "rx_valid d"
  shows "\<exists>d'. eth_receive buffer max_len d = Some (min (max 2 (rx_len d)) max_len,
      take (min (max 2 (rx_len d)) max_len) (rx_frame ((rx_len d + 1) div 4) d) @
        drop (min (max 2 (rx_len d)) max_len) buffer, d') \<and> wr d' = wr d"
proof -
  let ?len = "rx_len d" and ?L = "min (max 2 (rx_len d)) max_len" and ?n = "(rx_len d + 1) div 4"
  obtain npv d1 where r1: "reg_read ETH_MACNPV d = (npv, d1)" by fastforce
  obtain w d2 where r2: "reg_read ETH_MACDATA d1 = (w, d2)" by fastforce
  have w: "w = rd d ETH_MACDATA (rdn d ETH_MACDATA)" "npv AND 0xFF \<noteq> 0" "wr d2 = wr d"
    using r1 r2 assms(3) by (auto simp: reg_read_def rx_pending_def eth_regs)
  have len: "unat (w AND 0xFFFF) = ?len" by (simp add: w rx_len_def unat_and_ffff)
  have ok: "w AND 0xFFFF \<noteq> 0" "\<not> w AND 0xFFFF > 1522"
    using assms(4) by (simp_all add: rx_len_cond w rx_valid_def rx_len_def)
  define btr where "btr = (if w AND 0xFFFF > 2 then ?len - 2 else 0)"
  have btr: "btr + 2 = max 2 ?len" "(btr + 3) div 4 = ?n"
    using ok(1) by (auto simp: btr_def rx_len_cond w rx_len_def max_def)
  let ?p = "buffer[0 := byte_at 2 w, 1 := byte_at 3 w]"
  have frame: "rx_frame ?n d = [byte_at 2 w, byte_at 3 w] @ concat (map word_bytes (fifo ?n d2))"
  proof -
    have "fifo (Suc ?n) d = fifo (Suc ?n) d1"
      using r1 by (auto simp: fifo_def reg_read_def eth_regs)
    then show ?thesis by (simp add: rx_frame_def fifo_Suc[OF r2] word_bytes_def)
  qed
  obtain d3 where d3: "recv_loop ?n btr max_len ?p 2 d2 =
      Some (take 2 ?p @ take (?L - 2) (concat (map word_bytes (fifo ?n d2))) @
        drop (min ?L (2 + 4 * ?n)) ?p, min ?L (2 + 4 * ?n), d3)"
  proof -
    have "?L = min (btr + 2) max_len" "?L \<le> length ?p" "2 \<le> ?L"
      using assms(1,2) btr(1) by (simp_all add: min.coboundedI2)
    from recv_loop_eq[OF this, of ?n d2] show thesis using that by blast
  qed
  have "max 2 ?len \<le> 2 + 4 * ?n" by (simp add: max_def) presburger
  then have L: "min ?L (2 + 4 * ?n) = ?L" by (simp add: min_def)
  obtain x y rest where buf: "buffer = x # y # rest"
    using assms(1,2) by (cases buffer; cases "tl buffer") auto
  have A: "take 2 ?p @ take (?L - 2) (concat (map word_bytes (fifo ?n d2))) @ drop ?L ?p =
      take ?L (rx_frame ?n d) @ drop ?L buffer"
  proof -
    have "2 \<le> ?L" using assms(1) by simp
    then obtain m where m: "?L = Suc (Suc m)" by (metis add_2_eq_Suc le_Suc_ex)
    show ?thesis unfolding m frame by (simp add: buf numeral_2_eq_2)
  qed
  have B: "eth_receive buffer max_len d = (case recv_loop ?n btr max_len ?p 2 d2 of
      None \<Rightarrow> None | Some (p, n, d) \<Rightarrow> Some (n, p, d))"
  proof (cases "w AND 0xFFFF > 2")
    case True
    then have "btr = ?len - 2" by (simp add: btr_def)
    then show ?thesis
      using True assms(1,2) ok w(2) btr(2)
      by (simp add: eth_receive_def r1 r2 Let_def word_bytes_hi len buf split: option.splits)
  next
    case False
    then have "btr = 0" by (simp add: btr_def)
    then show ?thesis
      using False assms(1,2) ok w(2) btr(2)
      by (simp add: eth_receive_def r1 r2 Let_def word_bytes_hi len buf split: option.splits)
  qed
  have "wr d3 = wr d" using recv_loop_wr[OF d3] w(3) by simp
  with B show ?thesis unfolding d3 L A by (simp only: option.case prod.case) blast
qed

text \<open>
  C10: Given a buffer of at least two bytes, \<open>eth_receive\<close> returns and never writes past
  \<open>max_len\<close>. With no packet pending
  it returns 0 and leaves the buffer alone; with a pending packet of valid length it stores
  exactly the first \<open>min len max_len\<close> bytes of the frame (two bytes at least), leaves the
  rest of the buffer unchanged and writes no register; for a length of 0 or above 1522 it
  returns 0, leaves the buffer alone and rewrites the receive control register three times,
  each time from the value it reads: without the enable bit, with the bit that resets the FIFO,
  with the enable bit.
\<close>

theorem eth_receive_frame:
  assumes "2 \<le> max_len" "max_len \<le> length buffer"
  shows "\<exists>n p d'. eth_receive buffer max_len d = Some (n, p, d') \<and> n \<le> max_len \<and>
    (if \<not> rx_pending d then n = 0 \<and> p = buffer \<and> wr d' = wr d
     else if rx_valid d then n = min (max 2 (rx_len d)) max_len \<and> wr d' = wr d \<and>
       p = take n (rx_frame ((rx_len d + 1) div 4) d) @ drop n buffer
     else n = 0 \<and> p = buffer \<and>
       (let v = (\<lambda>k. rd d ETH_MACRCTL (rdn d ETH_MACRCTL + k)) in
        wr d' = wr d @ [(ETH_MACRCTL, v 0 AND NOT MAC_RCTL_RXEN), (ETH_MACRCTL, v 1 OR MAC_RCTL_RSTFIFO),
          (ETH_MACRCTL, v 2 OR MAC_RCTL_RXEN)]))"
proof (cases "rx_pending d")
  case False
  then show ?thesis
    by (auto simp: eth_receive_def reg_read_def rx_pending_def)
next
  case True
  show ?thesis
  proof (cases "rx_valid d")
    case v: True
    from eth_receive_valid[OF assms True v] v True show ?thesis by auto
  next
    case v: False
    then have "rx_len d = 0 \<or> 1522 < rx_len d" by (auto simp: rx_valid_def)
    with v True show ?thesis
      by (auto simp: eth_receive_def reg_read_def rx_pending_def Let_def rx_len_cond rx_len_def
          eth_regs reg_and_def reg_or_def)
  qed
qed

definition busy_mac :: mmio where
  "busy_mac = \<lparr>rd = (\<lambda>a n. if a = ETH_MACNPV then 1 else if a = ETH_MACDATA then [0x02010006, 0x06050403] ! n else 0),
     rdn = (\<lambda>_. 0), wr = []\<rparr>"

theorem eth_receive_frame_witness:
  "rx_pending busy_mac \<and> rx_valid busy_mac \<and>
   (\<exists>p d'. eth_receive (replicate 8 0) 8 busy_mac = Some (6, p, d') \<and>
     p = [1, 2, 3, 4, 5, 6, 0, 0])"
proof -
  have b: "rx_pending busy_mac" "rx_len busy_mac = 6" "rx_valid busy_mac"
      "rx_frame 1 busy_mac = [1, 2, 3, 4, 5, 6]"
    by (simp_all add: rx_pending_def busy_mac_def rx_len_def rx_valid_def rx_frame_def fifo_def
        eth_regs word_bytes_def byte_at_def)
  from eth_receive_frame[of 8 "replicate 8 0" busy_mac] b show ?thesis
    by (auto simp: numeral_2_eq_2)
qed

section \<open>The two directions disagree about the frame layout\<close>

lemma fifo_take: "k \<le> m \<Longrightarrow> fifo k d = take k (fifo m d)"
  by (simp add: fifo_def take_map)

lemma concat_word_bytes_take:
  "concat (map word_bytes (take k ws)) = take (4 * k) (concat (map word_bytes ws))"
proof (induction ws arbitrary: k)
  case (Cons w ws)
  then show ?case by (cases k) simp_all
qed simp

lemma byte_at_len_word: "byte_at 2 (len AND 0xFFFF :: u32) = 0" "byte_at 3 (len AND 0xFFFF :: u32) = 0"
proof -
  have m: "(0xFFFF :: u32) = mask 16" by (simp add: mask_eq_decr_exp)
  show "byte_at 2 (len AND 0xFFFF :: u32) = 0" "byte_at 3 (len AND 0xFFFF :: u32) = 0"
    unfolding byte_at_def m by (auto simp: bit_eq_iff bit_simps)
qed

lemma sent_frame_received:
  assumes "fifo (Suc (length (pack p))) d = (len AND 0xFFFF) # pack p" "2 \<le> length p"
  shows "take (length p) (rx_frame ((length p + 1) div 4) d) = 0 # 0 # take (length p - 2) p"
proof -
  let ?k = "(length p + 1) div 4"
  have k: "?k \<le> length (pack p)" "length p - 2 \<le> 4 * ?k" using assms(2) by (auto simp: length_pack)
  have "fifo (Suc ?k) d = (len AND 0xFFFF) # take ?k (pack p)"
    using fifo_take[of "Suc ?k" "Suc (length (pack p))" d] k(1) assms(1) by simp
  then have "rx_frame ?k d = 0 # 0 # take (4 * ?k) (concat (map word_bytes (pack p)))"
    by (simp add: rx_frame_def word_bytes_def[of "len AND 0xFFFF"] byte_at_len_word concat_word_bytes_take)
  moreover have "take (length p - 2) (concat (map word_bytes (pack p))) = take (length p - 2) p"
    using arg_cong[OF pack_unpack[of p], of "take (length p - 2)"] by (simp add: min_def)
  moreover obtain m where "length p = Suc (Suc m)" using assms(2) by (metis add_2_eq_Suc le_Suc_ex)
  ultimately show ?thesis using k(2) by (simp add: min_def)
qed

text \<open>
  C15: A frame that \<open>eth_send\<close> put into a FIFO is shifted by two bytes when \<open>eth_receive\<close> takes it out
  of it: when the receive FIFO delivers exactly the data words of a transmission, the
  received bytes start with two zero bytes and the last two bytes of the frame are lost,
  because the receiver expects the frame to start in the upper half of the length word and
  the sender leaves that half empty.
\<close>

theorem eth_loopback_shifted:
  assumes "unat len = length p" "2 \<le> length p" "length p \<le> 1518"
    and "eth_send p len d = Some d'" "rx_pending d2"
    and "fifo (Suc (length (pack p))) d2 =
      map snd (filter (\<lambda>(a, v). a = ETH_MACDATA) (drop (length (wr d)) (wr d')))"
  shows "\<exists>d3. eth_receive (replicate 1518 0) 1518 d2 =
    Some (length p, 0 # 0 # take (length p - 2) p @ replicate (1518 - length p) 0, d3)"
proof -
  have "unat len \<le> length p" "unat len + 4 \<le> 2 ^ 32" using assms(1,3) by simp_all
  from eth_send_loop[OF this, of d] assms(1,4)
  have "wr d' = wr d @ (ETH_MACDATA, len AND 0xFFFF) # map (Pair ETH_MACDATA) (pack p) @
      [(ETH_MACTR, 1), (ETH_MACIACK, MAC_INT_TXEMP)]"
    by simp
  then have ff: "fifo (Suc (length (pack p))) d2 = (len AND 0xFFFF) # pack p"
    using assms(6) by (simp add: eth_regs filter_map o_def)
  then have "rd d2 ETH_MACDATA (rdn d2 ETH_MACDATA) = len AND 0xFFFF"
    by (simp add: fifo_def map_upt_Suc del: upt_Suc)
  then have len: "rx_len d2 = length p" using assms(1,3) by (simp add: rx_len_def unat_and_ffff)
  then have "rx_valid d2" using assms(2,3) by (auto simp: rx_valid_def)
  from eth_receive_valid[of 1518 "replicate 1518 0" d2, OF _ _ assms(5) this]
  obtain d3 where "eth_receive (replicate 1518 0) 1518 d2 = Some (length p,
      take (length p) (rx_frame ((length p + 1) div 4) d2) @ replicate (1518 - length p) 0, d3)"
    using assms(2,3) len by (auto simp: min_def max_def)
  with sent_frame_received[OF ff assms(2)] show ?thesis by simp
qed

definition loopback_mac :: mmio where
  "loopback_mac = \<lparr>rd = (\<lambda>a n. if a = ETH_MACNPV then 1 else if a = ETH_MACDATA then [4, 0x04030201] ! n else 0),
     rdn = (\<lambda>_. 0), wr = []\<rparr>"

theorem eth_loopback_shifted_witness:
  "\<exists>d3. eth_receive (replicate 1518 0) 1518 loopback_mac =
    Some (4, [0, 0, 1, 2] @ replicate 1514 0, d3)"
proof -
  obtain d' where d': "eth_send [1, 2, 3, 4] 4 quiet_mac = Some d'"
    using eth_send_returns[of 4 "[1, 2, 3, 4]" quiet_mac] by auto
  have w: "wr d' = [(ETH_MACDATA, 4), (ETH_MACDATA, 0x04030201), (ETH_MACTR, 1), (ETH_MACIACK, MAC_INT_TXEMP)]"
    using d' send_loop_eq[of 4 "[1, 2, 3, 4]" 0]
    by (auto simp: eth_send_def Let_def quiet_mac_def le32_def)
  have "rx_pending loopback_mac" by (simp add: rx_pending_def loopback_mac_def eth_regs)
  moreover have "fifo (Suc (length (pack [1, 2, 3, 4]))) loopback_mac =
      map snd (filter (\<lambda>(a, v). a = ETH_MACDATA) (drop (length (wr quiet_mac)) (wr d')))"
    by (simp add: w fifo_def loopback_mac_def quiet_mac_def eth_regs)
  moreover have "length [1, 2, 3, 4 :: u8] = 4" by simp
  ultimately show ?thesis
    using eth_loopback_shifted[of 4 "[1, 2, 3, 4]" quiet_mac d' loopback_mac] d' by (simp only:) simp
qed

end
