(* ===== verification/LwipPort.thy ===== *)
theory LwipPort
  imports EthDrv CStrings
begin

text \<open>
  The network interface of lwIP over the Ethernet driver, \<open>src/src/lwip_port.c\<close>. A chain of
  \<open>pbuf\<close>s is the list of its payloads. The functions of lwIP that the receiving side calls are
  parameters. \<open>None\<close> is an access outside the frame buffer.
\<close>

section \<open>Operations\<close>

text \<open>\<open>memcpy(buffer + len, q->payload, q->len)\<close> between distinct objects.\<close>

definition copy_in :: "bytes \<Rightarrow> nat \<Rightarrow> bytes \<Rightarrow> bytes option" where
  "copy_in buffer len q = (if len + length q \<le> length buffer then Some (blit buffer len q) else None)"

fun output_loop :: "bytes list \<Rightarrow> bytes \<Rightarrow> nat \<Rightarrow> (bytes \<times> nat) option" where
  "output_loop [] buffer len = Some (buffer, len)"
| "output_loop (q # qs) buffer len =
     (if len + length q > 1518 then Some (buffer, len)
      else do {
        buffer \<leftarrow> copy_in buffer len q;
        output_loop qs buffer (len + length q)
      })"

definition low_level_output :: "bytes list \<Rightarrow> bytes \<Rightarrow> mmio \<Rightarrow> (int \<times> mmio) option" where
  "low_level_output p buffer d = do {
     (buffer, len) \<leftarrow> output_loop p buffer 0;
     d \<leftarrow> eth_send buffer (of_nat len) d;
     Some (0, d)
   }"

record 'w pbuf_api =
  pbuf_alloc :: "nat \<Rightarrow> 'w \<Rightarrow> nat option \<times> 'w"
  pbuf_take :: "nat \<Rightarrow> bytes \<Rightarrow> 'w \<Rightarrow> 'w"
  netif_input :: "nat \<Rightarrow> 'w \<Rightarrow> int \<times> 'w"
  pbuf_free :: "nat \<Rightarrow> 'w \<Rightarrow> 'w"

definition ethernetif_input :: "'w pbuf_api \<Rightarrow> bytes \<Rightarrow> mmio \<Rightarrow> 'w \<Rightarrow> (mmio \<times> 'w) option" where
  "ethernetif_input api buffer d w = do {
     (len, buffer, d) \<leftarrow> eth_receive buffer 1518 d;
     if len = 0 then Some (d, w)
     else case pbuf_alloc api len w of
         (None, w) \<Rightarrow> Some (d, w)
       | (Some p, w) \<Rightarrow>
           (case netif_input api p (pbuf_take api p (take len buffer) w) of
              (err, w) \<Rightarrow> Some (d, if err \<noteq> 0 then pbuf_free api p w else w))
   }"

text \<open>The fields of \<open>struct netif\<close> that \<open>ethernetif_init\<close> sets; the functions are named.\<close>

record netif_conf =
  nc_hostname :: string
  nc_name :: string
  nc_output :: string
  nc_linkoutput :: string
  nc_mtu :: nat
  nc_flags :: u8

definition ethernetif_init :: "netif_conf \<Rightarrow> int \<times> netif_conf" where
  "ethernetif_init n =
     (0, n\<lparr>nc_hostname := ''zanos'', nc_name := ''en'', nc_output := ''etharp_output'',
       nc_linkoutput := ''low_level_output'', nc_mtu := 1500, nc_flags := 0x02 OR 0x08 OR 0x04\<rparr>)"

section \<open>What is sent\<close>

text \<open>The payloads that fit into a frame of 1518 bytes: the chain up to the first that does not.\<close>

fun fitting :: "nat \<Rightarrow> bytes list \<Rightarrow> bytes" where
  "fitting len [] = []"
| "fitting len (q # qs) = (if len + length q > 1518 then [] else q @ fitting (len + length q) qs)"

lemma fitting_all: "len + length (concat p) \<le> 1518 \<Longrightarrow> fitting len p = concat p"
  by (induction p arbitrary: len) auto

lemma fitting_length: "len \<le> 1518 \<Longrightarrow> len + length (fitting len p) \<le> 1518"
proof (induction p arbitrary: len)
  case (Cons q qs)
  show ?case
  proof (cases "1518 < len + length q")
    case False
    then have "len + length q + length (fitting (len + length q) qs) \<le> 1518" by (intro Cons.IH) simp
    with False show ?thesis by simp
  qed (use Cons.prems in simp)
qed simp

lemma output_loop_eq:
  "length buffer = 1518 \<Longrightarrow> len \<le> 1518 \<Longrightarrow> \<exists>buffer'. output_loop p buffer len = Some (buffer', len + length (fitting len p)) \<and>
    length buffer' = 1518 \<and> take (len + length (fitting len p)) buffer' = take len buffer @ fitting len p"
proof (induction p arbitrary: buffer len)
  case (Cons q qs)
  show ?case
  proof (cases "len + length q > 1518")
    case False
    let ?b = "blit buffer len q"
    have b: "length ?b = 1518" "take (len + length q) ?b = take len buffer @ q"
      using Cons.prems False by (simp_all add: blit_def)
    obtain b' where "output_loop qs ?b (len + length q) = Some (b', len + length q + length (fitting (len + length q) qs))"
        "length b' = 1518" "take (len + length q + length (fitting (len + length q) qs)) b' =
          take (len + length q) ?b @ fitting (len + length q) qs"
      using Cons.IH[OF b(1), of "len + length q"] False by (metis not_less)
    then show ?thesis using False Cons.prems b(2) by (simp add: copy_in_def add.assoc)
  qed (use Cons.prems in simp)
qed simp

text \<open>
  \<open>low_level_output\<close> never leaves its frame buffer, whatever chain it is given, and hands the
  driver one frame: the concatenated payloads of the chain, if they are at most 1518 bytes
  together, and otherwise those of the longest prefix that fits. The registers written are
  the length, the words of that frame, the transmission request and the acknowledgement.
\<close>

lemma low_level_output_sends:
  assumes "length buffer = 1518"
  shows "\<exists>d'. low_level_output p buffer d = Some (0, d') \<and> length (fitting 0 p) \<le> 1518 \<and>
    (length (concat p) \<le> 1518 \<longrightarrow> fitting 0 p = concat p) \<and>
    wr d' = wr d @ (ETH_MACDATA, of_nat (length (fitting 0 p))) # map (Pair ETH_MACDATA) (pack (fitting 0 p)) @
      [(ETH_MACTR, 1), (ETH_MACIACK, MAC_INT_TXEMP)]"
proof -
  let ?n = "length (fitting 0 p)"
  obtain b where b: "output_loop p buffer 0 = Some (b, ?n)" "length b = 1518" "take ?n b = fitting 0 p"
    using output_loop_eq[OF assms, of 0 p] by auto
  have n: "?n \<le> 1518" using fitting_length[of 0 p] by simp
  have u: "unat (of_nat ?n :: u32) = ?n" using n by (simp add: unat_of_nat)
  have "(of_nat ?n :: u32) AND 0xFFFF = of_nat ?n"
    using unat_and_ffff[of "of_nat ?n"] u n by (simp add: word_unat_eq_iff)
  then obtain d' where "eth_send b (of_nat ?n) d = Some d'"
      "wr d' = wr d @ (ETH_MACDATA, of_nat ?n) # map (Pair ETH_MACDATA) (pack (fitting 0 p)) @
        [(ETH_MACTR, 1), (ETH_MACIACK, MAC_INT_TXEMP)]"
    using eth_send_loop[of "of_nat ?n" b d] u n b(2,3) by auto
  then show ?thesis using b(1) n fitting_all[of 0 p] by (simp add: low_level_output_def)
qed

end
