(* ===== verification/Arena.thy ===== *)
theory Arena
  imports Prelude
begin

text \<open>
  The contract of an allocator. \<open>avail s\<close> is the set of addresses the allocator may still
  hand out; a successful request takes its block out of \<open>avail\<close>, a refused one leaves
  \<open>avail\<close> no larger. From these laws alone follows what the callers rely on: the blocks of
  any sequence of requests are pairwise disjoint and were all available at the start.
  The kernel heap (\<open>KHeap\<close>) interprets the locale.
\<close>

type_synonym block = "nat \<times> nat"

definition extent :: "block \<Rightarrow> nat set" where
  "extent b = {fst b ..< fst b + snd b}"

definition disjoint_blocks :: "block list \<Rightarrow> bool" where
  "disjoint_blocks bs \<longleftrightarrow>
     (\<forall>i < length bs. \<forall>j < length bs. i \<noteq> j \<longrightarrow> extent (bs ! i) \<inter> extent (bs ! j) = {})"

lemma disjoint_blocks_Nil [simp]: "disjoint_blocks []"
  by (simp add: disjoint_blocks_def)

lemma disjoint_blocks_Cons:
  "disjoint_blocks (b # bs) \<longleftrightarrow> (\<forall>c \<in> set bs. extent b \<inter> extent c = {}) \<and> disjoint_blocks bs"
proof
  assume l: "disjoint_blocks (b # bs)"
  have "extent b \<inter> extent c = {}" if c: "c \<in> set bs" for c
  proof -
    from c obtain j where "j < length bs" "c = bs ! j" by (auto simp: in_set_conv_nth)
    with l show ?thesis
      unfolding disjoint_blocks_def by (metis Suc_less_eq length_Cons nat.distinct(1) nth_Cons_0 nth_Cons_Suc zero_less_Suc)
  qed
  moreover have "disjoint_blocks bs"
    unfolding disjoint_blocks_def
  proof (intro allI impI)
    fix i j assume "i < length bs" "j < length bs" "i \<noteq> j"
    with l[unfolded disjoint_blocks_def, rule_format, of "Suc i" "Suc j"]
    show "extent (bs ! i) \<inter> extent (bs ! j) = {}" by simp
  qed
  ultimately show "(\<forall>c \<in> set bs. extent b \<inter> extent c = {}) \<and> disjoint_blocks bs" by blast
next
  assume r: "(\<forall>c \<in> set bs. extent b \<inter> extent c = {}) \<and> disjoint_blocks bs"
  show "disjoint_blocks (b # bs)"
    unfolding disjoint_blocks_def
  proof (intro allI impI)
    fix i j assume "i < length (b # bs)" "j < length (b # bs)" "i \<noteq> j"
    with r show "extent ((b # bs) ! i) \<inter> extent ((b # bs) ! j) = {}"
      by (cases i; cases j) (auto simp: disjoint_blocks_def Int_commute)
  qed
qed

locale arena =
  fixes inv :: "'s \<Rightarrow> bool"
    and avail :: "'s \<Rightarrow> nat set"
    and admissible :: "'r \<Rightarrow> 's \<Rightarrow> bool"
    and alloc :: "'r \<Rightarrow> 's \<Rightarrow> block option \<times> 's"
  assumes alloc_Some: "inv s \<Longrightarrow> admissible r s \<Longrightarrow> alloc r s = (Some b, s') \<Longrightarrow>
      inv s' \<and> extent b \<subseteq> avail s \<and> avail s' \<subseteq> avail s - extent b"
    and alloc_None: "inv s \<Longrightarrow> admissible r s \<Longrightarrow> alloc r s = (None, s') \<Longrightarrow>
      inv s' \<and> avail s' \<subseteq> avail s"
begin

fun alloc_all :: "'r list \<Rightarrow> 's \<Rightarrow> block list \<times> 's" where
  "alloc_all [] s = ([], s)"
| "alloc_all (r # rs) s =
     (case alloc r s of (b, s') \<Rightarrow>
        (case alloc_all rs s' of (bs, s'') \<Rightarrow>
           ((case b of None \<Rightarrow> bs | Some b \<Rightarrow> b # bs), s'')))"

fun admissible_all :: "'r list \<Rightarrow> 's \<Rightarrow> bool" where
  "admissible_all [] s = True"
| "admissible_all (r # rs) s \<longleftrightarrow> admissible r s \<and> admissible_all rs (snd (alloc r s))"

lemma alloc_all_sound:
  assumes "inv s" "admissible_all rs s" "alloc_all rs s = (bs, s')"
  shows "inv s' \<and> disjoint_blocks bs \<and> avail s' \<subseteq> avail s \<and>
    (\<forall>b \<in> set bs. extent b \<subseteq> avail s \<and> extent b \<inter> avail s' = {})"
  using assms
proof (induction rs arbitrary: s bs)
  case Nil
  then show ?case by simp
next
  case (Cons r rs)
  obtain b s1 where b: "alloc r s = (b, s1)" by fastforce
  obtain cs s2 where cs: "alloc_all rs s1 = (cs, s2)" by fastforce
  have s2: "s2 = s'" and bs: "bs = (case b of None \<Rightarrow> cs | Some b \<Rightarrow> b # cs)"
    using Cons.prems(3) b cs by auto
  have adm: "admissible r s" "admissible_all rs s1" using Cons.prems(2) b by auto
  show ?case
  proof (cases b)
    case None
    with alloc_None[OF Cons.prems(1) adm(1)] b have s1: "inv s1" "avail s1 \<subseteq> avail s" by auto
    from Cons.IH[OF s1(1) adm(2) cs[unfolded s2]] s1 None bs show ?thesis by auto
  next
    case (Some c)
    with alloc_Some[OF Cons.prems(1) adm(1)] b
    have s1: "inv s1" "extent c \<subseteq> avail s" "avail s1 \<subseteq> avail s - extent c" by auto
    from Cons.IH[OF s1(1) adm(2) cs[unfolded s2]] s1 Some bs show ?thesis
      by (auto simp: disjoint_blocks_Cons; blast)
  qed
qed

end

section \<open>Pools of elements\<close>

text \<open>
  The contract of a pool: \<open>home\<close> are its elements, \<open>avail\<close> those that are free. A client that
  gives back only what it holds never gets an element it still holds, and always holds exactly
  the elements that are not free.
\<close>

datatype pool_op = Get | Put nat

locale element_pool =
  fixes inv :: "'s \<Rightarrow> bool"
    and home :: "'s \<Rightarrow> nat set"
    and avail :: "'s \<Rightarrow> nat set"
    and get :: "'s \<Rightarrow> (nat option \<times> 's) option"
    and put :: "nat \<Rightarrow> 's \<Rightarrow> 's option"
  assumes avail_home: "inv s \<Longrightarrow> avail s \<subseteq> home s"
    and get_some: "inv s \<Longrightarrow> avail s \<noteq> {} \<Longrightarrow>
      \<exists>a s'. get s = Some (Some a, s') \<and> inv s' \<and> home s' = home s \<and> a \<in> avail s \<and> avail s' = avail s - {a}"
    and get_none: "inv s \<Longrightarrow> avail s = {} \<Longrightarrow>
      \<exists>s'. get s = Some (None, s') \<and> inv s' \<and> home s' = home s \<and> avail s' = {}"
    and put_ok: "inv s \<Longrightarrow> a \<in> home s - avail s \<Longrightarrow>
      \<exists>s'. put a s = Some s' \<and> inv s' \<and> home s' = home s \<and> avail s' = insert a (avail s)"
begin

text \<open>A client that remembers what it holds; \<open>Put k\<close> gives the \<open>k\<close>-th of these back.\<close>

fun serve :: "pool_op list \<Rightarrow> nat list \<Rightarrow> 's \<Rightarrow> (nat list \<times> 's) option" where
  "serve [] held s = Some (held, s)"
| "serve (Get # ops) held s = do {
     (r, s) \<leftarrow> get s;
     serve ops (case r of None \<Rightarrow> held | Some a \<Rightarrow> a # held) s
   }"
| "serve (Put k # ops) held s =
     (if k < length held then do {
        s \<leftarrow> put (held ! k) s;
        serve ops (take k held @ drop (Suc k) held) s
      } else serve ops held s)"

definition owns :: "nat list \<Rightarrow> 's \<Rightarrow> bool" where
  "owns held s \<longleftrightarrow> inv s \<and> distinct held \<and> set held = home s - avail s"

lemma owns_put:
  assumes "owns held s" "k < length held"
  shows "\<exists>s'. put (held ! k) s = Some s' \<and> home s' = home s \<and> owns (take k held @ drop (Suc k) held) s'"
proof -
  have split: "held = take k held @ held ! k # drop (Suc k) held" using assms(2) by (rule id_take_nth_drop)
  have d: "distinct (take k held @ held ! k # drop (Suc k) held)"
    and h: "set (take k held @ held ! k # drop (Suc k) held) = home s - avail s"
    using assms(1) split by (simp_all add: owns_def)
  have "held ! k \<in> home s - avail s" using h by auto
  then obtain s' where "put (held ! k) s = Some s'" "inv s'" "home s' = home s"
      "avail s' = insert (held ! k) (avail s)"
    using put_ok[of s "held ! k"] assms(1) by (auto simp: owns_def)
  moreover have "set (take k held @ drop (Suc k) held) = home s - insert (held ! k) (avail s)"
    using d h by auto
  ultimately show ?thesis using d by (auto simp: owns_def)
qed

lemma serve_owns:
  assumes "owns held s"
  shows "\<exists>held' s'. serve ops held s = Some (held', s') \<and> home s' = home s \<and> owns held' s'"
  using assms
proof (induction ops arbitrary: held s)
  case (Cons op ops)
  have s: "inv s" "avail s \<subseteq> home s" using Cons.prems avail_home by (auto simp: owns_def)
  show ?case
  proof (cases op)
    case Get
    show ?thesis
    proof (cases "avail s = {}")
      case True
      with get_none[OF s(1)] obtain s1 where "get s = Some (None, s1)" "inv s1" "home s1 = home s" "avail s1 = {}"
        by blast
      with Cons.IH[of held s1] Cons.prems True Get show ?thesis by (auto simp: owns_def)
    next
      case False
      with get_some[OF s(1)] obtain a s1 where g: "get s = Some (Some a, s1)" "inv s1" "home s1 = home s"
          "a \<in> avail s" "avail s1 = avail s - {a}" by blast
      then have "owns (a # held) s1" using Cons.prems s(2) by (auto simp: owns_def)
      with Cons.IH[of "a # held" s1] g Get show ?thesis by auto
    qed
  next
    case (Put k)
    then show ?thesis using Cons.IH[of held s] Cons.prems owns_put[OF Cons.prems, of k] Cons.IH
      by (cases "k < length held") (fastforce, auto)
  qed
qed simp

end

end
