(* ===== verification/Memp.thy ===== *)
theory Memp
  imports Arena
begin

text \<open>
  The memory pools of lwIP, \<open>src/src/lwip/core/memp.c\<close>, as the build configures them: without
  overflow and sanity checks, the elements in static memory. The list of free elements that
  hangs on \<open>tab\<close> is a list of addresses. \<open>None\<close> is a failed assertion. The pool interprets
  \<open>element_pool\<close>: an element is never handed out twice.
\<close>

section \<open>Pools\<close>

record pool =
  tab :: "nat list"
  pbase :: nat
  psize :: nat
  pnum :: nat
  st_avail :: u16
  st_used :: u16
  st_max :: u16
  st_err :: u16

text \<open>The loop that links the elements; \<open>memp\<close> is the address of the next one.\<close>

fun link_elems :: "nat \<Rightarrow> nat \<Rightarrow> nat \<Rightarrow> nat list \<Rightarrow> nat list" where
  "link_elems 0 sz memp t = t"
| "link_elems (Suc n) sz memp t = link_elems n sz (memp + sz) (memp # t)"

definition memp_init_pool :: "pool \<Rightarrow> pool" where
  "memp_init_pool p =
     p\<lparr>tab := link_elems (pnum p) (psize p) ((pbase p + 3) div 4 * 4) [], st_avail := of_nat (pnum p)\<rparr>"

definition memp_init :: "pool list \<Rightarrow> pool list" where
  "memp_init ps = map memp_init_pool ps"

definition do_memp_malloc_pool :: "pool \<Rightarrow> (nat option \<times> pool) option" where
  "do_memp_malloc_pool p =
     (case tab p of
        memp # t \<Rightarrow>
          if memp mod 4 \<noteq> 0 then None
          else let u = st_used p + 1 in
            Some (Some memp, p\<lparr>tab := t, st_used := u, st_max := if st_max p < u then u else st_max p\<rparr>)
      | [] \<Rightarrow> Some (None, p\<lparr>st_err := st_err p + 1\<rparr>))"

definition memp_malloc_pool :: "pool option \<Rightarrow> (nat option \<times> pool) option" where
  "memp_malloc_pool desc = desc \<bind> do_memp_malloc_pool"

definition memp_malloc :: "nat \<Rightarrow> pool list \<Rightarrow> (nat option \<times> pool list) option" where
  "memp_malloc type ps =
     (if type < length ps
      then map_option (\<lambda>(r, p). (r, ps[type := p])) (do_memp_malloc_pool (ps ! type))
      else Some (None, ps))"

definition do_memp_free_pool :: "nat \<Rightarrow> pool \<Rightarrow> pool option" where
  "do_memp_free_pool mem p =
     (if mem mod 4 \<noteq> 0 then None else Some (p\<lparr>st_used := st_used p - 1, tab := mem # tab p\<rparr>))"

definition memp_free_pool :: "nat option \<Rightarrow> pool option \<Rightarrow> pool option" where
  "memp_free_pool mem desc =
     (case desc of
        None \<Rightarrow> None
      | Some p \<Rightarrow> (case mem of None \<Rightarrow> Some p | Some a \<Rightarrow> do_memp_free_pool a p))"

definition memp_free :: "nat \<Rightarrow> nat option \<Rightarrow> pool list \<Rightarrow> pool list option" where
  "memp_free type mem ps =
     (if type < length ps
      then case mem of
          None \<Rightarrow> Some ps
        | Some a \<Rightarrow> map_option (\<lambda>p. ps[type := p]) (do_memp_free_pool a (ps ! type))
      else Some ps)"

section \<open>No element is handed out twice\<close>

definition elems :: "pool \<Rightarrow> nat list" where
  "elems p = map (\<lambda>i. (pbase p + 3) div 4 * 4 + i * psize p) [0..<pnum p]"

definition pool_wf :: "pool \<Rightarrow> bool" where
  "pool_wf p \<longleftrightarrow> distinct (tab p) \<and> set (tab p) \<subseteq> set (elems p) \<and> psize p mod 4 = 0 \<and> 0 < psize p \<and>
     pnum p < 65536 \<and> st_used p = of_nat (pnum p - length (tab p))"

lemma elems_aligned: "psize p mod 4 = 0 \<Longrightarrow> a \<in> set (elems p) \<Longrightarrow> a mod 4 = 0"
  by (auto simp: elems_def mod_eq_0_iff_dvd)

lemma distinct_elems: "0 < psize p \<Longrightarrow> distinct (elems p)"
  by (simp add: elems_def distinct_map inj_on_def)

lemma elems_update [simp]:
  "elems (p\<lparr>tab := t\<rparr>) = elems p" "elems (p\<lparr>st_used := u\<rparr>) = elems p" "elems (p\<lparr>st_max := u\<rparr>) = elems p"
  "elems (p\<lparr>st_err := u\<rparr>) = elems p" "elems (p\<lparr>st_avail := u\<rparr>) = elems p"
  by (simp_all add: elems_def)

lemma length_elems [simp]: "length (elems p) = pnum p"
  by (simp add: elems_def)

lemma tab_length:
  assumes "pool_wf p"
  shows "length (tab p) \<le> pnum p" "a \<in> set (elems p) \<Longrightarrow> a \<notin> set (tab p) \<Longrightarrow> length (tab p) < pnum p"
proof -
  have card: "card (set (tab p)) = length (tab p)" "card (set (elems p)) = pnum p"
    using assms distinct_elems[of p] by (auto simp: pool_wf_def distinct_card)
  show "length (tab p) \<le> pnum p"
    using assms card card_mono[of "set (elems p)" "set (tab p)"] by (auto simp: pool_wf_def)
  show "length (tab p) < pnum p" if "a \<in> set (elems p)" "a \<notin> set (tab p)"
    using assms card psubset_card_mono[of "set (elems p)" "set (tab p)"] that by (auto simp: pool_wf_def)
qed

lemma malloc_pool_some:
  assumes wf: "pool_wf p" and ne: "tab p \<noteq> []"
  shows "\<exists>a p'. do_memp_malloc_pool p = Some (Some a, p') \<and> pool_wf p' \<and> elems p' = elems p \<and>
    tab p = a # tab p'"
proof -
  obtain a t where t: "tab p = a # t" using ne by (cases "tab p") auto
  have "a mod 4 = 0" using wf t elems_aligned[of p a] by (auto simp: pool_wf_def)
  moreover have "pnum p - length t = Suc (pnum p - length (tab p))"
    using t tab_length(1)[OF wf] by simp
  ultimately show ?thesis using wf t by (simp add: do_memp_malloc_pool_def Let_def pool_wf_def)
qed

lemma malloc_pool_none:
  assumes "pool_wf p" "tab p = []"
  shows "\<exists>p'. do_memp_malloc_pool p = Some (None, p') \<and> pool_wf p' \<and> elems p' = elems p \<and> tab p' = []"
  using assms by (simp add: do_memp_malloc_pool_def pool_wf_def)

lemma free_pool_ok:
  assumes wf: "pool_wf p" and a: "a \<in> set (elems p)" "a \<notin> set (tab p)"
  shows "\<exists>p'. do_memp_free_pool a p = Some p' \<and> pool_wf p' \<and> elems p' = elems p \<and> tab p' = a # tab p"
proof -
  have "a mod 4 = 0" using wf a(1) elems_aligned[of p a] by (simp add: pool_wf_def)
  moreover have "pnum p - length (tab p) = Suc (pnum p - Suc (length (tab p)))"
    using tab_length(2)[OF wf a] by simp
  ultimately show ?thesis using wf a by (simp add: do_memp_free_pool_def pool_wf_def)
qed

interpretation mp: element_pool pool_wf "\<lambda>p. set (elems p)" "\<lambda>p. set (tab p)"
    do_memp_malloc_pool do_memp_free_pool
proof (unfold_locales, goal_cases)
  case (1 p)
  then show ?case by (simp add: pool_wf_def)
next
  case (2 p)
  then show ?case using malloc_pool_some[of p] by (fastforce simp: pool_wf_def)
next
  case (3 p)
  then show ?case using malloc_pool_none[of p] by fastforce
next
  case (4 p a)
  then show ?case using free_pool_ok[of p a] by fastforce
qed

lemma link_elems_eq:
  "link_elems n sz b t = rev (map (\<lambda>i. b + i * sz) [0..<n]) @ t"
proof (induction n arbitrary: b t)
  case (Suc n)
  have "map (\<lambda>i. b + i * sz) [0..<Suc n] = b # map (\<lambda>i. b + sz + i * sz) [0..<n]"
    by (simp add: map_upt_Suc add.assoc del: upt_Suc)
  then show ?case using Suc by simp
qed simp

lemma init_pool_tab: "tab (memp_init_pool p) = rev (elems p)" "elems (memp_init_pool p) = elems p"
  by (simp_all add: memp_init_pool_def link_elems_eq elems_def)

lemma init_pool_wf:
  "psize p mod 4 = 0 \<Longrightarrow> 0 < psize p \<Longrightarrow> pnum p < 65536 \<Longrightarrow> st_used p = 0 \<Longrightarrow> pool_wf (memp_init_pool p)"
  using distinct_elems[of p] by (simp add: pool_wf_def init_pool_tab) (simp add: memp_init_pool_def)

text \<open>
  C34: The elements of a pool are exclusive. After \<open>memp_init_pool\<close>, every sequence of requests and
  releases of held elements runs to its end; at every time the elements that are held are
  distinct, aligned and do not overlap, none of them is on the free list, and held and free ones
  together are all elements of the pool. The statistics count the held ones.
\<close>

theorem memp_elements_exclusive:
  assumes "psize p mod 4 = 0" "0 < psize p" "pnum p < 65536" "st_used p = 0"
  shows "\<exists>held p'. mp.serve ops [] (memp_init_pool p) = Some (held, p') \<and> distinct held \<and>
    set held = set (elems p) - set (tab p') \<and> length held + length (tab p') = pnum p \<and>
    st_used p' = of_nat (length held) \<and>
    (\<forall>a\<in>set held. a mod 4 = 0 \<and> (\<forall>b\<in>set held. a < b \<longrightarrow> a + psize p \<le> b))"
proof -
  have "mp.owns [] (memp_init_pool p)" using init_pool_wf[OF assms] by (simp add: mp.owns_def init_pool_tab)
  from mp.serve_owns[OF this, of ops] obtain held p' where
    run: "mp.serve ops [] (memp_init_pool p) = Some (held, p')" and home: "set (elems p') = set (elems p)"
    and own: "pool_wf p'" "distinct held" "set held = set (elems p') - set (tab p')"
    by (auto simp: mp.owns_def init_pool_tab)
  have num: "card (set (elems p)) = pnum p" "card (set (elems p')) = pnum p'"
    using distinct_elems[of p] distinct_elems[of p'] assms(2) own(1) by (auto simp: distinct_card pool_wf_def)
  have "card (set held) = pnum p - length (tab p')"
    using own home num card_Diff_subset[of "set (tab p')" "set (elems p')"]
    by (simp add: pool_wf_def distinct_card)
  then have "length held = pnum p' - length (tab p')" "pnum p' = pnum p"
    using own(2) num home by (simp_all add: distinct_card[symmetric])
  then have len: "length held + length (tab p') = pnum p" "st_used p' = of_nat (length held)"
    using own(1) tab_length(1)[OF own(1)] by (simp_all add: pool_wf_def)
  have gap: "a + psize p \<le> b" if ab: "a \<in> set (elems p)" "b \<in> set (elems p)" "a < b" for a b
  proof -
    obtain i j where ij: "a = (pbase p + 3) div 4 * 4 + i * psize p" "b = (pbase p + 3) div 4 * 4 + j * psize p"
      using ab(1,2) by (auto simp: elems_def)
    then have "i < j" using ab(3) by (metis add_le_cancel_left mult_le_mono1 not_le)
    then have "Suc i * psize p \<le> j * psize p" by (intro mult_le_mono1) simp
    then show ?thesis using ij by simp
  qed
  have "\<forall>a\<in>set held. a mod 4 = 0 \<and> (\<forall>b\<in>set held. a < b \<longrightarrow> a + psize p \<le> b)"
    using own(3) home gap elems_aligned[OF assms(1)] by auto
  then show ?thesis using run own home len by auto
qed

theorem memp_elements_exclusive_witness:
  "\<exists>held p'. mp.serve [Get, Get, Put 1, Get] []
      (memp_init_pool \<lparr>tab = [], pbase = 1001, psize = 16, pnum = 8, st_avail = 0, st_used = 0, st_max = 0, st_err = 0\<rparr>) =
      Some (held, p') \<and> distinct held \<and> length held + length (tab p') = 8"
  using memp_elements_exclusive[of "\<lparr>tab = [], pbase = 1001, psize = 16, pnum = 8, st_avail = 0, st_used = 0,
    st_max = 0, st_err = 0\<rparr>" "[Get, Get, Put 1, Get]"] by auto

end
