(* ===== verification/Timeouts.thy ===== *)
theory Timeouts
  imports Memp "HOL-Library.Multiset"
begin

text \<open>
  The timers of lwIP, \<open>src/src/lwip/core/timeouts.c\<close>, with the cyclic timers of this build. The
  list \<open>next_timeout\<close> is a list of records that know their address, so that they return to their
  pool (theory \<open>Memp\<close>); that no two of them share an element and none uses a free one, which
  makes the list a faithful picture of the linked elements, is part of the invariant. The timer functions of the protocols, the clock and the lists of TCP
  connections are parameters. \<open>None\<close> is a failed assertion, or a loop that does not end.
\<close>

section \<open>State\<close>

datatype handler = Lwip_cyclic_timer | Tcpip_tcp_timer

record sys_timeo =
  to_self :: nat
  to_time :: u32
  to_h :: "handler option"
  to_arg :: nat

record 'w tstate =
  next_timeout :: "sys_timeo list"
  current_timeout_due_time :: u32
  tcpip_tcp_timer_active :: bool
  sys_pool :: pool
  world :: 'w

text \<open>
  The rest of the system: the clock, the test \<open>tcp_active_pcbs || tcp_tw_pcbs\<close>,
  \<open>PBUF_CHECK_FREE_OOSEQ\<close>, and the function of each cyclic timer. A timer function may open
  connections, which calls \<open>tcp_timer_needed\<close>: it gives the worlds in which it does so, and its
  last world.
\<close>

record 'w env =
  sys_now :: "'w \<Rightarrow> u32"
  tcp_pcbs :: "'w \<Rightarrow> bool"
  free_ooseq :: "'w \<Rightarrow> 'w"
  tmr_fn :: "nat \<Rightarrow> 'w \<Rightarrow> 'w list \<times> 'w"

definition TIME_LESS_THAN :: "u32 \<Rightarrow> u32 \<Rightarrow> bool" where
  "TIME_LESS_THAN t compare_to \<longleftrightarrow> 0x7fffffff < t - compare_to"

text \<open>
  The intervals of \<open>tcp_tmr\<close>, \<open>ip_reass_tmr\<close>, \<open>etharp_tmr\<close>, \<open>dhcp_coarse_tmr\<close>, \<open>dhcp_fine_tmr\<close>,
  \<open>acd_tmr\<close> and \<open>dns_tmr\<close>.
\<close>

definition lwip_cyclic_timers :: "u32 list" where
  "lwip_cyclic_timers = [250, 1000, 1000, 60000, 500, 100, 1000]"

section \<open>Operations\<close>

fun link_after :: "sys_timeo \<Rightarrow> sys_timeo list \<Rightarrow> sys_timeo list" where
  "link_after new [] = []"
| "link_after new [t] = [t, new]"
| "link_after new (t # u # ts) =
     (if TIME_LESS_THAN (to_time new) (to_time u) then t # new # u # ts
      else t # link_after new (u # ts))"

definition sys_timeout_abs :: "u32 \<Rightarrow> handler \<Rightarrow> nat \<Rightarrow> 'w tstate \<Rightarrow> 'w tstate option" where
  "sys_timeout_abs abs_time handler arg s = do {
     (r, pool) \<leftarrow> do_memp_malloc_pool (sys_pool s);
     a \<leftarrow> r;
     let timeout = \<lparr>to_self = a, to_time = abs_time, to_h = Some handler, to_arg = arg\<rparr>;
     Some (s\<lparr>sys_pool := pool, next_timeout :=
       (case next_timeout s of
          [] \<Rightarrow> [timeout]
        | t # ts \<Rightarrow>
            if TIME_LESS_THAN (to_time timeout) (to_time t) then timeout # t # ts
            else link_after timeout (t # ts))\<rparr>)
   }"

definition sys_timeout :: "'w env \<Rightarrow> u32 \<Rightarrow> handler \<Rightarrow> nat \<Rightarrow> 'w tstate \<Rightarrow> 'w tstate option" where
  "sys_timeout env msecs handler arg s =
     (if msecs \<le> 0xffffffff div 4
      then sys_timeout_abs (sys_now env (world s) + msecs) handler arg s
      else None)"

definition tcp_timer_needed :: "'w env \<Rightarrow> 'w tstate \<Rightarrow> 'w tstate option" where
  "tcp_timer_needed env s =
     (if \<not> tcpip_tcp_timer_active s \<and> tcp_pcbs env (world s)
      then sys_timeout env 250 Tcpip_tcp_timer 0 (s\<lparr>tcpip_tcp_timer_active := True\<rparr>)
      else Some s)"

fun needed_in :: "'w env \<Rightarrow> 'w list \<Rightarrow> 'w tstate \<Rightarrow> 'w tstate option" where
  "needed_in env [] s = Some s"
| "needed_in env (w # ws) s = tcp_timer_needed env (s\<lparr>world := w\<rparr>) \<bind> needed_in env ws"

definition run_tmr :: "'w env \<Rightarrow> nat \<Rightarrow> 'w tstate \<Rightarrow> 'w tstate option" where
  "run_tmr env i s =
     (case tmr_fn env i (world s) of
        (ws, w) \<Rightarrow> map_option (\<lambda>s. s\<lparr>world := w\<rparr>) (needed_in env ws s))"

definition tcpip_tcp_timer :: "'w env \<Rightarrow> 'w tstate \<Rightarrow> 'w tstate option" where
  "tcpip_tcp_timer env s = do {
     s \<leftarrow> run_tmr env 0 s;
     if tcp_pcbs env (world s) then sys_timeout env 250 Tcpip_tcp_timer 0 s
     else Some (s\<lparr>tcpip_tcp_timer_active := False\<rparr>)
   }"

definition lwip_cyclic_timer :: "'w env \<Rightarrow> nat \<Rightarrow> 'w tstate \<Rightarrow> 'w tstate option" where
  "lwip_cyclic_timer env i s = do {
     s \<leftarrow> run_tmr env i s;
     let now = sys_now env (world s);
     let next_timeout_time = current_timeout_due_time s + lwip_cyclic_timers ! i;
     if TIME_LESS_THAN next_timeout_time now
     then sys_timeout_abs (now + lwip_cyclic_timers ! i) Lwip_cyclic_timer i s
     else sys_timeout_abs next_timeout_time Lwip_cyclic_timer i s
   }"

fun start_timers :: "'w env \<Rightarrow> nat list \<Rightarrow> 'w tstate \<Rightarrow> 'w tstate option" where
  "start_timers env [] s = Some s"
| "start_timers env (i # is) s =
     sys_timeout env (lwip_cyclic_timers ! i) Lwip_cyclic_timer i s \<bind> start_timers env is"

definition sys_timeouts_init :: "'w env \<Rightarrow> 'w tstate \<Rightarrow> 'w tstate option" where
  "sys_timeouts_init env s = start_timers env [1..<length lwip_cyclic_timers] s"

fun untimeout_list :: "handler \<Rightarrow> nat \<Rightarrow> sys_timeo list \<Rightarrow> sys_timeo option \<times> sys_timeo list" where
  "untimeout_list handler arg [] = (None, [])"
| "untimeout_list handler arg (t # ts) =
     (if to_h t = Some handler \<and> to_arg t = arg then (Some t, ts)
      else case untimeout_list handler arg ts of (r, ts) \<Rightarrow> (r, t # ts))"

definition sys_untimeout :: "handler \<Rightarrow> nat \<Rightarrow> 'w tstate \<Rightarrow> 'w tstate option" where
  "sys_untimeout handler arg s =
     (case untimeout_list handler arg (next_timeout s) of
        (None, _) \<Rightarrow> Some s
      | (Some t, ts) \<Rightarrow>
          map_option (\<lambda>p. s\<lparr>next_timeout := ts, sys_pool := p\<rparr>) (do_memp_free_pool (to_self t) (sys_pool s)))"

definition call_handler :: "'w env \<Rightarrow> sys_timeo \<Rightarrow> 'w tstate \<Rightarrow> 'w tstate option" where
  "call_handler env t s =
     (case to_h t of
        None \<Rightarrow> Some s
      | Some Lwip_cyclic_timer \<Rightarrow> lwip_cyclic_timer env (to_arg t) s
      | Some Tcpip_tcp_timer \<Rightarrow> tcpip_tcp_timer env s)"

partial_function (option) check_loop :: "'w env \<Rightarrow> u32 \<Rightarrow> 'w tstate \<Rightarrow> (u32 \<times> 'w tstate) option" where
  "check_loop env now s0 =
     (let s = s0\<lparr>world := free_ooseq env (world s0)\<rparr> in
      case next_timeout s of
        [] \<Rightarrow> Some (0xffffffff, s)
      | t # ts \<Rightarrow>
          if TIME_LESS_THAN now (to_time t)
          then if to_time t - now \<le> 0x7fffffff then Some (to_time t - now, s) else None
          else Option.bind (do_memp_free_pool (to_self t) (sys_pool s)) (\<lambda>p.
            Option.bind (call_handler env t
                (s\<lparr>next_timeout := ts, current_timeout_due_time := to_time t, sys_pool := p\<rparr>))
              (\<lambda>s. check_loop env now s)))"

definition sys_check_timeouts :: "'w env \<Rightarrow> 'w tstate \<Rightarrow> (u32 \<times> 'w tstate) option" where
  "sys_check_timeouts env s = check_loop env (sys_now env (world s)) s"

definition sys_restart_timeouts :: "'w env \<Rightarrow> 'w tstate \<Rightarrow> 'w tstate" where
  "sys_restart_timeouts env s =
     (case next_timeout s of
        [] \<Rightarrow> s
      | t0 # _ \<Rightarrow>
          let now = sys_now env (world s); base = to_time t0 in
          s\<lparr>next_timeout := map (\<lambda>t. t\<lparr>to_time := (to_time t - base) + now\<rparr>) (next_timeout s)\<rparr>)"

definition sys_timeouts_sleeptime :: "'w env \<Rightarrow> 'w tstate \<Rightarrow> u32 option" where
  "sys_timeouts_sleeptime env s =
     (case next_timeout s of
        [] \<Rightarrow> Some 0xffffffff
      | t # _ \<Rightarrow>
          let now = sys_now env (world s) in
          if TIME_LESS_THAN (to_time t) now then Some 0
          else if to_time t - now \<le> 0x7fffffff then Some (to_time t - now) else None)"


section \<open>The list is sorted\<close>

text \<open>
  Times are compared relative to a base in the past. While all of them lie within half the range
  of the clock, the wrapping comparison is the comparison of the distances from the base.
\<close>

definition rel :: "u32 \<Rightarrow> u32 \<Rightarrow> nat" where
  "rel base t = unat (t - base)"

lemma time_less_rel:
  assumes "rel base a < 2 ^ 31" "rel base b < 2 ^ 31"
  shows "TIME_LESS_THAN a b \<longleftrightarrow> rel base a < rel base b"
proof -
  have e: "a - b = (a - base) - (b - base)" by simp
  have "unat (a - b) =
      (if rel base b \<le> rel base a then rel base a - rel base b else rel base a + 2 ^ 32 - rel base b)"
    unfolding rel_def e unat_sub_if_size[of "a - base"] word_size by simp
  then show ?thesis using assms by (auto simp: TIME_LESS_THAN_def word_less_nat_alt split: if_splits)
qed

lemma rel_add:
  assumes "rel base t + unat d < 2 ^ 32"
  shows "rel base (t + d) = rel base t + unat d"
proof -
  have e: "t + d - base = (t - base) + d" by simp
  show ?thesis using assms unfolding rel_def e by (simp add: unat_plus_if_size word_size)
qed

lemma rel_via:
  assumes "rel base m + rel m t < 2 ^ 32"
  shows "rel base t = rel base m + rel m t"
  using rel_add[of base m "t - m"] assms by (simp add: rel_def)

text \<open>Insertion puts the new entry behind all that are not later.\<close>

definition ins :: "sys_timeo \<Rightarrow> sys_timeo list \<Rightarrow> sys_timeo list" where
  "ins new ts =
     takeWhile (\<lambda>t. \<not> TIME_LESS_THAN (to_time new) (to_time t)) ts @
     new # dropWhile (\<lambda>t. \<not> TIME_LESS_THAN (to_time new) (to_time t)) ts"

lemma link_after_ins:
  "\<not> TIME_LESS_THAN (to_time new) (to_time t) \<Longrightarrow> link_after new (t # ts) = ins new (t # ts)"
  by (induction new "t # ts" arbitrary: t ts rule: link_after.induct) (auto simp: ins_def)

lemma insert_ins:
  "(case ts of [] \<Rightarrow> [new]
    | t # us \<Rightarrow> if TIME_LESS_THAN (to_time new) (to_time t) then new # t # us else link_after new (t # us)) = ins new ts"
  by (auto simp: link_after_ins ins_def split: list.splits)

lemma mset_ins: "mset (map f (ins new ts)) = add_mset (f new) (mset (map f ts))"
proof -
  let ?P = "\<lambda>t. \<not> TIME_LESS_THAN (to_time new) (to_time t)"
  have "mset (map f ts) = mset (map f (takeWhile ?P ts)) + mset (map f (dropWhile ?P ts))"
    by (metis map_append mset_append takeWhile_dropWhile_id)
  then show ?thesis by (simp add: ins_def)
qed

lemma map_ins: "distinct (map f (ins new ts)) = distinct (f new # map f ts)" "set (map f (ins new ts)) = insert (f new) (set (map f ts))"
  using mset_ins[of f new ts] mset_eq_imp_distinct_iff[of "map f (ins new ts)" "f new # map f ts"]
    mset_eq_setD[of "map f (ins new ts)" "f new # map f ts"] by (simp_all del: mset_map)

lemma set_ins: "set (ins new ts) = insert new (set ts)"
  using map_ins(2)[of id new ts] by simp

lemma sorted_ins:
  assumes "sorted (map (rel base \<circ> to_time) ts)" "\<forall>t\<in>set (new # ts). rel base (to_time t) < 2 ^ 31"
  shows "sorted (map (rel base \<circ> to_time) (ins new ts))"
  using assms
proof (induction ts)
  case (Cons t ts)
  show ?case
  proof (cases "TIME_LESS_THAN (to_time new) (to_time t)")
    case True
    then show ?thesis using Cons.prems time_less_rel[of base "to_time new" "to_time t"]
      by (auto simp: ins_def)
  next
    case False
    then have "ins new (t # ts) = t # ins new ts" "rel base (to_time t) \<le> rel base (to_time new)"
      using Cons.prems time_less_rel[of base "to_time new" "to_time t"] by (auto simp: ins_def)
    then show ?thesis using Cons by (auto simp: set_ins)
  qed
qed (simp add: ins_def)

section \<open>The invariant of the list\<close>

type_synonym key = "handler option \<times> nat"

definition key :: "sys_timeo \<Rightarrow> key" where
  "key t = (to_h t, to_arg t)"

definition entry :: "sys_timeo \<Rightarrow> key \<times> u32" where
  "entry t = (key t, to_time t)"

definition entries :: "'w tstate \<Rightarrow> (key \<times> u32) multiset" where
  "entries s = mset (map entry (next_timeout s))"

abbreviation tcp_key :: key where
  "tcp_key \<equiv> (Some Tcpip_tcp_timer, 0)"

abbreviation cyclic_key :: "nat \<Rightarrow> key" where
  "cyclic_key i \<equiv> (Some Lwip_cyclic_timer, i)"

definition all_keys :: "key set" where
  "all_keys = insert tcp_key (cyclic_key ` {1..<7})"

text \<open>How far from the base a time may lie: somewhat more than eighteen days of milliseconds.\<close>

definition far :: nat where
  "far = 2 ^ 30 + 2 ^ 29 + 60000"

definition tos_wf :: "u32 \<Rightarrow> key set \<Rightarrow> 'w tstate \<Rightarrow> bool" where
  "tos_wf base K s \<longleftrightarrow>
     mp.owns (map to_self (next_timeout s)) (sys_pool s) \<and> pnum (sys_pool s) = 8 \<and>
     distinct (map key (next_timeout s)) \<and> set (map key (next_timeout s)) = K \<and> K \<subseteq> all_keys \<and>
     sorted (map (rel base \<circ> to_time) (next_timeout s)) \<and>
     (\<forall>t\<in>set (next_timeout s). rel base (to_time t) \<le> far)"

lemma card_all_keys: "finite all_keys" "card all_keys \<le> 7"
proof -
  show "finite all_keys" by (simp add: all_keys_def)
  have "card (cyclic_key ` {1..<7}) \<le> card {1..<7::nat}" by (rule card_image_le) simp
  then have "card (cyclic_key ` {1..<7}) \<le> 6" by simp
  then show "card all_keys \<le> 7"
    using card_insert_le_m1[of 7 "cyclic_key ` {1..<7}" tcp_key] by (simp add: all_keys_def)
qed

lemma tos_length: "tos_wf base K s \<Longrightarrow> length (next_timeout s) = card K \<and> card K \<le> 7"
  using card_mono[OF card_all_keys(1), of K] card_all_keys(2)
  by (auto simp: tos_wf_def dest: distinct_card)

lemma owns_length:
  assumes "mp.owns held p"
  shows "length held + length (tab p) = pnum p"
proof -
  have wf: "pool_wf p" "distinct held" "set held = set (elems p) - set (tab p)"
    using assms by (auto simp: mp.owns_def)
  have "card (set held) = card (set (elems p)) - card (set (tab p))"
    using wf by (simp add: card_Diff_subset pool_wf_def)
  moreover have "card (set held) = length held" "card (set (elems p)) = pnum p" "card (set (tab p)) = length (tab p)"
    using wf(1,2) distinct_elems[of p] by (auto simp: distinct_card pool_wf_def)
  ultimately show ?thesis using tab_length(1)[OF wf(1)] by simp
qed

lemma sys_timeout_abs_ok:
  assumes wf: "tos_wf base K s" and k: "(Some h, arg) \<in> all_keys - K" and t: "rel base t \<le> far"
  shows "\<exists>s'. sys_timeout_abs t h arg s = Some s' \<and> tos_wf base (insert (Some h, arg) K) s' \<and>
    entries s' = add_mset ((Some h, arg), t) (entries s) \<and> world s' = world s \<and>
    tcpip_tcp_timer_active s' = tcpip_tcp_timer_active s \<and> current_timeout_due_time s' = current_timeout_due_time s"
proof -
  have own: "mp.owns (map to_self (next_timeout s)) (sys_pool s)" "pnum (sys_pool s) = 8"
    using wf by (auto simp: tos_wf_def)
  have "tab (sys_pool s) \<noteq> []"
    using owns_length[OF own(1)] own(2) tos_length[OF wf] by auto
  then obtain a p where m: "do_memp_malloc_pool (sys_pool s) = Some (Some a, p)" "pool_wf p"
      "elems p = elems (sys_pool s)" "tab (sys_pool s) = a # tab p"
    using malloc_pool_some[of "sys_pool s"] own(1) by (auto simp: mp.owns_def)
  define new where "new = \<lparr>to_self = a, to_time = t, to_h = Some h, to_arg = arg\<rparr>"
  define s' where "s' = s\<lparr>sys_pool := p, next_timeout := ins new (next_timeout s)\<rparr>"
  have run: "sys_timeout_abs t h arg s = Some s'"
    by (simp add: sys_timeout_abs_def m(1) insert_ins new_def[symmetric] s'_def)
  have "distinct (tab (sys_pool s))" "set (tab (sys_pool s)) \<subseteq> set (elems (sys_pool s))"
    using own(1) by (auto simp: mp.owns_def pool_wf_def)
  then have o: "mp.owns (map to_self (ins new (next_timeout s))) p"
    using own(1) m unfolding mp.owns_def map_ins by (auto simp: new_def)
  have n: "pnum p = 8" using own(2) m(3) by (metis length_elems)
  have ks: "distinct (map key (ins new (next_timeout s)))"
      "set (map key (ins new (next_timeout s))) = insert (Some h, arg) K"
    using wf k unfolding map_ins tos_wf_def by (auto simp: new_def key_def)
  have near: "\<forall>t\<in>set (ins new (next_timeout s)). rel base (to_time t) \<le> far"
    using wf t by (auto simp: set_ins tos_wf_def new_def)
  have "sorted (map (rel base \<circ> to_time) (ins new (next_timeout s)))"
    by (rule sorted_ins) (use wf near in \<open>auto simp: tos_wf_def set_ins far_def\<close>)
  then have "tos_wf base (insert (Some h, arg) K) s'"
    using o n ks near wf k by (simp add: tos_wf_def s'_def)
  moreover have "entries s' = add_mset ((Some h, arg), t) (entries s)"
    by (simp add: entries_def s'_def mset_ins del: mset_map) (simp add: new_def entry_def key_def)
  ultimately show ?thesis using run by (simp add: s'_def)
qed


section \<open>Handlers reschedule\<close>

text \<open>
  What the rest of the system is to keep: the clock does not jump, and a timer function returns
  within about two hours.
\<close>

definition prompt :: "'w env \<Rightarrow> bool" where
  "prompt env \<longleftrightarrow>
     (\<forall>w. rel (sys_now env w) (sys_now env (free_ooseq env w)) < 2 ^ 23) \<and>
     (\<forall>i w. rel (sys_now env w) (sys_now env (snd (tmr_fn env i w))) < 2 ^ 23 \<and>
        (\<forall>v\<in>set (fst (tmr_fn env i w)).
           rel (sys_now env w) (sys_now env v) \<le> rel (sys_now env w) (sys_now env (snd (tmr_fn env i w)))))"

text \<open>The timers that are to be scheduled; \<open>H\<close> are those whose handler runs.\<close>

definition expected :: "bool \<Rightarrow> key set" where
  "expected active = cyclic_key ` {1..<7} \<union> (if active then {tcp_key} else {})"

definition tinv :: "u32 \<Rightarrow> key set \<Rightarrow> 'w tstate \<Rightarrow> bool" where
  "tinv base H s \<longleftrightarrow>
     H \<subseteq> expected (tcpip_tcp_timer_active s) \<and> tos_wf base (expected (tcpip_tcp_timer_active s) - H) s"

abbreviation late :: "u32 \<Rightarrow> key \<times> u32 \<Rightarrow> bool" where
  "late base e \<equiv> 2 ^ 30 < rel base (snd e)"

text \<open>The time of the check lies \<open>2 ^ 30\<close> behind the base, and the clock does not run far from it.\<close>

definition in_time :: "'w env \<Rightarrow> u32 \<Rightarrow> 'w \<Rightarrow> bool" where
  "in_time env base w \<longleftrightarrow> 2 ^ 30 \<le> rel base (sys_now env w) \<and> rel base (sys_now env w) \<le> 2 ^ 30 + 2 ^ 29"

lemma tos_wf_cong:
  "next_timeout s = next_timeout s' \<Longrightarrow> sys_pool s = sys_pool s' \<Longrightarrow> tos_wf base K s = tos_wf base K s'"
  by (simp add: tos_wf_def)

lemma expected_keys: "expected a \<subseteq> all_keys"
  by (auto simp: expected_def all_keys_def)

lemma sys_timeout_tcp:
  assumes wf: "tos_wf base K s" "tcp_key \<notin> K" and w: "in_time env base (world s)"
  shows "\<exists>s'. sys_timeout env 250 Tcpip_tcp_timer 0 s = Some s' \<and> tos_wf base (insert tcp_key K) s' \<and>
    world s' = world s \<and> current_timeout_due_time s' = current_timeout_due_time s \<and>
    tcpip_tcp_timer_active s' = tcpip_tcp_timer_active s \<and>
    (\<exists>X. entries s' = entries s + X \<and> (\<forall>e\<in>#X. late base e))"
proof -
  let ?t = "sys_now env (world s) + 250"
  have "rel base ?t = rel base (sys_now env (world s)) + 250"
    using rel_add[of base "sys_now env (world s)" 250] w by (simp add: in_time_def)
  then have t: "rel base ?t \<le> far" "2 ^ 30 < rel base ?t" using w by (auto simp: in_time_def far_def)
  have "tcp_key \<in> all_keys - K" using wf(2) by (simp add: all_keys_def)
  from sys_timeout_abs_ok[OF wf(1) this t(1)] show ?thesis
    using t(2) by (auto simp: sys_timeout_def intro!: exI[of _ "{#(tcp_key, ?t)#}"])
qed

lemma tcp_timer_needed_ok:
  assumes inv: "tinv base H s" and w: "in_time env base (world s)"
  shows "\<exists>s'. tcp_timer_needed env s = Some s' \<and> tinv base H s' \<and> world s' = world s \<and>
    current_timeout_due_time s' = current_timeout_due_time s \<and>
    (\<exists>X. entries s' = entries s + X \<and> (\<forall>e\<in>#X. late base e))"
proof (cases "\<not> tcpip_tcp_timer_active s \<and> tcp_pcbs env (world s)")
  case True
  let ?s = "s\<lparr>tcpip_tcp_timer_active := True\<rparr>"
  have wf: "tos_wf base (expected False - H) ?s" "H \<subseteq> expected False"
    using inv True tos_wf_cong[of ?s s] by (auto simp: tinv_def)
  have "tcp_key \<notin> expected False - H" "expected True - H = insert tcp_key (expected False - H)"
    using wf(2) by (auto simp: expected_def)
  with sys_timeout_tcp[OF wf(1), of env] w obtain s' where
    s': "sys_timeout env 250 Tcpip_tcp_timer 0 ?s = Some s'" "tos_wf base (expected True - H) s'"
    "world s' = world s" "current_timeout_due_time s' = current_timeout_due_time s" "tcpip_tcp_timer_active s'"
    "\<exists>X. entries s' = entries s + X \<and> (\<forall>e\<in>#X. late base e)" by (auto simp: entries_def)
  moreover have "H \<subseteq> expected True" using wf(2) by (auto simp: expected_def)
  ultimately show ?thesis using True by (auto simp: tcp_timer_needed_def tinv_def)
next
  case False
  then show ?thesis using inv by (auto simp: tcp_timer_needed_def intro!: exI[of _ "{#}"])
qed

lemma needed_in_ok:
  assumes "tinv base H s" "\<forall>w\<in>set ws. in_time env base w"
  shows "\<exists>s'. needed_in env ws s = Some s' \<and> tinv base H s' \<and>
    current_timeout_due_time s' = current_timeout_due_time s \<and>
    (\<exists>X. entries s' = entries s + X \<and> (\<forall>e\<in>#X. late base e))"
  using assms
proof (induction ws arbitrary: s)
  case Nil
  then show ?case by (auto intro!: exI[of _ "{#}"])
next
  case (Cons w ws)
  have "tinv base H (s\<lparr>world := w\<rparr>)" using Cons.prems(1) tos_wf_cong[of "s\<lparr>world := w\<rparr>" s] by (simp add: tinv_def)
  then obtain s1 X where s1: "tcp_timer_needed env (s\<lparr>world := w\<rparr>) = Some s1" "tinv base H s1"
      "current_timeout_due_time s1 = current_timeout_due_time s" "entries s1 = entries s + X" "\<forall>e\<in>#X. late base e"
    using tcp_timer_needed_ok[of base H "s\<lparr>world := w\<rparr>" env] Cons.prems(2) by (auto simp: entries_def)
  then obtain s2 Y where "needed_in env ws s1 = Some s2" "tinv base H s2"
      "current_timeout_due_time s2 = current_timeout_due_time s1" "entries s2 = entries s1 + Y" "\<forall>e\<in>#Y. late base e"
    using Cons.IH[of s1] Cons.prems(2) by auto
  then show ?case using s1 by (auto intro!: exI[of _ "X + Y"])
qed

lemma run_tmr_ok:
  assumes inv: "tinv base H s" and env: "prompt env"
    and w: "2 ^ 30 \<le> rel base (sys_now env (world s))" "rel base (sys_now env (world s)) + 2 ^ 23 \<le> 2 ^ 30 + 2 ^ 29"
  shows "\<exists>s'. run_tmr env i s = Some s' \<and> tinv base H s' \<and> in_time env base (world s') \<and>
    rel base (sys_now env (world s)) \<le> rel base (sys_now env (world s')) \<and>
    rel base (sys_now env (world s')) < rel base (sys_now env (world s)) + 2 ^ 23 \<and>
    current_timeout_due_time s' = current_timeout_due_time s \<and>
    (\<exists>X. entries s' = entries s + X \<and> (\<forall>e\<in>#X. late base e))"
proof -
  obtain ws v where tmr: "tmr_fn env i (world s) = (ws, v)" by force
  let ?n = "sys_now env (world s)"
  have v: "rel ?n (sys_now env v) < 2 ^ 23" and ws: "\<forall>u\<in>set ws. rel ?n (sys_now env u) \<le> rel ?n (sys_now env v)"
    using env tmr unfolding prompt_def by (metis fst_conv snd_conv)+
  have add: "rel base (sys_now env u) = rel base ?n + rel ?n (sys_now env u)" if "rel ?n (sys_now env u) < 2 ^ 23" for u
    using rel_via[of base ?n "sys_now env u"] that w by simp
  have "\<forall>u\<in>set ws. in_time env base u" using add ws v w by (fastforce simp: in_time_def)
  from needed_in_ok[OF inv this] obtain s1 X where s1: "needed_in env ws s = Some s1" "tinv base H s1"
      "current_timeout_due_time s1 = current_timeout_due_time s" "entries s1 = entries s + X" "\<forall>e\<in>#X. late base e"
    by blast
  moreover have "tinv base H (s1\<lparr>world := v\<rparr>)" using s1(2) tos_wf_cong[of "s1\<lparr>world := v\<rparr>" s1] by (simp add: tinv_def)
  ultimately show ?thesis using tmr add[OF v] v w by (auto simp: run_tmr_def in_time_def entries_def)
qed


text \<open>
  How often an entry can still fire in one check: twice if it is due before the time of the
  check, since its cyclic successor can fall on exactly that time; once if it is due then.
\<close>

definition weight :: "u32 \<Rightarrow> key \<times> u32 \<Rightarrow> nat" where
  "weight base e = (if rel base (snd e) < 2 ^ 30 then 2 else if rel base (snd e) = 2 ^ 30 then 1 else 0)"

definition wsum :: "u32 \<Rightarrow> (key \<times> u32) multiset \<Rightarrow> nat" where
  "wsum base M = (\<Sum>e\<in>#M. weight base e)"

lemma wsum_simps [simp]:
  "wsum base {#} = 0" "wsum base (M + N) = wsum base M + wsum base N"
  "wsum base (add_mset e M) = weight base e + wsum base M"
  by (simp_all add: wsum_def)

lemma wsum_late: "\<forall>e\<in>#X. late base e \<Longrightarrow> wsum base X = 0"
  by (induction X) (auto simp: weight_def)

lemma interval_bounds: "i < 7 \<Longrightarrow> 0 < unat (lwip_cyclic_timers ! i) \<and> unat (lwip_cyclic_timers ! i) \<le> 60000"
proof -
  have "\<forall>d\<in>set lwip_cyclic_timers. 0 < unat d \<and> unat d \<le> 60000" by (simp add: lwip_cyclic_timers_def)
  moreover assume "i < 7"
  then have "lwip_cyclic_timers ! i \<in> set lwip_cyclic_timers" by (intro nth_mem) (simp add: lwip_cyclic_timers_def)
  ultimately show ?thesis by blast
qed

lemma next_time:
  assumes due: "rel base due \<le> 2 ^ 30" and now: "in_time env base w" and i: "i < 7"
  defines "nt \<equiv> due + lwip_cyclic_timers ! i"
  defines "t \<equiv> if TIME_LESS_THAN nt (sys_now env w) then sys_now env w + lwip_cyclic_timers ! i else nt"
  shows "rel base t \<le> far" "2 ^ 30 \<le> rel base t" "rel base due = 2 ^ 30 \<Longrightarrow> 2 ^ 30 < rel base t"
proof -
  let ?d = "lwip_cyclic_timers ! i"
  have d: "0 < unat ?d" "unat ?d \<le> 60000" using interval_bounds[OF i] by auto
  have nt: "rel base nt = rel base due + unat ?d" using rel_add[of base due ?d] due d by (simp add: nt_def)
  have nw: "rel base (sys_now env w + ?d) = rel base (sys_now env w) + unat ?d"
    using rel_add[of base "sys_now env w" ?d] now d by (simp add: in_time_def)
  have less: "TIME_LESS_THAN nt (sys_now env w) \<longleftrightarrow> rel base nt < rel base (sys_now env w)"
    using time_less_rel[of base nt "sys_now env w"] nt due d now by (simp add: in_time_def)
  show "rel base t \<le> far" "2 ^ 30 \<le> rel base t" "rel base due = 2 ^ 30 \<Longrightarrow> 2 ^ 30 < rel base t"
    using nt nw less now d due by (auto simp: t_def in_time_def far_def)
qed

lemma tinv_hole:
  assumes "tinv base {k} s" "k \<in> expected (tcpip_tcp_timer_active s)"
  shows "k \<in> all_keys - (expected (tcpip_tcp_timer_active s) - {k})"
    "insert k (expected (tcpip_tcp_timer_active s) - {k}) = expected (tcpip_tcp_timer_active s)"
  using assms expected_keys by auto

lemma lwip_cyclic_timer_ok:
  assumes inv: "tinv base {cyclic_key i} s" and env: "prompt env" and i: "i < 7"
    and w: "2 ^ 30 \<le> rel base (sys_now env (world s))" "rel base (sys_now env (world s)) + 2 ^ 23 \<le> 2 ^ 30 + 2 ^ 29"
    and due: "rel base (current_timeout_due_time s) \<le> 2 ^ 30"
  shows "\<exists>s' X. lwip_cyclic_timer env i s = Some s' \<and> tinv base {} s' \<and>
    rel base (sys_now env (world s)) \<le> rel base (sys_now env (world s')) \<and>
    rel base (sys_now env (world s')) < rel base (sys_now env (world s)) + 2 ^ 23 \<and>
    entries s' = entries s + X \<and> wsum base X < weight base (cyclic_key i, current_timeout_due_time s)"
proof -
  from run_tmr_ok[OF inv env w, of i] obtain s1 X where s1: "run_tmr env i s = Some s1" "tinv base {cyclic_key i} s1"
      "in_time env base (world s1)" "rel base (sys_now env (world s)) \<le> rel base (sys_now env (world s1))"
      "rel base (sys_now env (world s1)) < rel base (sys_now env (world s)) + 2 ^ 23"
      "current_timeout_due_time s1 = current_timeout_due_time s" "entries s1 = entries s + X" "\<forall>e\<in>#X. late base e"
    by blast
  let ?nt = "current_timeout_due_time s + lwip_cyclic_timers ! i"
  let ?t = "if TIME_LESS_THAN ?nt (sys_now env (world s1)) then sys_now env (world s1) + lwip_cyclic_timers ! i else ?nt"
  note t = next_time[OF due s1(3) i]
  let ?E = "expected (tcpip_tcp_timer_active s1)"
  have k: "cyclic_key i \<in> ?E" and wf: "tos_wf base (?E - {cyclic_key i}) s1" using s1(2) by (auto simp: tinv_def)
  from sys_timeout_abs_ok[OF wf tinv_hole(1)[OF s1(2) k] t(1)] obtain s2 where
    s2: "sys_timeout_abs ?t Lwip_cyclic_timer i s1 = Some s2" "tos_wf base ?E s2"
      "entries s2 = add_mset (cyclic_key i, ?t) (entries s1)" "world s2 = world s1"
      "tcpip_tcp_timer_active s2 = tcpip_tcp_timer_active s1"
    unfolding tinv_hole(2)[OF s1(2) k] by blast
  have "lwip_cyclic_timer env i s = Some s2" using s1(1,6) s2(1) by (simp add: lwip_cyclic_timer_def Let_def split: if_splits)
  moreover have "tinv base {} s2" using s2(2,5) by (simp add: tinv_def)
  moreover have "wsum base (add_mset (cyclic_key i, ?t) X) < weight base (cyclic_key i, current_timeout_due_time s)"
    using t due wsum_late[OF s1(8)] by (auto simp: weight_def)
  moreover have "entries s2 = entries s + add_mset (cyclic_key i, ?t) X" using s1(7) s2(3) by simp
  ultimately show ?thesis using s1(4,5) s2(4) by metis
qed

lemma tcpip_tcp_timer_ok:
  assumes inv: "tinv base {tcp_key} s" and env: "prompt env"
    and w: "2 ^ 30 \<le> rel base (sys_now env (world s))" "rel base (sys_now env (world s)) + 2 ^ 23 \<le> 2 ^ 30 + 2 ^ 29"
    and due: "rel base due \<le> 2 ^ 30"
  shows "\<exists>s' X. tcpip_tcp_timer env s = Some s' \<and> tinv base {} s' \<and>
    rel base (sys_now env (world s)) \<le> rel base (sys_now env (world s')) \<and>
    rel base (sys_now env (world s')) < rel base (sys_now env (world s)) + 2 ^ 23 \<and>
    entries s' = entries s + X \<and> wsum base X < weight base (tcp_key, due)"
proof -
  from run_tmr_ok[OF inv env w, of 0] obtain s1 X where s1: "run_tmr env 0 s = Some s1" "tinv base {tcp_key} s1"
      "in_time env base (world s1)" "rel base (sys_now env (world s)) \<le> rel base (sys_now env (world s1))"
      "rel base (sys_now env (world s1)) < rel base (sys_now env (world s)) + 2 ^ 23"
      "entries s1 = entries s + X" "\<forall>e\<in>#X. late base e" by blast
  have act: "tcpip_tcp_timer_active s1" and E: "expected True - {tcp_key} = expected False"
    using s1(2) by (auto simp: tinv_def expected_def split: if_splits)
  have wf: "tos_wf base (expected False) s1" using s1(2) act E by (simp add: tinv_def)
  have pos: "0 < weight base (tcp_key, due)" using due by (simp add: weight_def)
  show ?thesis
  proof (cases "tcp_pcbs env (world s1)")
    case True
    have "tcp_key \<notin> expected False" "insert tcp_key (expected False) = expected True" by (auto simp: expected_def)
    with sys_timeout_tcp[OF wf _ s1(3)] obtain s2 Y where s2: "sys_timeout env 250 Tcpip_tcp_timer 0 s1 = Some s2"
        "tos_wf base (expected True) s2" "world s2 = world s1" "tcpip_tcp_timer_active s2"
        "entries s2 = entries s1 + Y" "\<forall>e\<in>#Y. late base e" using act by auto
    have "wsum base (X + Y) = 0" using wsum_late s1(7) s2(6) by simp
    then show ?thesis using s1 s2 True pos
      by (auto simp: tcpip_tcp_timer_def tinv_def intro!: exI[of _ "X + Y"])
  next
    case False
    have "tinv base {} (s1\<lparr>tcpip_tcp_timer_active := False\<rparr>)"
      using wf tos_wf_cong[of "s1\<lparr>tcpip_tcp_timer_active := False\<rparr>" s1] by (simp add: tinv_def)
    then show ?thesis using s1 False pos wsum_late[OF s1(7)]
      by (auto simp: tcpip_tcp_timer_def entries_def intro!: exI[of _ X])
  qed
qed


section \<open>The check ends\<close>

lemma pop_ok:
  assumes inv: "tinv base {} s" and l: "next_timeout s = t # ts"
  shows "\<exists>p. do_memp_free_pool (to_self t) (sys_pool s) = Some p \<and>
    tinv base {key t} (s\<lparr>next_timeout := ts, current_timeout_due_time := to_time t, sys_pool := p\<rparr>)"
proof -
  let ?E = "expected (tcpip_tcp_timer_active s)"
  have wf: "tos_wf base ?E s" using inv by (simp add: tinv_def)
  have own: "mp.owns (to_self t # map to_self ts) (sys_pool s)" "pnum (sys_pool s) = 8"
    using wf l by (auto simp: tos_wf_def)
  obtain p where p: "do_memp_free_pool (to_self t) (sys_pool s) = Some p" "set (elems p) = set (elems (sys_pool s))"
      "mp.owns (map to_self ts) p"
    using mp.owns_put[OF own(1), of 0] by auto
  have "pnum p = pnum (sys_pool s)" using p(1) by (auto simp: do_memp_free_pool_def split: if_splits)
  then show ?thesis using p(1,3) own(2) wf l by (auto simp: tinv_def tos_wf_def)
qed

lemma call_handler_ok:
  assumes inv: "tinv base {key t} s" and env: "prompt env" and t: "current_timeout_due_time s = to_time t"
    and w: "2 ^ 30 \<le> rel base (sys_now env (world s))" "rel base (sys_now env (world s)) + 2 ^ 23 \<le> 2 ^ 30 + 2 ^ 29"
    and due: "rel base (to_time t) \<le> 2 ^ 30"
  shows "\<exists>s' X. call_handler env t s = Some s' \<and> tinv base {} s' \<and>
    rel base (sys_now env (world s)) \<le> rel base (sys_now env (world s')) \<and>
    rel base (sys_now env (world s')) < rel base (sys_now env (world s)) + 2 ^ 23 \<and>
    entries s' = entries s + X \<and> wsum base X < weight base (entry t)"
proof -
  have "key t \<in> expected (tcpip_tcp_timer_active s)" using inv by (simp add: tinv_def)
  then consider "key t = tcp_key" | i where "i < 7" "key t = cyclic_key i"
    by (auto simp: expected_def split: if_splits)
  then show ?thesis
  proof cases
    case 1
    then show ?thesis using tcpip_tcp_timer_ok[OF _ env w due] inv
      by (simp add: call_handler_def key_def entry_def)
  next
    case 2
    then show ?thesis using lwip_cyclic_timer_ok[OF _ env 2(1) w] inv t due
      by (simp add: call_handler_def key_def entry_def)
  qed
qed

lemma sorted_head_min:
  assumes "tos_wf base K s" "next_timeout s = t # ts" "e \<in># entries s"
  shows "rel base (to_time t) \<le> rel base (snd e)" "rel base (snd e) \<le> far"
  using assms by (auto simp: tos_wf_def entries_def entry_def)

lemma rel_back:
  assumes "rel base m \<le> rel base t"
  shows "rel m t = rel base t - rel base m"
proof -
  have e: "t - m = (t - base) - (m - base)" by simp
  show ?thesis using assms unfolding rel_def e unat_sub_if_size[of "t - base"] by simp
qed

text \<open>What holds when the check returns \<open>r\<close>.\<close>

definition checked :: "'w env \<Rightarrow> u32 \<Rightarrow> u32 \<Rightarrow> 'w tstate \<Rightarrow> u32 \<Rightarrow> 'w tstate \<Rightarrow> bool" where
  "checked env base now s r s' \<longleftrightarrow>
     tinv base {} s' \<and> in_time env base (world s') \<and>
     (\<forall>e\<in>#entries s'. late base e \<and> unat r \<le> rel now (snd e)) \<and> (\<exists>e\<in>#entries s'. unat r = rel now (snd e)) \<and>
     (\<forall>e\<in>#entries s. late base e \<longrightarrow> e \<in># entries s')"

lemma tinv_nonempty:
  assumes "tinv base {} s"
  shows "next_timeout s \<noteq> []"
proof -
  have "cyclic_key 1 \<in> expected (tcpip_tcp_timer_active s)" by (auto simp: expected_def)
  then show ?thesis using assms by (auto simp: tinv_def tos_wf_def)
qed

lemma head_due:
  assumes "tinv base {} s" "next_timeout s = t # ts" "rel base now = 2 ^ 30"
  shows "TIME_LESS_THAN now (to_time t) \<longleftrightarrow> 2 ^ 30 < rel base (to_time t)" "rel base (to_time t) \<le> far"
proof -
  show far: "rel base (to_time t) \<le> far" using assms by (simp add: tinv_def tos_wf_def)
  show "TIME_LESS_THAN now (to_time t) \<longleftrightarrow> 2 ^ 30 < rel base (to_time t)"
    using time_less_rel[of base now "to_time t"] assms(3) far by (simp add: far_def)
qed

text \<open>The check stops at the first entry that is not due.\<close>

lemma check_stops:
  assumes inv: "tinv base {} s" and l: "next_timeout s = t # ts" and now: "rel base now = 2 ^ 30"
    and w: "in_time env base (world s)" and late: "TIME_LESS_THAN now (to_time t)"
  shows "to_time t - now \<le> 0x7fffffff" "checked env base now s (to_time t - now) s"
proof -
  note due = head_due[OF inv l now]
  have wf: "tos_wf base (expected (tcpip_tcp_timer_active s)) s" using inv by (simp add: tinv_def)
  note min = sorted_head_min[OF wf l]
  have te: "entry t \<in># entries s" using l by (simp add: entries_def)
  have ahead: "rel now (snd e) = rel base (snd e) - 2 ^ 30" if "e \<in># entries s" for e
    using rel_back[of base now "snd e"] min(1)[OF that] late due(1) now by simp
  have r: "unat (to_time t - now) = rel base (to_time t) - 2 ^ 30"
    using ahead[OF te] by (simp add: rel_def entry_def)
  then show "to_time t - now \<le> 0x7fffffff" using due(2) by (simp add: word_le_nat_alt far_def)
  show "checked env base now s (to_time t - now) s"
    unfolding checked_def
  proof (intro conjI ballI impI)
    show "\<exists>e\<in>#entries s. unat (to_time t - now) = rel now (snd e)"
      using te by (auto simp: rel_def entry_def intro!: bexI[of _ "entry t"])
  qed (use inv w late due(1) min(1) ahead r in fastforce)+
qed

text \<open>An entry that is due fires, and what its handler schedules weighs less.\<close>

lemma check_fires:
  assumes inv: "tinv base {} s" and env: "prompt env" and l: "next_timeout s = t # ts"
    and due: "rel base (to_time t) \<le> 2 ^ 30" and w: "2 ^ 30 \<le> rel base (sys_now env (world s))"
      "rel base (sys_now env (world s)) + 2 ^ 23 \<le> 2 ^ 30 + 2 ^ 29"
  obtains p s3 where "do_memp_free_pool (to_self t) (sys_pool s) = Some p"
    "call_handler env t (s\<lparr>next_timeout := ts, current_timeout_due_time := to_time t, sys_pool := p\<rparr>) = Some s3"
    "tinv base {} s3" "rel base (sys_now env (world s)) \<le> rel base (sys_now env (world s3))"
    "rel base (sys_now env (world s3)) < rel base (sys_now env (world s)) + 2 ^ 23"
    "wsum base (entries s3) < wsum base (entries s)" "\<forall>e\<in>#entries s. late base e \<longrightarrow> e \<in># entries s3"
proof -
  obtain p where p: "do_memp_free_pool (to_self t) (sys_pool s) = Some p"
    "tinv base {key t} (s\<lparr>next_timeout := ts, current_timeout_due_time := to_time t, sys_pool := p\<rparr>)"
    using pop_ok[OF inv l] by blast
  define s2 where "s2 = s\<lparr>next_timeout := ts, current_timeout_due_time := to_time t, sys_pool := p\<rparr>"
  have e2: "entries s = add_mset (entry t) (entries s2)" using l by (simp add: entries_def s2_def)
  obtain s3 X where s3: "call_handler env t s2 = Some s3" "tinv base {} s3"
      "rel base (sys_now env (world s2)) \<le> rel base (sys_now env (world s3))"
      "rel base (sys_now env (world s3)) < rel base (sys_now env (world s2)) + 2 ^ 23"
      "entries s3 = entries s2 + X" "wsum base X < weight base (entry t)"
    using call_handler_ok[of base t s2 env, OF _ env _ _ _ due] p(2) w by (auto simp: s2_def)
  show ?thesis
    by (rule that[OF p(1), of s3]) (use s3 e2 due in \<open>auto simp: s2_def entry_def\<close>)
qed

lemma check_loop_ok:
  assumes "tinv base {} s" and env: "prompt env" and now: "rel base now = 2 ^ 30"
    and "2 ^ 30 \<le> rel base (sys_now env (world s))"
    and "rel base (sys_now env (world s)) + 2 ^ 24 * wsum base (entries s) \<le> 2 ^ 30 + 2 ^ 28"
  shows "\<exists>r s'. check_loop env now s = Some (r, s') \<and> checked env base now s r s'"
  using assms(1,4,5)
proof (induction "wsum base (entries s)" arbitrary: s rule: less_induct)
  case less
  define s1 where "s1 = s\<lparr>world := free_ooseq env (world s)\<rparr>"
  obtain t ts where l: "next_timeout s = t # ts" using tinv_nonempty[OF less.prems(1)] by (cases "next_timeout s") auto
  have s1: "tinv base {} s1" "next_timeout s1 = t # ts" "entries s1 = entries s"
    using less.prems(1) l tos_wf_cong[of s1 s] by (auto simp: s1_def tinv_def entries_def)
  have "rel (sys_now env (world s)) (sys_now env (world s1)) < 2 ^ 23" using env by (simp add: prompt_def s1_def)
  then have w1: "rel base (sys_now env (world s)) \<le> rel base (sys_now env (world s1))"
      "rel base (sys_now env (world s1)) < rel base (sys_now env (world s)) + 2 ^ 23"
    using rel_via[of base "sys_now env (world s)" "sys_now env (world s1)"] less.prems(3) by simp_all
  show ?case
  proof (cases "TIME_LESS_THAN now (to_time t)")
    case True
    have "in_time env base (world s1)" using w1 less.prems(2,3) by (simp add: in_time_def)
    note stop = check_stops[OF s1(1,2) now this True]
    have "check_loop env now s = Some (to_time t - now, s1)"
      using True s1(2) stop(1) by (subst check_loop.simps) (simp add: s1_def[symmetric])
    then show ?thesis using stop(2) s1(3) by (auto simp: checked_def)
  next
    case False
    then have due: "rel base (to_time t) \<le> 2 ^ 30" using head_due(1)[OF s1(1,2) now] by simp
    have "1 \<le> wsum base (entries s)" using l due by (simp add: entries_def weight_def entry_def)
    then have w2: "2 ^ 30 \<le> rel base (sys_now env (world s1))"
        "rel base (sys_now env (world s1)) + 2 ^ 23 \<le> 2 ^ 30 + 2 ^ 29"
      using w1 less.prems(2,3) by simp_all
    obtain p s3 where f: "do_memp_free_pool (to_self t) (sys_pool s1) = Some p"
      "call_handler env t (s1\<lparr>next_timeout := ts, current_timeout_due_time := to_time t, sys_pool := p\<rparr>) = Some s3"
      "tinv base {} s3" "rel base (sys_now env (world s1)) \<le> rel base (sys_now env (world s3))"
      "rel base (sys_now env (world s3)) < rel base (sys_now env (world s1)) + 2 ^ 23"
      "wsum base (entries s3) < wsum base (entries s)" "\<forall>e\<in>#entries s. late base e \<longrightarrow> e \<in># entries s3"
      using check_fires[OF s1(1) env s1(2) due w2] s1(3) by metis
    have "rel base (sys_now env (world s3)) + 2 ^ 24 * wsum base (entries s3) \<le> 2 ^ 30 + 2 ^ 28"
      using f(5,6) w1(2) less.prems(3) by simp
    then obtain r s' where loop: "check_loop env now s3 = Some (r, s')" "checked env base now s3 r s'"
      using less.hyps[OF f(6,3)] f(4) w2(1) by force
    have "check_loop env now s = check_loop env now s3"
      using False s1(2) f(1,2) by (subst check_loop.simps) (simp add: s1_def[symmetric])
    then show ?thesis using loop f(7) unfolding checked_def by auto
  qed
qed

section \<open>The timers over the life of the system\<close>

text \<open>
  The states the main loop goes through, with the time of the last check (or of the start): the
  start, a check, a new connection, and anything else the system does while the clock stays
  within \<open>2 ^ 29\<close> milliseconds (six days) of the last check.
\<close>

inductive reach :: "'w env \<Rightarrow> u32 \<Rightarrow> 'w tstate \<Rightarrow> bool" for env where
  boot: "next_timeout s = [] \<Longrightarrow> \<not> tcpip_tcp_timer_active s \<Longrightarrow> sys_pool s = memp_init_pool p \<Longrightarrow>
    pnum p = 8 \<Longrightarrow> psize p mod 4 = 0 \<Longrightarrow> 0 < psize p \<Longrightarrow> st_used p = 0 \<Longrightarrow>
    sys_timeouts_init env s = Some s' \<Longrightarrow> reach env (sys_now env (world s)) s'"
| poll: "reach env L s \<Longrightarrow> sys_check_timeouts env s = Some (r, s') \<Longrightarrow> reach env (sys_now env (world s)) s'"
| need: "reach env L s \<Longrightarrow> tcp_timer_needed env s = Some s' \<Longrightarrow> reach env L s'"
| run: "reach env L s \<Longrightarrow> rel L (sys_now env w) \<le> 2 ^ 29 \<Longrightarrow> reach env L (s\<lparr>world := w\<rparr>)"

definition reach_inv :: "'w env \<Rightarrow> u32 \<Rightarrow> 'w tstate \<Rightarrow> bool" where
  "reach_inv env L s \<longleftrightarrow> tinv (L - 2 ^ 30) {} s \<and> in_time env (L - 2 ^ 30) (world s) \<and>
     (\<forall>e\<in>#entries s. late (L - 2 ^ 30) e)"

lemma rel_past: "rel (L - 2 ^ 30) L = 2 ^ 30"
  by (simp add: rel_def)

lemma in_time_iff:
  assumes "rel L (sys_now env w) \<le> 2 ^ 29"
  shows "in_time env (L - 2 ^ 30) w"
  using rel_via[of "L - 2 ^ 30" L "sys_now env w"] assms unfolding rel_past by (simp add: in_time_def)

lemma sys_timeout_cyclic:
  assumes wf: "tos_wf (L - 2 ^ 30) K s" and i: "i < 7" "1 \<le> i" "cyclic_key i \<notin> K" and w: "sys_now env (world s) = L"
  shows "\<exists>s'. sys_timeout env (lwip_cyclic_timers ! i) Lwip_cyclic_timer i s = Some s' \<and>
    tos_wf (L - 2 ^ 30) (insert (cyclic_key i) K) s' \<and> world s' = world s \<and>
    tcpip_tcp_timer_active s' = tcpip_tcp_timer_active s \<and>
    entries s' = add_mset (cyclic_key i, L + lwip_cyclic_timers ! i) (entries s) \<and>
    late (L - 2 ^ 30) (cyclic_key i, L + lwip_cyclic_timers ! i)"
proof -
  let ?d = "lwip_cyclic_timers ! i"
  have d: "0 < unat ?d" "unat ?d \<le> 60000" using interval_bounds[OF i(1)] by auto
  have t: "rel (L - 2 ^ 30) (L + ?d) = 2 ^ 30 + unat ?d"
    using rel_add[of "L - 2 ^ 30" L ?d] d unfolding rel_past by simp
  have k: "cyclic_key i \<in> all_keys - K" using i by (auto simp: all_keys_def)
  have "rel (L - 2 ^ 30) (L + ?d) \<le> far" using t d by (simp add: far_def)
  from sys_timeout_abs_ok[OF wf k this] show ?thesis
    using d t w by (auto simp: sys_timeout_def word_le_nat_alt)
qed

lemma start_timers_ok:
  assumes "tos_wf (L - 2 ^ 30) K s" "sys_now env (world s) = L" "distinct is" "set is \<subseteq> {1..<7}"
    "\<forall>i\<in>set is. cyclic_key i \<notin> K" "\<forall>e\<in>#entries s. late (L - 2 ^ 30) e"
  shows "\<exists>s'. start_timers env is s = Some s' \<and> tos_wf (L - 2 ^ 30) (K \<union> cyclic_key ` set is) s' \<and>
    world s' = world s \<and> tcpip_tcp_timer_active s' = tcpip_tcp_timer_active s \<and>
    (\<forall>e\<in>#entries s'. late (L - 2 ^ 30) e)"
  using assms
proof (induction "is" arbitrary: K s)
  case (Cons i js)
  then obtain s1 where s1: "sys_timeout env (lwip_cyclic_timers ! i) Lwip_cyclic_timer i s = Some s1"
      "tos_wf (L - 2 ^ 30) (insert (cyclic_key i) K) s1" "world s1 = world s"
      "tcpip_tcp_timer_active s1 = tcpip_tcp_timer_active s" "\<forall>e\<in>#entries s1. late (L - 2 ^ 30) e"
    using sys_timeout_cyclic[OF Cons.prems(1), of i env] by auto
  have "\<exists>s'. start_timers env js s1 = Some s' \<and> tos_wf (L - 2 ^ 30) (insert (cyclic_key i) K \<union> cyclic_key ` set js) s' \<and>
      world s' = world s1 \<and> tcpip_tcp_timer_active s' = tcpip_tcp_timer_active s1 \<and>
      (\<forall>e\<in>#entries s'. late (L - 2 ^ 30) e)"
    by (rule Cons.IH[OF s1(2)]) (use Cons.prems s1 in auto)
  then show ?case using s1 by simp
qed auto

lemma boot_ok:
  assumes "next_timeout s = []" "\<not> tcpip_tcp_timer_active s" "sys_pool s = memp_init_pool p"
    "pnum p = 8" "psize p mod 4 = 0" "0 < psize p" "st_used p = 0"
  shows "\<exists>s'. sys_timeouts_init env s = Some s' \<and> reach_inv env (sys_now env (world s)) s'"
proof -
  let ?B = "sys_now env (world s) - 2 ^ 30"
  have "mp.owns [] (sys_pool s)" using init_pool_wf[of p] assms by (simp add: mp.owns_def init_pool_tab)
  moreover have "pnum (memp_init_pool p) = 8" using assms by (simp add: memp_init_pool_def)
  ultimately have wf: "tos_wf ?B {} s" using assms by (simp add: tos_wf_def)
  have "\<exists>s'. start_timers env [1..<7] s = Some s' \<and> tos_wf ?B ({} \<union> cyclic_key ` set [1..<7]) s' \<and>
      world s' = world s \<and> tcpip_tcp_timer_active s' = tcpip_tcp_timer_active s \<and> (\<forall>e\<in>#entries s'. late ?B e)"
    by (rule start_timers_ok[OF wf]) (use assms in \<open>auto simp: entries_def\<close>)
  moreover have "length lwip_cyclic_timers = 7" by (simp add: lwip_cyclic_timers_def)
  moreover have "in_time env ?B (world s)" by (rule in_time_iff) (simp add: rel_def)
  ultimately show ?thesis using assms(2)
    by (auto simp: sys_timeouts_init_def reach_inv_def tinv_def expected_def simp del: upt_rec_numeral)
qed

lemma wsum_le: "wsum base M \<le> 2 * size M"
  by (induction M) (auto simp: weight_def)

lemma rebase:
  assumes "tos_wf base K s" "\<forall>t\<in>set (next_timeout s). rel base' (to_time t) + c = rel base (to_time t)"
  shows "tos_wf base' K s"
proof -
  have "sorted (map (\<lambda>t. rel base' (to_time t) + c) (next_timeout s))"
    using assms by (simp add: tos_wf_def comp_def cong: map_cong)
  then have "sorted (map (rel base' \<circ> to_time) (next_timeout s))" by (simp add: sorted_map)
  moreover have "\<forall>t\<in>set (next_timeout s). rel base' (to_time t) \<le> far"
    using assms by (fastforce simp: tos_wf_def)
  ultimately show ?thesis using assms(1) by (simp add: tos_wf_def)
qed

lemma check_ok:
  assumes env: "prompt env" and inv: "reach_inv env L s"
  defines "now \<equiv> sys_now env (world s)"
  shows "\<exists>r s'. sys_check_timeouts env s = Some (r, s') \<and> checked env (now - 2 ^ 30) now s r s' \<and> reach_inv env now s' \<and>
    tinv (now - 2 ^ 30) {} s"
proof -
  let ?B = "L - 2 ^ 30" and ?C = "now - 2 ^ 30"
  have w: "2 ^ 30 \<le> rel ?B now" "rel ?B now \<le> 2 ^ 30 + 2 ^ 29"
    using inv by (auto simp: reach_inv_def in_time_def now_def)
  have "rel L now = rel ?B now - 2 ^ 30" using rel_back[of ?B L now] w unfolding rel_past by simp
  moreover have c: "rel ?B ?C = rel L now" by (simp add: rel_def algebra_simps)
  ultimately have C: "rel ?B ?C \<le> 2 ^ 29" using w by simp
  have shift: "rel ?C (snd e) + rel ?B ?C = rel ?B (snd e)" if "e \<in># entries s" for e
    using rel_back[of ?B ?C "snd e"] C inv that by (force simp: reach_inv_def)
  have "\<forall>t\<in>set (next_timeout s). rel ?C (to_time t) + rel ?B ?C = rel ?B (to_time t)"
    using shift[of "entry t" for t] by (simp add: entries_def entry_def)
  then have "tos_wf ?C (expected (tcpip_tcp_timer_active s)) s"
    using rebase[of ?B _ s ?C] inv by (simp add: reach_inv_def tinv_def)
  then have t: "tinv ?C {} s" and len: "size (entries s) \<le> 7"
    using tos_length[of ?C _ s] by (auto simp: tinv_def entries_def)
  have "wsum ?C (entries s) \<le> 14" using wsum_le[of ?C "entries s"] len by simp
  then have "\<exists>r s'. check_loop env now s = Some (r, s') \<and> checked env ?C now s r s'"
    by (intro check_loop_ok[OF t env]) (use rel_past in \<open>simp_all add: now_def\<close>)
  then show ?thesis using t by (auto simp: sys_check_timeouts_def now_def checked_def reach_inv_def)
qed

lemma reach_reach_inv:
  assumes env: "prompt env" and "reach env L s"
  shows "reach_inv env L s"
  using assms(2)
proof induction
  case (boot s p s')
  then show ?case using boot_ok[of s p env] by auto
next
  case (poll L s r s')
  then show ?case using check_ok[OF env poll.IH] by auto
next
  case (need L s s')
  then show ?case using tcp_timer_needed_ok[of "L - 2 ^ 30" "{}" s env] by (fastforce simp: reach_inv_def)
next
  case (run L s w)
  then show ?case using in_time_iff[OF run.hyps(2)] tos_wf_cong[of "s\<lparr>world := w\<rparr>" s]
    by (simp add: reach_inv_def tinv_def entries_def)
qed


lemma tos_wf_sorted:
  assumes "tos_wf base K s"
  shows "sorted_wrt (\<lambda>a b. \<not> TIME_LESS_THAN (to_time b) (to_time a)) (next_timeout s)"
proof (rule sorted_wrt_mono_rel)
  show "sorted_wrt (\<lambda>a b. rel base (to_time a) \<le> rel base (to_time b)) (next_timeout s)"
    using assms by (simp add: tos_wf_def sorted_map)
  show "\<not> TIME_LESS_THAN (to_time b) (to_time a)"
    if ab: "a \<in> set (next_timeout s)" "b \<in> set (next_timeout s)" "rel base (to_time a) \<le> rel base (to_time b)" for a b
  proof -
    have "rel base (to_time a) \<le> far" "rel base (to_time b) \<le> far" using assms ab(1,2) by (auto simp: tos_wf_def)
    then show ?thesis using time_less_rel[of base "to_time b" "to_time a"] ab(3) by (simp add: far_def)
  qed
qed

text \<open>The system the witnesses run: each timer function takes a millisecond, no connection is open.\<close>

definition idle_env :: "u32 env" where
  "idle_env = \<lparr>sys_now = id, tcp_pcbs = (\<lambda>_. False), free_ooseq = id, tmr_fn = (\<lambda>_ w. ([], w + 1))\<rparr>"

definition idle_pool :: pool where
  "idle_pool = \<lparr>tab = [], pbase = 1000, psize = 16, pnum = 8, st_avail = 0, st_used = 0, st_max = 0, st_err = 0\<rparr>"

definition idle_start :: "u32 tstate" where
  "idle_start = \<lparr>next_timeout = [], current_timeout_due_time = 0, tcpip_tcp_timer_active = False,
     sys_pool = memp_init_pool idle_pool, world = 0xffffff00\<rparr>"

lemma idle_prompt: "prompt idle_env"
  by (simp add: prompt_def idle_env_def rel_def)

lemma idle_reach: "\<exists>s. reach idle_env 0xffffff00 s \<and> world s = 300"
proof -
  obtain s where "sys_timeouts_init idle_env idle_start = Some s"
    using boot_ok[of idle_start idle_pool idle_env] by (auto simp: idle_start_def idle_pool_def)
  then have "reach idle_env (sys_now idle_env (world idle_start)) s"
    by (intro boot[of idle_start idle_pool]) (simp_all add: idle_start_def idle_pool_def)
  then have "reach idle_env 0xffffff00 s" by (simp add: idle_env_def idle_start_def)
  then have "reach idle_env 0xffffff00 (s\<lparr>world := 300\<rparr>)"
    by (rule run) (simp add: rel_def idle_env_def)
  then show ?thesis by (intro exI[of _ "s\<lparr>world := 300\<rparr>"]) simp
qed

section \<open>Properties\<close>

text \<open>
  C35: No timer is lost or doubled. In every reachable state each of the six cyclic timers is
  scheduled exactly once, and the TCP timer exactly if it is marked active; the list is sorted
  by the wrapping comparison. Every entry of the list owns its element of the pool: the elements
  of the entries are distinct, none of them is on the free list, and together with the free
  list they are all eight elements of the pool. One of them is always free, so that the assertion on an
  empty pool cannot fail. This holds while the clock does not jump, every timer function returns
  within two hours, and checks are at most six days apart.
\<close>

theorem timers_kept:
  assumes "prompt env" "reach env L s"
  shows "distinct (map key (next_timeout s)) \<and>
    set (map key (next_timeout s)) =
      (\<lambda>i. (Some Lwip_cyclic_timer, i)) ` {1..<7} \<union>
      (if tcpip_tcp_timer_active s then {(Some Tcpip_tcp_timer, 0)} else {}) \<and>
    sorted_wrt (\<lambda>a b. \<not> TIME_LESS_THAN (to_time b) (to_time a)) (next_timeout s) \<and>
    distinct (map to_self (next_timeout s) @ tab (sys_pool s)) \<and>
    set (map to_self (next_timeout s) @ tab (sys_pool s)) = set (elems (sys_pool s)) \<and>
    card (set (elems (sys_pool s))) = 8 \<and> tab (sys_pool s) \<noteq> []"
proof -
  have wf: "tos_wf (L - 2 ^ 30) (expected (tcpip_tcp_timer_active s)) s"
    using reach_reach_inv[OF assms] by (simp add: reach_inv_def tinv_def)
  have own: "mp.owns (map to_self (next_timeout s)) (sys_pool s)" "pnum (sys_pool s) = 8"
    using wf by (auto simp: tos_wf_def)
  have pool: "distinct (map to_self (next_timeout s) @ tab (sys_pool s))"
      "set (map to_self (next_timeout s) @ tab (sys_pool s)) = set (elems (sys_pool s))"
      "card (set (elems (sys_pool s))) = 8"
    using own distinct_elems[of "sys_pool s"] by (auto simp: mp.owns_def pool_wf_def distinct_card)
  have "tab (sys_pool s) \<noteq> []" using owns_length[OF own(1)] own(2) tos_length[OF wf] by auto
  then show ?thesis using wf pool tos_wf_sorted[OF wf] by (simp add: tos_wf_def expected_def)
qed

theorem timers_kept_witness:
  "\<exists>s. prompt idle_env \<and> reach idle_env 0xffffff00 s \<and> world s = 300 \<and> distinct (map key (next_timeout s)) \<and>
     set (map key (next_timeout s)) =
       (\<lambda>i. (Some Lwip_cyclic_timer, i)) ` {1..<7} \<union>
       (if tcpip_tcp_timer_active s then {(Some Tcpip_tcp_timer, 0)} else {}) \<and>
     distinct (map to_self (next_timeout s) @ tab (sys_pool s))"
proof -
  obtain s where s: "reach idle_env 0xffffff00 s" "world s = 300" using idle_reach by blast
  from timers_kept[OF idle_prompt s(1)] show ?thesis using s idle_prompt by blast
qed

text \<open>
  C36: \<open>sys_check_timeouts\<close> returns from every reachable state, although handlers put new entries
  on the list it works off. At its return no timer is due at the time the call began, timers
  that were not due are still scheduled for their time, and the result is the time from the
  beginning of the call to the next timer. As before, the clock does not jump, every timer
  function returns within two hours, and checks are at most six days apart.
\<close>

theorem check_timeouts_returns:
  assumes "prompt env" "reach env L s"
  shows "\<exists>r s'. sys_check_timeouts env s = Some (r, s') \<and>
    (\<forall>t\<in>set (next_timeout s'). TIME_LESS_THAN (sys_now env (world s)) (to_time t) \<and>
       r \<le> to_time t - sys_now env (world s)) \<and>
    (\<exists>t\<in>set (next_timeout s'). r = to_time t - sys_now env (world s)) \<and>
    (\<forall>t\<in>set (next_timeout s). TIME_LESS_THAN (sys_now env (world s)) (to_time t) \<longrightarrow>
       (\<exists>t'\<in>set (next_timeout s'). key t' = key t \<and> to_time t' = to_time t))"
proof -
  let ?now = "sys_now env (world s)" and ?C = "sys_now env (world s) - 2 ^ 30"
  obtain r s' where run: "sys_check_timeouts env s = Some (r, s')" and ck: "checked env ?C ?now s r s'"
      and wf: "tinv ?C {} s" "tinv ?C {} s'"
    using check_ok[OF assms(1) reach_reach_inv[OF assms]] by (auto simp: checked_def)
  have less: "TIME_LESS_THAN ?now (to_time t) \<longleftrightarrow> late ?C (entry t)"
    if "t \<in> set (next_timeout s) \<union> set (next_timeout s')" for t
    using time_less_rel[of ?C ?now "to_time t"] that wf unfolding rel_past
    by (fastforce simp: tinv_def tos_wf_def far_def entry_def)
  have new: "\<forall>t\<in>set (next_timeout s'). late ?C (entry t) \<and> r \<le> to_time t - ?now"
    "\<exists>t\<in>set (next_timeout s'). r = to_time t - ?now"
    "\<forall>t\<in>set (next_timeout s). late ?C (entry t) \<longrightarrow> entry t \<in> entry ` set (next_timeout s')"
    using ck by (auto simp: checked_def entries_def entry_def rel_def word_le_nat_alt word_unat_eq_iff)
  show ?thesis
  proof (intro exI conjI ballI impI)
    fix t assume "t \<in> set (next_timeout s)" "TIME_LESS_THAN ?now (to_time t)"
    then have "entry t \<in> entry ` set (next_timeout s')" using new(3) less by blast
    then show "\<exists>t'\<in>set (next_timeout s'). key t' = key t \<and> to_time t' = to_time t" by (auto simp: entry_def)
  qed (use run new less in auto)
qed

theorem check_timeouts_returns_witness:
  "\<exists>s r s'. world s = (300 :: u32) \<and> sys_check_timeouts idle_env s = Some (r, s') \<and>
     (\<forall>t\<in>set (next_timeout s'). TIME_LESS_THAN 300 (to_time t))"
proof -
  obtain s where s: "reach idle_env 0xffffff00 s" "world s = 300" using idle_reach by blast
  have "sys_now idle_env (world s) = 300" using s(2) by (simp add: idle_env_def)
  with check_timeouts_returns[OF idle_prompt s(1)] s(2) show ?thesis by metis
qed

lemma untimeout_append:
  "\<forall>u\<in>set xs. \<not> (to_h u = Some handler \<and> to_arg u = arg) \<Longrightarrow> to_h t = Some handler \<Longrightarrow> to_arg t = arg \<Longrightarrow>
   untimeout_list handler arg (xs @ t # ys) = (Some t, xs @ ys)"
  by (induction xs) auto

text \<open>
  C37: Scheduling and cancelling are inverse. If the handler is not yet scheduled with this
  argument and the pool has a free element, \<open>sys_timeout_abs\<close> puts it behind the entries that are
  not later and ahead of the first later one, and \<open>sys_untimeout\<close> then restores the list and the
  pool but for the high-water mark of its statistics.
\<close>

theorem timeout_untimeout:
  assumes "tab (sys_pool s) = a # t" "a mod 4 = 0"
    and "\<forall>u\<in>set (next_timeout s). \<not> (to_h u = Some handler \<and> to_arg u = arg)"
  shows "\<exists>s' m before after. sys_timeout_abs abs_time handler arg s = Some s' \<and>
    next_timeout s = before @ after \<and>
    next_timeout s' = before @ \<lparr>to_self = a, to_time = abs_time, to_h = Some handler, to_arg = arg\<rparr> # after \<and>
    (\<forall>u\<in>set before. \<not> TIME_LESS_THAN abs_time (to_time u)) \<and>
    (after \<noteq> [] \<longrightarrow> TIME_LESS_THAN abs_time (to_time (hd after))) \<and>
    sys_untimeout handler arg s' = Some (s\<lparr>sys_pool := (sys_pool s)\<lparr>st_max := m\<rparr>\<rparr>)"
proof -
  let ?new = "\<lparr>to_self = a, to_time = abs_time, to_h = Some handler, to_arg = arg\<rparr>"
  let ?P = "\<lambda>u. \<not> TIME_LESS_THAN abs_time (to_time u)"
  let ?b = "takeWhile ?P (next_timeout s)" and ?a = "dropWhile ?P (next_timeout s)"
  obtain p where m: "do_memp_malloc_pool (sys_pool s) = Some (Some a, p)"
      "do_memp_free_pool a p = Some ((sys_pool s)\<lparr>st_max := st_max p\<rparr>)"
    using assms(1,2) by (simp add: do_memp_malloc_pool_def do_memp_free_pool_def Let_def)
  define s' where "s' = s\<lparr>sys_pool := p, next_timeout := ?b @ ?new # ?a\<rparr>"
  have run: "sys_timeout_abs abs_time handler arg s = Some s'"
    using insert_ins[of ?new "next_timeout s"] m(1) by (simp add: sys_timeout_abs_def s'_def ins_def)
  have "untimeout_list handler arg (?b @ ?new # ?a) = (Some ?new, ?b @ ?a)"
    using assms(3) by (intro untimeout_append) (auto dest: set_takeWhileD)
  then have "sys_untimeout handler arg s' = Some (s\<lparr>sys_pool := (sys_pool s)\<lparr>st_max := st_max p\<rparr>\<rparr>)"
    using m(2) by (simp add: sys_untimeout_def s'_def)
  moreover have "\<forall>u\<in>set ?b. ?P u" "?a \<noteq> [] \<longrightarrow> TIME_LESS_THAN abs_time (to_time (hd ?a))"
    using hd_dropWhile[of ?P "next_timeout s"] by (auto dest: set_takeWhileD)
  ultimately show ?thesis using run by (intro exI[of _ s'] exI[of _ "st_max p"] exI[of _ ?b] exI[of _ ?a])
      (simp add: s'_def)
qed

theorem timeout_untimeout_witness:
  "\<exists>s' m. sys_timeout_abs 5 Tcpip_tcp_timer 0 idle_start = Some s' \<and>
     sys_untimeout Tcpip_tcp_timer 0 s' = Some (idle_start\<lparr>sys_pool := (sys_pool idle_start)\<lparr>st_max := m\<rparr>\<rparr>)"
proof -
  have "tab (sys_pool idle_start) = 1112 # [1096, 1080, 1064, 1048, 1032, 1016, 1000]"
    by (simp add: idle_start_def init_pool_tab elems_def idle_pool_def upt_rec)
  from timeout_untimeout[OF this, of Tcpip_tcp_timer 0 5] show ?thesis by (auto simp: idle_start_def)
qed

end
