(* ===== verification/KHeap.thy ===== *)
theory KHeap
  imports Uart Arena
begin

text \<open>
  The kernel heap, \<open>src/src/heap.c\<close>: a bump allocator over one region of RAM. Pointers
  are 32-bit words and \<open>heap_ptr + sz\<close> wraps as it does on the machine. A null result is
  the word 0.
\<close>

record heap =
  heap_ptr :: u32
  heap_end :: u32
  used :: u32

definition heap_init :: "u32 \<Rightarrow> u32 \<Rightarrow> uart \<Rightarrow> (heap \<times> uart) option" where
  "heap_init start sz u = do {
     let h = \<lparr>heap_ptr = start, heap_end = start + sz, used = 0\<rparr>;
     u \<leftarrow> uart_println (lit ''HEAP INIT'') u;
     Some (h, u)
   }"

definition kmalloc :: "u32 \<Rightarrow> heap \<Rightarrow> uart \<Rightarrow> (u32 \<times> heap \<times> uart) option" where
  "kmalloc sz h u =
     (if heap_ptr h + sz \<ge> heap_end h then Some (0, h, u)
      else do {
        let p = heap_ptr h;
        let h = h\<lparr>heap_ptr := heap_ptr h + sz\<rparr>;
        let h = h\<lparr>used := used h + sz\<rparr>;
        u \<leftarrow> uart_println (lit ''KMALLOC'') u;
        Some (p, h, u)
      })"

definition heap_used :: "heap \<Rightarrow> u32" where
  "heap_used h = used h"

text \<open>A sequence of requests, with the pointers returned.\<close>

fun kmalloc_all :: "u32 list \<Rightarrow> heap \<Rightarrow> uart \<Rightarrow> (u32 list \<times> heap \<times> uart) option" where
  "kmalloc_all [] h u = Some ([], h, u)"
| "kmalloc_all (n # ns) h u = do {
     (p, h, u) \<leftarrow> kmalloc n h u;
     (ps, h, u) \<leftarrow> kmalloc_all ns h u;
     Some (p # ps, h, u)
   }"

section \<open>The allocator contract\<close>

definition heap_inv :: "heap \<Rightarrow> bool" where
  "heap_inv h \<longleftrightarrow> heap_ptr h \<le> heap_end h"

definition heap_avail :: "heap \<Rightarrow> nat set" where
  "heap_avail h = {unat (heap_ptr h) ..< unat (heap_end h)}"

text \<open>The requests for which the pointer sum does not wrap around the address space.\<close>

definition no_wrap :: "u32 \<Rightarrow> heap \<Rightarrow> bool" where
  "no_wrap sz h \<longleftrightarrow> unat (heap_ptr h) + unat sz < 2 ^ 32"

text \<open>The effect of \<open>kmalloc\<close> on the heap alone, as a block of the arena contract.\<close>

definition heap_alloc :: "u32 \<Rightarrow> heap \<Rightarrow> block option \<times> heap" where
  "heap_alloc sz h =
     (if heap_ptr h + sz \<ge> heap_end h then (None, h)
      else (Some (unat (heap_ptr h), unat sz),
            h\<lparr>heap_ptr := heap_ptr h + sz, used := used h + sz\<rparr>))"

lemma unat_ptr_add: "no_wrap n h \<Longrightarrow> unat (heap_ptr h + n) = unat (heap_ptr h) + unat n"
  by (simp add: no_wrap_def unat_word_ariths)

interpretation kheap: arena heap_inv heap_avail no_wrap heap_alloc
proof (unfold_locales, goal_cases)
  case (1 s r b s')
  then have s': "\<not> heap_ptr s + r \<ge> heap_end s" "b = (unat (heap_ptr s), unat r)"
      "s' = s\<lparr>heap_ptr := heap_ptr s + r, used := used s + r\<rparr>"
    by (auto simp: heap_alloc_def split: if_splits)
  with unat_ptr_add[OF 1(2)] have "unat (heap_ptr s) + unat r < unat (heap_end s)"
    by (simp add: not_le word_less_nat_alt)
  with s' unat_ptr_add[OF 1(2)] show ?case
    by (auto simp: heap_inv_def heap_avail_def extent_def word_le_nat_alt)
next
  case (2 s r s')
  then show ?case by (auto simp: heap_alloc_def split: if_splits)
qed

lemma kmalloc_heap_alloc:
  assumes "live u"
  shows "\<exists>u'. kmalloc n h u =
      Some (case fst (heap_alloc n h) of None \<Rightarrow> 0 | Some b \<Rightarrow> heap_ptr h, snd (heap_alloc n h), u')
    \<and> live u'"
proof -
  obtain u' where "uart_println (lit ''KMALLOC'') u = Some u'" "live u'"
    using uart_println_lit[OF assms] .
  with assms show ?thesis by (auto simp: kmalloc_def heap_alloc_def Let_def)
qed

text \<open>The blocks granted by a sequence of requests: a null pointer grants nothing.\<close>

definition granted :: "u32 list \<Rightarrow> u32 list \<Rightarrow> block list" where
  "granted ps ns = map (\<lambda>(p, n). (unat p, unat n)) (filter (\<lambda>(p, n). p \<noteq> 0) (zip ps ns))"

lemma granted_Nil [simp]: "granted [] [] = []"
  by (simp add: granted_def)

lemma granted_Cons [simp]:
  "granted (p # ps) (n # ns) = (if p = 0 then granted ps ns else (unat p, unat n) # granted ps ns)"
  by (simp add: granted_def)

lemma heap_alloc_end [simp]: "heap_end (snd (heap_alloc n h)) = heap_end h"
  by (simp add: heap_alloc_def)

lemma heap_alloc_ptr_pos:
  assumes "no_wrap n h" "0 < heap_ptr h"
  shows "0 < heap_ptr (snd (heap_alloc n h))"
  using unat_ptr_add[OF assms(1)] assms(2)
  by (auto simp: heap_alloc_def word_less_nat_alt)

lemma heap_inv_no_wrap: "heap_inv h \<Longrightarrow> unat (heap_end h) + unat n < 2 ^ 32 \<Longrightarrow> no_wrap n h"
  by (simp add: heap_inv_def no_wrap_def word_le_nat_alt)

lemma kmalloc_all_alloc_all:
  assumes "live u" "heap_inv h" "0 < heap_ptr h"
    and "\<forall>n \<in> set ns. unat (heap_end h) + unat n < 2 ^ 32"
  shows "\<exists>ps h' u'. kmalloc_all ns h u = Some (ps, h', u') \<and>
    kheap.alloc_all ns h = (granted ps ns, h') \<and> kheap.admissible_all ns h \<and>
    used h' = used h + of_nat (sum_list (map snd (granted ps ns)))"
  using assms
proof (induction ns arbitrary: h u)
  case Nil
  then show ?case by simp
next
  case (Cons n ns)
  let ?h = "snd (heap_alloc n h)"
  have nw: "no_wrap n h" using Cons.prems by (simp add: heap_inv_no_wrap)
  obtain u1 where u1: "kmalloc n h u =
      Some (case fst (heap_alloc n h) of None \<Rightarrow> 0 | Some b \<Rightarrow> heap_ptr h, ?h, u1)" "live u1"
    using kmalloc_heap_alloc[OF Cons.prems(1)] by blast
  have "heap_inv ?h"
    using kheap.alloc_Some[OF Cons.prems(2) nw] kheap.alloc_None[OF Cons.prems(2) nw]
    by (metis option.exhaust prod.collapse)
  with Cons.IH[OF u1(2), of ?h] Cons.prems heap_alloc_ptr_pos[OF nw]
  obtain ps h' u' where ih: "kmalloc_all ns ?h u1 = Some (ps, h', u')"
      "kheap.alloc_all ns ?h = (granted ps ns, h')" "kheap.admissible_all ns ?h"
      "used h' = used ?h + of_nat (sum_list (map snd (granted ps ns)))"
    by auto
  show ?case
    using ih u1(1) nw Cons.prems(3)
    by (cases "heap_ptr h + n \<ge> heap_end h") (auto simp: heap_alloc_def[of n h])
qed

section \<open>Properties of the kernel heap\<close>

text \<open>
  C3: Every sequence of \<open>kmalloc\<close> requests whose sizes do not wrap the address space
  returns; the blocks it grants are pairwise disjoint and lie between \<open>heap_ptr\<close> and
  \<open>heap_end\<close>, and \<open>used\<close> grows by exactly the bytes granted.
\<close>

theorem kmalloc_blocks_disjoint:
  assumes "live u" "heap_inv h" "0 < heap_ptr h"
    and "\<forall>n \<in> set ns. unat (heap_end h) + unat n < 2 ^ 32"
  shows "\<exists>ps h' u'. kmalloc_all ns h u = Some (ps, h', u') \<and>
    disjoint_blocks (granted ps ns) \<and>
    (\<forall>b \<in> set (granted ps ns). extent b \<subseteq> heap_avail h) \<and>
    heap_used h' = heap_used h + of_nat (sum_list (map snd (granted ps ns)))"
proof -
  obtain ps h' u' where r: "kmalloc_all ns h u = Some (ps, h', u')"
      "kheap.alloc_all ns h = (granted ps ns, h')" "kheap.admissible_all ns h"
      "used h' = used h + of_nat (sum_list (map snd (granted ps ns)))"
    using kmalloc_all_alloc_all[OF assms] by blast
  from kheap.alloc_all_sound[OF assms(2) r(3,2)] r(1,4) show ?thesis
    by (auto simp: heap_used_def)
qed

text \<open>
  The heap that \<open>heap_init\<close> sets up over 8 KiB, as \<open>main\<close> calls it. The address is an example:
  \<open>_sheap\<close> is a symbol of the linker.
\<close>

definition boot_heap :: heap where
  "boot_heap = \<lparr>heap_ptr = 0x20004000, heap_end = 0x20006000, used = 0\<rparr>"

theorem kmalloc_blocks_disjoint_witness:
  "live idle_uart \<and> heap_inv boot_heap \<and>
   (\<exists>ps h' u'. kmalloc_all [100, 28, 9000] boot_heap idle_uart = Some (ps, h', u') \<and>
     disjoint_blocks (granted ps [100, 28, 9000]) \<and>
     (\<forall>b \<in> set (granted ps [100, 28, 9000]). extent b \<subseteq> heap_avail boot_heap) \<and>
     heap_used h' = heap_used boot_heap + of_nat (sum_list (map snd (granted ps [100, 28, 9000]))))"
proof -
  have inv: "heap_inv boot_heap" "0 < heap_ptr boot_heap"
    by (simp_all add: heap_inv_def boot_heap_def)
  have "\<forall>n \<in> set [100 :: u32, 28, 9000]. unat (heap_end boot_heap) + unat n < 2 ^ 32"
    by (simp add: boot_heap_def)
  from kmalloc_blocks_disjoint[OF live_idle_uart inv this] inv(1) show ?thesis by simp
qed

text \<open>
  C6: \<open>kmalloc\<close> does not notice that the sum of pointer and size wraps. Whenever it does and the
  wrapped sum lies below \<open>heap_end\<close>, the request is granted although it is larger than what is
  left, and the next request that fits below \<open>heap_end\<close> is granted memory that starts below the
  heap: neither block lies inside what was available.
\<close>

theorem kmalloc_wraps:
  assumes "live u" "heap_inv h" and wrap: "2 ^ 32 \<le> unat (heap_ptr h) + unat sz"
    and "heap_ptr h + sz < heap_end h"
    and n: "0 < n" "unat (heap_ptr h + sz) + unat n < unat (heap_end h)"
  shows "\<exists>h1 u1 h2 u2. kmalloc sz h u = Some (heap_ptr h, h1, u1) \<and>
    kmalloc n h1 u1 = Some (heap_ptr h + sz, h2, u2) \<and> heap_ptr h + sz < heap_ptr h \<and>
    \<not> extent (unat (heap_ptr h), unat sz) \<subseteq> heap_avail h \<and>
    \<not> extent (unat (heap_ptr h + sz), unat n) \<subseteq> heap_avail h"
proof -
  let ?p = "heap_ptr h + sz"
  have p: "unat ?p + 2 ^ 32 = unat (heap_ptr h) + unat sz"
    using wrap unat_plus_if_size[of "heap_ptr h" sz] by (simp add: word_size)
  then have less: "unat ?p < unat (heap_ptr h)" using unat_u32_lt[of sz] by simp
  have sum: "unat (?p + n) = unat ?p + unat n"
    using unat_add_small[of ?p n] n(2) unat_u32_lt[of "heap_end h"] by simp
  define h1 where "h1 = h\<lparr>heap_ptr := ?p, used := used h + sz\<rparr>"
  have "heap_alloc sz h = (Some (unat (heap_ptr h), unat sz), h1)"
    using assms(4) by (simp add: heap_alloc_def h1_def not_le)
  then obtain u1 where u1: "kmalloc sz h u = Some (heap_ptr h, h1, u1)" "live u1"
    using kmalloc_heap_alloc[OF assms(1), of sz h] by auto
  have "\<not> heap_ptr h1 + n \<ge> heap_end h1" "heap_ptr h1 = ?p" using sum n(2) by (simp_all add: h1_def word_le_nat_alt)
  then obtain h2 u2 where "kmalloc n h1 u1 = Some (?p, h2, u2)"
    using kmalloc_heap_alloc[OF u1(2), of n h1] by (auto simp: heap_alloc_def)
  moreover have "unat (heap_end h) \<in> extent (unat (heap_ptr h), unat sz)"
    using assms(2) p n(2) wrap unat_u32_lt[of "heap_end h"] by (auto simp: extent_def heap_inv_def word_le_nat_alt)
  moreover have "unat ?p \<in> extent (unat ?p, unat n)" using n(1) by (simp add: extent_def word_less_nat_alt)
  ultimately show ?thesis using u1(1) less n(2) by (auto simp: heap_avail_def word_less_nat_alt)
qed

theorem kmalloc_wraps_witness:
  "\<exists>h1 u1 h2 u2. kmalloc 0xF0000000 boot_heap idle_uart = Some (heap_ptr boot_heap, h1, u1) \<and>
     kmalloc 16 h1 u1 = Some (0x10004000, h2, u2) \<and>
     \<not> extent (0x10004000, 16) \<subseteq> heap_avail boot_heap"
  using kmalloc_wraps[OF live_idle_uart, of boot_heap "0xF0000000" 16]
  by (auto simp: boot_heap_def heap_inv_def)

end
