(* ===== verification/Rtc.thy ===== *)
theory Rtc
  imports Prelude
begin

text \<open>
  The clock, \<open>src/src/rtc.c\<close>: general-purpose timer 0 counts down from \<open>0xFFFFFFFF\<close>
  at 50 MHz and \<open>rtc_get_time\<close> turns the elapsed cycles into a broken-down time. The
  registers are the record \<open>timer0\<close>; \<open>tav\<close> is the value of the counter when it is read.
  \<open>struct rtc_time\<close> is that of \<open>src/include/linux/rtc.h\<close>.
\<close>

record timer0 =
  rcgc1 :: u32
  tcfg :: u32
  tamr :: u32
  tctl :: u32
  tailr :: u32
  tav :: u32
  start_time_seconds :: u32

record rtc_time =
  tm_sec :: int
  tm_min :: int
  tm_hour :: int
  tm_mday :: int
  tm_mon :: int
  tm_year :: int
  tm_wday :: int
  tm_yday :: int
  tm_isdst :: int

definition rtc_init :: "timer0 \<Rightarrow> timer0" where
  "rtc_init t =
     (let t = t\<lparr>rcgc1 := rcgc1 t OR 0x00010000\<rparr>;
          t = t\<lparr>tctl := tctl t AND NOT 1\<rparr>;
          t = t\<lparr>tcfg := 0\<rparr>;
          t = t\<lparr>tamr := 2\<rparr>;
          t = t\<lparr>tailr := 0xFFFFFFFF\<rparr>;
          t = t\<lparr>tctl := tctl t OR 1\<rparr>
      in t\<lparr>start_time_seconds := 0\<rparr>)"

definition rtc_get_seconds :: "timer0 \<Rightarrow> u32" where
  "rtc_get_seconds t =
     (let current_val = tav t;
          elapsed_cycles = 0xFFFFFFFF - current_val
      in elapsed_cycles div 50000000)"

definition rtc_get_time :: "timer0 \<Rightarrow> rtc_time \<Rightarrow> rtc_time" where
  "rtc_get_time tmr tm =
     (let t = rtc_get_seconds tmr;
          tm = tm\<lparr>tm_sec := uint (t mod 60)\<rparr>;
          t = t div 60;
          tm = tm\<lparr>tm_min := uint (t mod 60)\<rparr>;
          t = t div 60;
          tm = tm\<lparr>tm_hour := uint (t mod 24)\<rparr>;
          t = t div 24;
          tm = tm\<lparr>tm_mday := uint ((t mod 30) + 1)\<rparr>;
          tm = tm\<lparr>tm_mon := uint ((t div 30) mod 12)\<rparr>
      in tm\<lparr>tm_year := uint ((t div 365) + 126)\<rparr>)"

section \<open>The clock shows the time since boot, modulo the period of the counter\<close>

lemma unat_rtc_get_seconds:
  "unat (rtc_get_seconds t) = (2 ^ 32 - 1 - unat (tav t)) div 50000000"
proof -
  have "unat (0xFFFFFFFF - tav t) = 2 ^ 32 - 1 - unat (tav t)"
    using unat_u32_lt[of "tav t"] by (subst unat_sub) (simp_all add: word_le_nat_alt)
  then show ?thesis
    by (simp add: rtc_get_seconds_def Let_def unat_div)
qed

lemma rtc_get_seconds_le: "unat (rtc_get_seconds t) \<le> 85"
proof -
  have "(2 ^ 32 - 1 - unat (tav t)) div 50000000 \<le> (2 ^ 32 - 1) div 50000000"
    by (rule div_le_mono) simp
  then show ?thesis by (simp add: unat_rtc_get_seconds)
qed

text \<open>
  C4: For every value of the counter the broken-down time is in range and is exactly the
  number of whole seconds the timer has counted: minutes and seconds add up to
  \<open>rtc_get_seconds\<close>. Since the 32-bit counter holds less than 86 seconds of cycles, the
  hour is always 0 and the date always day 1, month 0 of year 126: the clock wraps every
  86 seconds.
\<close>

theorem rtc_time_is_elapsed_seconds:
  "let tm' = rtc_get_time t tm in
    0 \<le> tm_sec tm' \<and> tm_sec tm' < 60 \<and> 0 \<le> tm_min tm' \<and> tm_min tm' \<le> 1 \<and>
    60 * tm_min tm' + tm_sec tm' = (2 ^ 32 - 1 - uint (tav t)) div 50000000 \<and>
    tm_hour tm' = 0 \<and> tm_mday tm' = 1 \<and> tm_mon tm' = 0 \<and> tm_year tm' = 126"
proof -
  define s where "s = unat (rtc_get_seconds t)"
  have s: "s \<le> 85" unfolding s_def by (rule rtc_get_seconds_le)
  have "int s = int ((2 ^ 32 - 1 - unat (tav t)) div 50000000)"
    by (simp add: s_def unat_rtc_get_seconds)
  also have "\<dots> = (2 ^ 32 - 1 - uint (tav t)) div 50000000"
  proof -
    have "unat (tav t) \<le> 2 ^ 32 - 1" using unat_u32_lt[of "tav t"] by simp
    then show ?thesis by (simp add: zdiv_int of_nat_diff)
  qed
  finally have sec: "int s = (2 ^ 32 - 1 - uint (tav t)) div 50000000" .
  let ?r = "rtc_get_seconds t"
  have m: "uint (?r mod 60) = int (s mod 60)" "uint (?r div 60 mod 60) = int (s div 60 mod 60)"
    by (simp_all add: s_def uint_div uint_mod zdiv_int zmod_int)
  have "unat (?r div 60 div 60) = 0"
    using s by (simp add: unat_div s_def)
  then have z: "?r div 60 div 60 = 0" by (simp only: unat_eq_0)
  have "s div 60 \<le> 1" using s by simp
  moreover have "int (s mod 60) + 60 * int (s div 60 mod 60) = int s"
    using s by (simp add: zdiv_int zmod_int)
  ultimately show ?thesis
    unfolding rtc_get_time_def Let_def
    using sec by (simp add: m z)
qed

end
