(* ===== verification/Diag.thy ===== *)
theory Diag
  imports CStrings KHeap Rtc
begin

text \<open>
  The diagnosis counters, \<open>src/src/kernel_log.c\<close>, and the busy delay,
  \<open>src/src/delay.c\<close>. The counters are C \<open>int\<close>s, kept as 32-bit words and read with
  \<open>sint\<close>.
\<close>

record diag =
  uptime_sec :: u32
  file_count :: u32

definition diag_init :: "diag \<Rightarrow> diag" where
  "diag_init d = d\<lparr>uptime_sec := 0, file_count := 0\<rparr>"

definition diag_tick :: "diag \<Rightarrow> diag" where
  "diag_tick d = d\<lparr>uptime_sec := uptime_sec d + 1\<rparr>"

definition diag_file_created :: "diag \<Rightarrow> diag" where
  "diag_file_created d = d\<lparr>file_count := file_count d + 1\<rparr>"

definition diag_print :: "diag \<Rightarrow> timer0 \<Rightarrow> heap \<Rightarrow> uart \<Rightarrow> uart option" where
  "diag_print d t h u = do {
     u \<leftarrow> uart_println (lit ''=== System Diagnosis ==='') u;
     u \<leftarrow> uart_print (lit ''Uptime :'') u;
     let current_uptime = rtc_get_seconds t;
     let current_uptime = (if current_uptime = 0 then uptime_sec d else current_uptime);
     u \<leftarrow> uart_print_int (sint current_uptime) u;
     u \<leftarrow> uart_print (lit ''s'') u;
     u \<leftarrow> uart_print (lit ''   '') u;
     u \<leftarrow> uart_print (lit ''Files  :'') u;
     u \<leftarrow> uart_print_int (sint (file_count d)) u;
     u \<leftarrow> uart_print (lit ''   '') u;
     u \<leftarrow> uart_print (lit ''Heap used : '') u;
     u \<leftarrow> uart_print_int (sint (heap_used h)) u;
     u \<leftarrow> uart_println (lit '' bytes'') u;
     uart_println (lit ''Kernel: ZanOS v0.4'') u
   }"

text \<open>\<open>for (volatile unsigned int i = 0; i < t; i++);\<close>, with the final value of \<open>i\<close>.\<close>

function delay_loop :: "u32 \<Rightarrow> u32 \<Rightarrow> u32" where
  "delay_loop t i = (if i < t then delay_loop t (i + 1) else i)"
  by pat_completeness auto
termination
proof (relation "measure (\<lambda>(t, i). unat t - unat i)", goal_cases)
  case (2 t i)
  then show ?case by (simp add: word_less_nat_alt unat_less_plus_1)
qed simp

declare delay_loop.simps [simp del]

definition delay :: "u32 \<Rightarrow> u32" where
  "delay t = delay_loop t 0"

lemma delay_loop_eq: "i \<le> t \<Longrightarrow> delay_loop t i = t"
proof (induction t i rule: delay_loop.induct)
  case (1 t i)
  show ?case
  proof (cases "i < t")
    case True
    then have "i + 1 \<le> t" by (simp add: inc_le)
    with 1 True show ?thesis by (simp add: delay_loop.simps[of t i])
  next
    case False
    with 1(2) have "i = t" by simp
    then show ?thesis by (simp add: delay_loop.simps[of t t])
  qed
qed

end
