(* ===== verification/Refinement.thy ===== *)
theory Refinement
  imports Prelude
begin

text \<open>
  Functional refinement, the contract between a component and its abstract specification: a
  concrete step that is in order, started in a state that satisfies the invariant, returns, gives the result of
  the abstract step and ends in a state that represents the abstract one. The simulation of
  whole runs is proved once here; the stateful components interpret the locale.
\<close>

locale refinement =
  fixes inv :: "'c \<Rightarrow> bool"
    and abs :: "'c \<Rightarrow> 'a"
    and ok :: "'op \<Rightarrow> 'a \<Rightarrow> bool"
    and step :: "'op \<Rightarrow> 'c \<Rightarrow> ('r \<times> 'c) option"
    and astep :: "'op \<Rightarrow> 'a \<Rightarrow> 'r \<times> 'a"
  assumes simulation: "inv c \<Longrightarrow> ok op (abs c) \<Longrightarrow>
    \<exists>c'. step op c = Some (fst (astep op (abs c)), c') \<and> abs c' = snd (astep op (abs c)) \<and> inv c'"
begin

fun run :: "'op list \<Rightarrow> 'c \<Rightarrow> ('r list \<times> 'c) option" where
  "run [] c = Some ([], c)"
| "run (op # ops) c = do {
     (r, c) \<leftarrow> step op c;
     (rs, c) \<leftarrow> run ops c;
     Some (r # rs, c)
   }"

fun arun :: "'op list \<Rightarrow> 'a \<Rightarrow> 'r list \<times> 'a" where
  "arun [] a = ([], a)"
| "arun (op # ops) a =
     (case astep op a of (r, a) \<Rightarrow> (case arun ops a of (rs, a) \<Rightarrow> (r # rs, a)))"

text \<open>
  The runs that are admitted: every operation is in order in the abstract state it is started
  in. This is a condition on the specification alone; that the concrete steps return is part of
  the conclusion.
\<close>

fun ok_run :: "'op list \<Rightarrow> 'a \<Rightarrow> bool" where
  "ok_run [] a = True"
| "ok_run (op # ops) a = (ok op a \<and> ok_run ops (snd (astep op a)))"

lemma run_simulation:
  assumes "inv c" "ok_run ops (abs c)"
  shows "\<exists>c'. run ops c = Some (fst (arun ops (abs c)), c') \<and>
    abs c' = snd (arun ops (abs c)) \<and> inv c'"
  using assms
proof (induction ops arbitrary: c)
  case Nil
  then show ?case by simp
next
  case (Cons op ops)
  from simulation[OF Cons.prems(1), of op] Cons.prems(2)
  obtain c1 where c1: "step op c = Some (fst (astep op (abs c)), c1)"
      "abs c1 = snd (astep op (abs c))" "inv c1" by auto
  from Cons.IH[OF c1(3)] Cons.prems(2) c1(2)
  obtain c2 where "run ops c1 = Some (fst (arun ops (abs c1)), c2)"
      "abs c2 = snd (arun ops (abs c1))" "inv c2" by auto
  with c1 show ?case by (auto split: prod.splits)
qed

lemma ok_run_all: "(\<And>op a. op \<in> set ops \<Longrightarrow> ok op a) \<Longrightarrow> ok_run ops a"
  by (induction ops arbitrary: a) auto

end

end
