(* ===== verification/RamDisk.thy ===== *)
theory RamDisk
  imports Diag Refinement
begin

text \<open>
  The RAM disk, \<open>src/src/ramdisk.c\<close> and \<open>src/include/ramdisk.h\<close>: a table of sixteen
  files with a 32-byte name and 256 bytes of data each. The table is a list of records; the
  loops \<open>for (int i = 0; i < MAX_FILES; i++)\<close> recur on \<open>i\<close>. \<open>None\<close> is an access outside
  an object.
\<close>

definition MAX_FILES :: nat where "MAX_FILES = 16"
definition MAX_FILE_SIZE :: nat where "MAX_FILE_SIZE = 256"

record File =
  f_name :: bytes
  f_data :: bytes
  f_size :: u32
  f_used :: u8

type_synonym disk = "File list"

section \<open>Operations\<close>

function init_loop :: "nat \<Rightarrow> disk \<Rightarrow> disk option" where
  "init_loop i files =
     (if i < MAX_FILES then do {
        f \<leftarrow> aget files i;
        files \<leftarrow> aset files i (f\<lparr>f_used := 0\<rparr>);
        init_loop (Suc i) files
      } else Some files)"
  by pat_completeness auto
termination
  by (relation "measure (\<lambda>(i, files). MAX_FILES - i)") auto

declare init_loop.simps [simp del]

definition ramdisk_init :: "disk \<Rightarrow> disk option" where
  "ramdisk_init files = init_loop 0 files"

text \<open>\<open>ramdisk_create\<close>: the loop from \<open>i\<close>; the results are 0 for success and -1 for full.\<close>

function create_loop :: "nat \<Rightarrow> bytes \<Rightarrow> disk \<Rightarrow> diag \<Rightarrow> (int \<times> disk \<times> diag) option" where
  "create_loop i name files d =
     (if i < MAX_FILES then do {
        f \<leftarrow> aget files i;
        if \<not> (f_used f \<noteq> 0) then do {
          let f = f\<lparr>f_used := 1\<rparr>;
          nm \<leftarrow> strncpy (f_name f) name 31;
          nm \<leftarrow> aset nm 31 0;
          let f = f\<lparr>f_name := nm, f_size := 0\<rparr>;
          files \<leftarrow> aset files i f;
          Some (0, files, diag_file_created d)
        } else create_loop (Suc i) name files d
      } else Some (- 1, files, d))"
  by pat_completeness auto
termination
  by (relation "measure (\<lambda>(i, name, files, d). MAX_FILES - i)") auto

declare create_loop.simps [simp del]

definition ramdisk_create :: "bytes \<Rightarrow> disk \<Rightarrow> diag \<Rightarrow> (int \<times> disk \<times> diag) option" where
  "ramdisk_create name files d = create_loop 0 name files d"

text \<open>\<open>for (j = 0; data[j] && j < MAX_FILE_SIZE - 1; j++) files[i].data[j] = data[j];\<close>\<close>

function write_data :: "nat \<Rightarrow> bytes \<Rightarrow> bytes \<Rightarrow> (nat \<times> bytes) option" where
  "write_data j data dst = do {
     c \<leftarrow> aget data j;
     if c \<noteq> 0 \<and> j < MAX_FILE_SIZE - 1 then do {
       dst \<leftarrow> aset dst j c;
       write_data (Suc j) data dst
     } else Some (j, dst)
   }"
  by pat_completeness auto
termination
  by (relation "measure (\<lambda>(j, data, dst). MAX_FILE_SIZE - j)") auto

declare write_data.simps [simp del]

function write_loop :: "nat \<Rightarrow> bytes \<Rightarrow> bytes \<Rightarrow> disk \<Rightarrow> (int \<times> disk) option" where
  "write_loop i name data files =
     (if i < MAX_FILES then do {
        f \<leftarrow> aget files i;
        match \<leftarrow> (if f_used f \<noteq> 0 then map_option (\<lambda>r. r = 0) (strcmp (f_name f) name) else Some False);
        if match then do {
          (j, dst) \<leftarrow> write_data 0 data (f_data f);
          dst \<leftarrow> aset dst j 0;
          files \<leftarrow> aset files i (f\<lparr>f_data := dst, f_size := of_nat j\<rparr>);
          Some (0, files)
        } else write_loop (Suc i) name data files
      } else Some (- 1, files))"
  by pat_completeness auto
termination
  by (relation "measure (\<lambda>(i, name, data, files). MAX_FILES - i)") auto

declare write_loop.simps [simp del]

definition ramdisk_write :: "bytes \<Rightarrow> bytes \<Rightarrow> disk \<Rightarrow> (int \<times> disk) option" where
  "ramdisk_write name data files = write_loop 0 name data files"

text \<open>\<open>for (int j = 0; j < files[i].size; j++) buffer[j] = files[i].data[j];\<close>\<close>

function read_data :: "nat \<Rightarrow> nat \<Rightarrow> bytes \<Rightarrow> bytes \<Rightarrow> bytes option" where
  "read_data j sz data buffer =
     (if j < sz then do {
        c \<leftarrow> aget data j;
        buffer \<leftarrow> aset buffer j c;
        read_data (Suc j) sz data buffer
      } else Some buffer)"
  by pat_completeness auto
termination
  by (relation "measure (\<lambda>(j, sz, data, buffer). sz - j)") auto

declare read_data.simps [simp del]

function read_loop :: "nat \<Rightarrow> bytes \<Rightarrow> bytes \<Rightarrow> disk \<Rightarrow> (int \<times> bytes) option" where
  "read_loop i name buffer files =
     (if i < MAX_FILES then do {
        f \<leftarrow> aget files i;
        match \<leftarrow> (if f_used f \<noteq> 0 then map_option (\<lambda>r. r = 0) (strcmp (f_name f) name) else Some False);
        if match then do {
          buffer \<leftarrow> read_data 0 (unat (f_size f)) (f_data f) buffer;
          buffer \<leftarrow> aset buffer (unat (f_size f)) 0;
          Some (0, buffer)
        } else read_loop (Suc i) name buffer files
      } else Some (- 1, buffer))"
  by pat_completeness auto
termination
  by (relation "measure (\<lambda>(i, name, buffer, files). MAX_FILES - i)") auto

declare read_loop.simps [simp del]

definition ramdisk_read :: "bytes \<Rightarrow> bytes \<Rightarrow> disk \<Rightarrow> (int \<times> bytes) option" where
  "ramdisk_read name buffer files = read_loop 0 name buffer files"

function ls_loop :: "nat \<Rightarrow> disk \<Rightarrow> uart \<Rightarrow> uart option" where
  "ls_loop i files u =
     (if i < MAX_FILES then do {
        f \<leftarrow> aget files i;
        u \<leftarrow> (if f_used f \<noteq> 0 then do {
                u \<leftarrow> uart_print (lit ''- '') u;
                uart_println (f_name f) u
              } else Some u);
        ls_loop (Suc i) files u
      } else Some u)"
  by pat_completeness auto
termination
  by (relation "measure (\<lambda>(i, files, u). MAX_FILES - i)") auto

declare ls_loop.simps [simp del]

definition ramdisk_ls :: "disk \<Rightarrow> uart \<Rightarrow> uart option" where
  "ramdisk_ls files u = do {
     u \<leftarrow> uart_println (lit ''Files in RAM Disk:'') u;
     ls_loop 0 files u
   }"

section \<open>Well-formed disks and their contents\<close>

definition file_wf :: "File \<Rightarrow> bool" where
  "file_wf f \<longleftrightarrow> length (f_name f) = 32 \<and> length (f_data f) = MAX_FILE_SIZE \<and>
     (f_used f \<noteq> 0 \<longrightarrow> terminated (f_name f) \<and> unat (f_size f) < MAX_FILE_SIZE)"

text \<open>The used slots are a prefix of the table: files are created but never removed.\<close>

definition disk_wf :: "disk \<Rightarrow> bool" where
  "disk_wf files \<longleftrightarrow> length files = MAX_FILES \<and> (\<forall>f \<in> set files. file_wf f) \<and>
     (\<forall>j < MAX_FILES. \<forall>i < j. f_used (files ! j) \<noteq> 0 \<longrightarrow> f_used (files ! i) \<noteq> 0)"

definition named :: "bytes \<Rightarrow> File \<Rightarrow> bool" where
  "named k f \<longleftrightarrow> f_used f \<noteq> 0 \<and> cstr (f_name f) = k"

definition content :: "File \<Rightarrow> bytes" where
  "content f = take (unat (f_size f)) (f_data f)"

definition lookup :: "disk \<Rightarrow> bytes \<Rightarrow> bytes option" where
  "lookup files k = map_option content (find (named k) files)"

lemma disk_wf_nth: "disk_wf files \<Longrightarrow> i < MAX_FILES \<Longrightarrow> file_wf (files ! i)"
  by (auto simp: disk_wf_def)

lemma disk_wf_length: "disk_wf files \<Longrightarrow> length files = MAX_FILES"
  by (simp add: disk_wf_def)

lemma find_list_update:
  "i < length xs \<Longrightarrow> P y = P (xs ! i) \<Longrightarrow>
    find P (xs[i := y]) = (if P (xs ! i) \<and> (\<forall>j < i. \<not> P (xs ! j)) then Some y else find P xs)"
proof (induction xs arbitrary: i)
  case (Cons x xs)
  then show ?case by (cases i) (auto simp: All_less_Suc2)
qed simp

lemma find_NoneD: "find P xs = None \<Longrightarrow> i < length xs \<Longrightarrow> \<not> P (xs ! i)"
  by (auto simp: find_None_iff)

lemma findE:
  assumes "find P xs = Some x"
  obtains i where "i < length xs" "xs ! i = x" "P x" "\<forall>j < i. \<not> P (xs ! j)"
  using assms by (auto simp: find_Some_iff)

text \<open>The match test of \<open>ramdisk_write\<close> and \<open>ramdisk_read\<close>.\<close>

lemma match_named:
  "file_wf f \<Longrightarrow> terminated name \<Longrightarrow>
    (if f_used f \<noteq> 0 then map_option (\<lambda>r. r = 0) (strcmp (f_name f) name) else Some False)
      = Some (named (cstr name) f)"
  using strcmp_terminated[of "f_name f" name] by (auto simp: file_wf_def named_def)

lemma write_loop_step:
  assumes "disk_wf files" "i < MAX_FILES" "terminated name" "\<not> named (cstr name) (files ! i)"
  shows "write_loop i name data files = write_loop (Suc i) name data files"
  using assms match_named[OF disk_wf_nth[OF assms(1,2)] assms(3)]
  by (simp add: write_loop.simps[of i] disk_wf_length)

lemma read_loop_step:
  assumes "disk_wf files" "i < MAX_FILES" "terminated name" "\<not> named (cstr name) (files ! i)"
  shows "read_loop i name buffer files = read_loop (Suc i) name buffer files"
  using assms match_named[OF disk_wf_nth[OF assms(1,2)] assms(3)]
  by (simp add: read_loop.simps[of i] disk_wf_length)

lemma create_loop_step:
  assumes "disk_wf files" "i < MAX_FILES" "f_used (files ! i) \<noteq> 0"
  shows "create_loop i name files d = create_loop (Suc i) name files d"
  using assms by (simp add: create_loop.simps[of i] disk_wf_length)

text \<open>A search loop that steps over the slots before \<open>i\<close> starts at \<open>i\<close>.\<close>

lemma loop_skip:
  assumes "\<And>j. j < i \<Longrightarrow> loop j = loop (Suc j)"
  shows "loop 0 = loop (i :: nat)"
  using assms by (induction i) auto

lemma ramdisk_write_at:
  assumes "disk_wf files" "terminated name" "i \<le> MAX_FILES" "\<forall>j < i. \<not> named (cstr name) (files ! j)"
  shows "ramdisk_write name data files = write_loop i name data files"
  unfolding ramdisk_write_def
  by (rule loop_skip[of i "\<lambda>i. write_loop i name data files"]) (use assms write_loop_step in auto)

lemma ramdisk_read_at:
  assumes "disk_wf files" "terminated name" "i \<le> MAX_FILES" "\<forall>j < i. \<not> named (cstr name) (files ! j)"
  shows "ramdisk_read name buffer files = read_loop i name buffer files"
  unfolding ramdisk_read_def
  by (rule loop_skip[of i "\<lambda>i. read_loop i name buffer files"]) (use assms read_loop_step in auto)

lemma ramdisk_create_at:
  assumes "disk_wf files" "i \<le> MAX_FILES" "\<forall>j < i. f_used (files ! j) \<noteq> 0"
  shows "ramdisk_create name files d = create_loop i name files d"
  unfolding ramdisk_create_def
  by (rule loop_skip[of i "\<lambda>i. create_loop i name files d"]) (use assms create_loop_step in auto)

section \<open>The inner loops\<close>

lemma write_data_eq:
  assumes "terminated data" "length dst = MAX_FILE_SIZE" "j \<le> min 255 (length (cstr data))"
    and "take j dst = take j (cstr data)"
  shows "write_data j data dst =
    Some (min 255 (length (cstr data)),
          take 255 (cstr data) @ drop (min 255 (length (cstr data))) dst)"
  using assms
proof (induction "min 255 (length (cstr data)) - j" arbitrary: j dst)
  case 0
  then have j: "j = min 255 (length (cstr data))" by simp
  then have "take 255 (cstr data) = take j dst" using 0(5) by (simp add: min_def split: if_splits)
  then have "take 255 (cstr data) @ drop j dst = dst" by simp
  moreover have "j < length data" using j length_cstr_less[OF 0(2)] by simp
  moreover have "j < 255 \<Longrightarrow> data ! j = 0" using j nth_length_cstr[OF 0(2)] by (simp add: min_def split: if_splits)
  ultimately show ?case
    unfolding j[symmetric] by (auto simp: write_data.simps[of j] MAX_FILE_SIZE_def)
next
  case (Suc k)
  then have j: "j < 255" "j < length (cstr data)" "j < length data" "j < length dst"
    using length_cstr_le[of data] by (auto simp: MAX_FILE_SIZE_def)
  have "write_data j data dst = write_data (Suc j) data (dst[j := data ! j])"
    using j nth_cstr_nonzero[of j data] by (simp add: write_data.simps[of j] MAX_FILE_SIZE_def)
  also have "\<dots> = Some (min 255 (length (cstr data)),
      take 255 (cstr data) @ drop (min 255 (length (cstr data))) (dst[j := data ! j]))"
    by (rule Suc.hyps(1)) (use Suc j in \<open>auto simp: take_Suc_update take_Suc_conv_app_nth nth_cstr\<close>)
  finally show ?case using j by simp
qed

lemma read_data_eq:
  "j \<le> sz \<Longrightarrow> sz \<le> length data \<Longrightarrow> sz \<le> length buffer \<Longrightarrow> take j buffer = take j data \<Longrightarrow>
    read_data j sz data buffer = Some (take sz data @ drop sz buffer)"
proof (induction "sz - j" arbitrary: j buffer)
  case 0
  then have "sz = j" "take j data = take j buffer" by simp_all
  then show ?case by (simp add: read_data.simps[of j])
next
  case (Suc k)
  then have "read_data j sz data buffer = read_data (Suc j) sz data (buffer[j := data ! j])"
    by (auto simp: read_data.simps[of j])
  also have "\<dots> = Some (take sz data @ drop sz (buffer[j := data ! j]))"
    by (rule Suc.hyps(1)) (use Suc in \<open>auto simp: take_Suc_update take_Suc_conv_app_nth\<close>)
  finally show ?case using Suc by simp
qed

lemma read_data_length: "read_data j sz data buffer = Some b \<Longrightarrow> length b = length buffer"
proof (induction j sz data buffer arbitrary: b rule: read_data.induct)
  case (1 j sz data buffer)
  show ?case
  proof (cases "j < sz")
    case True
    with "1.prems" obtain c buf where "aget data j = Some c" "aset buffer j c = Some buf"
        "read_data (Suc j) sz data buf = Some b"
      by (auto simp: read_data.simps[of j] bind_eq_Some_conv)
    with "1.IH"[OF True] show ?thesis by (auto simp: aset_simps)
  next
    case False
    with "1.prems" show ?thesis by (simp add: read_data.simps[of j])
  qed
qed

section \<open>The effect of each operation\<close>

definition stored :: "bytes \<Rightarrow> File \<Rightarrow> File" where
  "stored data f = f\<lparr>f_data := (take 255 (cstr data) @ drop (min 255 (length (cstr data))) (f_data f))
       [min 255 (length (cstr data)) := 0],
     f_size := of_nat (min 255 (length (cstr data)))\<rparr>"

lemma unat_stored_size: "unat (f_size (stored data f)) = min 255 (length (cstr data))"
proof -
  have "min 255 (length (cstr data)) < 2 ^ 32" by (simp add: min_def)
  then show ?thesis by (simp add: stored_def unsigned_of_nat take_bit_nat_eq_self)
qed

lemma content_stored: "file_wf f \<Longrightarrow> content (stored data f) = take 255 (cstr data)"
  unfolding content_def unat_stored_size by (simp add: stored_def min_def)

lemma file_wf_stored: "file_wf f \<Longrightarrow> file_wf (stored data f)"
  unfolding file_wf_def unat_stored_size
  by (auto simp: stored_def MAX_FILE_SIZE_def min_def)

lemma named_stored [simp]: "named k (stored data f) = named k f"
  by (simp add: named_def stored_def)

lemma f_used_stored [simp]: "f_used (stored data f) = f_used f"
  by (simp add: stored_def)

lemma ramdisk_write_found:
  assumes "disk_wf files" "terminated name" "terminated data" "i < MAX_FILES"
    "named (cstr name) (files ! i)" "\<forall>j < i. \<not> named (cstr name) (files ! j)"
  shows "ramdisk_write name data files = Some (0, files[i := stored data (files ! i)])"
proof -
  let ?f = "files ! i"
  have f: "file_wf ?f" using assms(1,4) by (rule disk_wf_nth)
  have "write_data 0 data (f_data ?f) = Some (min 255 (length (cstr data)),
      take 255 (cstr data) @ drop (min 255 (length (cstr data))) (f_data ?f))"
    using f assms(3) by (intro write_data_eq) (auto simp: file_wf_def)
  moreover have "min 255 (length (cstr data)) < MAX_FILE_SIZE" by (simp add: MAX_FILE_SIZE_def)
  ultimately have "write_loop i name data files = Some (0, files[i := stored data ?f])"
    using assms f match_named[OF f assms(2)]
    by (simp add: write_loop.simps[of i] disk_wf_length file_wf_def stored_def MAX_FILE_SIZE_def min_def)
  with ramdisk_write_at[OF assms(1,2), of i] assms(4,6) show ?thesis by simp
qed

lemma ramdisk_write_missing:
  assumes "disk_wf files" "terminated name" "lookup files (cstr name) = None"
  shows "ramdisk_write name data files = Some (- 1, files)"
proof -
  have "\<forall>j < MAX_FILES. \<not> named (cstr name) (files ! j)"
    using assms by (auto simp: lookup_def disk_wf_def dest: find_NoneD)
  with ramdisk_write_at[OF assms(1,2), of MAX_FILES] show ?thesis
    by (simp add: write_loop.simps)
qed

lemma ramdisk_read_found:
  assumes "disk_wf files" "terminated name" "lookup files (cstr name) = Some c"
  shows "ramdisk_read name buffer files =
    (if length c < length buffer then Some (0, c @ 0 # drop (Suc (length c)) buffer) else None)"
proof -
  from assms(3) obtain f where f: "find (named (cstr name)) files = Some f" "content f = c"
    by (auto simp: lookup_def)
  then obtain i where i: "i < length files" "files ! i = f" "named (cstr name) f"
      "\<forall>j < i. \<not> named (cstr name) (files ! j)" by (elim findE)
  have i16: "i < MAX_FILES" using i(1) disk_wf_length[OF assms(1)] by simp
  have wf: "file_wf f" using disk_wf_nth[OF assms(1) i16] i(2) by simp
  have sz: "unat (f_size f) < length (f_data f)" "length c = unat (f_size f)"
    using wf i(3) f(2) by (auto simp: file_wf_def named_def content_def)
  have loop: "ramdisk_read name buffer files = do {
      buffer \<leftarrow> read_data 0 (unat (f_size f)) (f_data f) buffer;
      buffer \<leftarrow> aset buffer (unat (f_size f)) 0;
      Some (0, buffer) }"
    using ramdisk_read_at[OF assms(1,2) less_imp_le[OF i16] i(4)] match_named[OF wf assms(2)] i i16
    by (simp add: read_loop.simps[of i])
  show ?thesis
  proof (cases "length c < length buffer")
    case True
    with sz read_data_eq[of 0 "unat (f_size f)" "f_data f" buffer] f(2) show ?thesis
      by (simp add: loop content_def list_update_append drop_update_cancel
          flip: Cons_nth_drop_Suc)
  next
    case False
    then show ?thesis
      using read_data_length[of 0 "unat (f_size f)" "f_data f" buffer] sz(2)
      by (cases "read_data 0 (unat (f_size f)) (f_data f) buffer") (simp_all add: loop)
  qed
qed

lemma ramdisk_read_missing:
  assumes "disk_wf files" "terminated name" "lookup files (cstr name) = None"
  shows "ramdisk_read name buffer files = Some (- 1, buffer)"
proof -
  have "\<forall>j < MAX_FILES. \<not> named (cstr name) (files ! j)"
    using assms by (auto simp: lookup_def disk_wf_def dest: find_NoneD)
  with ramdisk_read_at[OF assms(1,2), of MAX_FILES] show ?thesis
    by (simp add: read_loop.simps)
qed

definition fresh_file :: "bytes \<Rightarrow> File \<Rightarrow> File" where
  "fresh_file name f = f\<lparr>f_used := 1,
     f_name := (take 31 (cstr name) @ replicate (31 - length (cstr name)) 0 @ drop 31 (f_name f))[31 := 0],
     f_size := 0\<rparr>"

lemma fresh_file_name:
  assumes "file_wf f"
  shows "f_name (fresh_file name f) =
    take 31 (cstr name) @ 0 # replicate (31 - length (cstr name)) 0"
proof -
  have "length (drop 31 (f_name f)) = 1" using assms by (simp add: file_wf_def)
  then obtain x where "drop 31 (f_name f) = [x]" by (metis length_Suc_conv length_0_conv One_nat_def)
  moreover have "length (take 31 (cstr name) @ replicate (31 - length (cstr name)) 0) = 31" by simp
  ultimately have "(take 31 (cstr name) @ replicate (31 - length (cstr name)) 0 @ drop 31 (f_name f))[31 := 0]
      = (take 31 (cstr name) @ replicate (31 - length (cstr name)) 0) @ [0]"
    by (metis append_assoc list_update_length)
  then show ?thesis by (simp add: fresh_file_def replicate_append_same)
qed

lemma cstr_fresh_file: "file_wf f \<Longrightarrow> cstr (f_name (fresh_file name f)) = take 31 (cstr name)"
  by (subst fresh_file_name) (auto intro!: cstr_append_zero dest: in_set_takeD)

lemma file_wf_fresh_file: "file_wf f \<Longrightarrow> file_wf (fresh_file name f)"
  using fresh_file_name[of f name]
  by (auto simp: file_wf_def fresh_file_def MAX_FILE_SIZE_def)

lemma content_fresh_file [simp]: "content (fresh_file name f) = []"
  by (simp add: content_def fresh_file_def)

lemma ramdisk_create_free:
  assumes "disk_wf files" "terminated name" "i < MAX_FILES" "f_used (files ! i) = 0"
    "\<forall>j < i. f_used (files ! j) \<noteq> 0"
  shows "ramdisk_create name files d =
    Some (0, files[i := fresh_file name (files ! i)], diag_file_created d)"
proof -
  have "file_wf (files ! i)" using assms(1,3) by (rule disk_wf_nth)
  then have "strncpy (f_name (files ! i)) name 31 =
      Some (take 31 (cstr name) @ replicate (31 - length (cstr name)) 0 @ drop 31 (f_name (files ! i)))"
    and "length (f_name (files ! i)) = 32"
    using assms(2) by (auto simp: file_wf_def strncpy_eq)
  with ramdisk_create_at[OF assms(1) less_imp_le[OF assms(3)] assms(5)] assms(3,4) disk_wf_length[OF assms(1)]
  show ?thesis by (simp add: create_loop.simps[of i] fresh_file_def)
qed

lemma ramdisk_create_full:
  assumes "disk_wf files" "\<forall>j < MAX_FILES. f_used (files ! j) \<noteq> 0"
  shows "ramdisk_create name files d = Some (- 1, files, d)"
  using ramdisk_create_at[OF assms(1) order_refl assms(2)] by (simp add: create_loop.simps)

section \<open>The invariant\<close>

lemma used_prefix:
  assumes "disk_wf files" "i < MAX_FILES" "f_used (files ! i) \<noteq> 0" "j < i"
  shows "f_used (files ! j) \<noteq> 0"
  using assms unfolding disk_wf_def by blast

lemma disk_wf_update:
  assumes "disk_wf files" "i < MAX_FILES" "file_wf f" "f_used f \<noteq> 0" "\<forall>j < i. f_used (files ! j) \<noteq> 0"
  shows "disk_wf (files[i := f])"
  unfolding disk_wf_def
proof (intro conjI allI impI)
  show "length (files[i := f]) = MAX_FILES" using assms(1) by (simp add: disk_wf_length)
  show "\<forall>g \<in> set (files[i := f]). file_wf g"
    using assms(1,3) set_update_subset_insert[of files i f] by (auto simp: disk_wf_def)
  fix j l assume j: "j < MAX_FILES" and l: "l < j" and u: "f_used (files[i := f] ! j) \<noteq> 0"
  have len: "length files = MAX_FILES" using assms(1) by (rule disk_wf_length)
  show "f_used (files[i := f] ! l) \<noteq> 0"
  proof (cases "l = i")
    case True
    then show ?thesis using assms(2,4) len by simp
  next
    case False
    have "f_used (files ! l) \<noteq> 0"
      using assms(5) used_prefix[OF assms(1) j _ l] u l by (cases "j = i") simp_all
    with False show ?thesis by simp
  qed
qed

lemma unused_suffix:
  assumes "disk_wf files" "f_used (files ! i) = 0" "i \<le> j" "j < MAX_FILES"
  shows "f_used (files ! j) = 0"
  using used_prefix[OF assms(1,4), of i] assms(2,3) by (cases "i = j") auto

text \<open>The first free slot, when there is one.\<close>

lemma first_free:
  assumes "\<not> (\<forall>j < MAX_FILES. f_used (files ! j) \<noteq> 0)"
  obtains i where "i < MAX_FILES" "f_used (files ! i) = 0" "\<forall>j < i. f_used (files ! j) \<noteq> 0"
proof -
  let ?P = "\<lambda>i. i < MAX_FILES \<and> f_used (files ! i) = 0"
  have "\<exists>i. ?P i" using assms by blast
  then obtain i where i: "?P i" "\<forall>j < i. \<not> ?P j"
    using exists_least_iff[of ?P] by auto
  have "f_used (files ! j) \<noteq> 0" if "j < i" for j
    using i that less_trans[of j i MAX_FILES] by blast
  with i(1) show thesis using that by blast
qed

lemma write_disk_wf:
  assumes "disk_wf files" "i < MAX_FILES" "f_used (files ! i) \<noteq> 0"
  shows "disk_wf (files[i := stored data (files ! i)])"
  using assms used_prefix[OF assms] file_wf_stored[OF disk_wf_nth[OF assms(1,2)]]
  by (intro disk_wf_update) simp_all

lemma create_disk_wf:
  assumes "disk_wf files" "i < MAX_FILES" "f_used (files ! i) = 0" "\<forall>j < i. f_used (files ! j) \<noteq> 0"
  shows "disk_wf (files[i := fresh_file name (files ! i)])"
  using assms file_wf_fresh_file[OF disk_wf_nth[OF assms(1,2)]]
  by (intro disk_wf_update) (simp_all add: fresh_file_def)

lemma lookup_write:
  assumes "disk_wf files" "i < MAX_FILES" "named k (files ! i)" "\<forall>j < i. \<not> named k (files ! j)"
  shows "lookup (files[i := stored data (files ! i)]) = (lookup files)(k \<mapsto> take 255 (cstr data))"
proof
  fix k'
  have len: "i < length files" using assms(1,2) by (simp add: disk_wf_length)
  note upd = find_list_update[OF len, of "named k'" "stored data (files ! i)", OF named_stored]
  show "lookup (files[i := stored data (files ! i)]) k' = ((lookup files)(k \<mapsto> take 255 (cstr data))) k'"
  proof (cases "k' = k")
    case True
    with assms(3,4) upd have "find (named k') (files[i := stored data (files ! i)]) = Some (stored data (files ! i))"
      by simp
    with True content_stored[OF disk_wf_nth[OF assms(1,2)]] show ?thesis
      by (simp add: lookup_def)
  next
    case False
    with assms(3) have "\<not> named k' (files ! i)" by (auto simp: named_def)
    with False show ?thesis by (simp add: lookup_def upd)
  qed
qed

lemma find_update_from_False:
  "i < length xs \<Longrightarrow> \<not> P (xs ! i) \<Longrightarrow> \<forall>j < length xs. i \<le> j \<longrightarrow> \<not> P (xs ! j) \<Longrightarrow> P y \<Longrightarrow>
    find P (xs[i := y]) = (case find P xs of None \<Rightarrow> Some y | Some x \<Rightarrow> Some x)"
proof (induction xs arbitrary: i)
  case (Cons x xs)
  show ?case
  proof (cases i)
    case 0
    with Cons.prems have "find P xs = None"
      by (auto simp: find_None_iff in_set_conv_nth)
    with 0 Cons.prems show ?thesis by simp
  next
    case (Suc k)
    have "\<forall>j < length xs. k \<le> j \<longrightarrow> \<not> P (xs ! j)"
      using Cons.prems(3) Suc by (metis Suc_le_mono Suc_less_eq length_Cons nth_Cons_Suc)
    with Cons Suc show ?thesis by auto
  qed
qed simp

lemma lookup_create:
  assumes "disk_wf files" "i < MAX_FILES" "f_used (files ! i) = 0"
  shows "lookup (files[i := fresh_file name (files ! i)]) =
    (if lookup files (take 31 (cstr name)) = None
     then (lookup files)(take 31 (cstr name) \<mapsto> []) else lookup files)"
proof
  fix k
  let ?f = "fresh_file name (files ! i)" and ?k = "take 31 (cstr name)"
  have len: "i < length files" using assms(1,2) by (simp add: disk_wf_length)
  have nk: "named k ?f \<longleftrightarrow> k = ?k"
    using cstr_fresh_file[OF disk_wf_nth[OF assms(1,2)]] by (auto simp: named_def fresh_file_def)
  have unused: "\<forall>j < length files. i \<le> j \<longrightarrow> \<not> named k (files ! j)"
    using unused_suffix[OF assms(1,3)] disk_wf_length[OF assms(1)] by (auto simp: named_def)
  show "lookup (files[i := ?f]) k =
    (if lookup files ?k = None then (lookup files)(?k \<mapsto> []) else lookup files) k"
  proof (cases "k = ?k")
    case True
    with nk have "find (named k) (files[i := ?f]) =
        (case find (named k) files of None \<Rightarrow> Some ?f | Some x \<Rightarrow> Some x)"
      using find_update_from_False[OF len, of "named k" ?f] unused len by simp
    with True show ?thesis by (simp add: lookup_def split: option.splits)
  next
    case False
    with nk have "find (named k) (files[i := ?f]) = find (named k) files"
      using find_list_update[OF len, of "named k" ?f] unused len by simp
    with False show ?thesis by (simp add: lookup_def)
  qed
qed

section \<open>Refinement of an abstract file store\<close>

text \<open>
  The abstract store: a map from names to contents and the number of slots taken. Names are
  cut to 31 bytes on creation, contents to 255 bytes on writing; creating a name that is
  already there takes a slot and changes no content.
\<close>

datatype disk_op = Create bytes | Write bytes bytes

type_synonym store = "(bytes \<rightharpoonup> bytes) \<times> nat"

fun store_step :: "disk_op \<Rightarrow> store \<Rightarrow> int \<times> store" where
  "store_step (Create name) (m, n) =
     (if n < MAX_FILES then
        (0, (if m (take 31 (cstr name)) = None then m(take 31 (cstr name) \<mapsto> []) else m, Suc n))
      else (- 1, m, n))"
| "store_step (Write name data) (m, n) =
     (if m (cstr name) = None then (- 1, m, n)
      else (0, m(cstr name \<mapsto> take 255 (cstr data)), n))"

fun disk_step :: "disk_op \<Rightarrow> disk \<times> diag \<Rightarrow> (int \<times> disk \<times> diag) option" where
  "disk_step (Create name) (files, d) = ramdisk_create name files d"
| "disk_step (Write name data) (files, d) =
     map_option (\<lambda>(r, files). (r, files, d)) (ramdisk_write name data files)"

fun op_strings :: "disk_op \<Rightarrow> bool" where
  "op_strings (Create name) = terminated name"
| "op_strings (Write name data) = (terminated name \<and> terminated data)"

definition used_slots :: "disk \<Rightarrow> nat" where
  "used_slots files = length (filter (\<lambda>f. f_used f \<noteq> 0) files)"

fun store_of :: "disk \<times> diag \<Rightarrow> store" where
  "store_of (files, d) = (lookup files, used_slots files)"

lemma length_filter_update:
  "i < length xs \<Longrightarrow>
    length (filter P (xs[i := y])) + (if P (xs ! i) then 1 else 0) =
    length (filter P xs) + (if P y then 1 else 0)"
proof (induction xs arbitrary: i)
  case (Cons x xs)
  then show ?case by (cases i) auto
qed simp

lemma used_slots_full:
  "disk_wf files \<Longrightarrow> used_slots files < MAX_FILES \<longleftrightarrow> \<not> (\<forall>j < MAX_FILES. f_used (files ! j) \<noteq> 0)"
proof -
  assume "disk_wf files"
  then have len: "length files = MAX_FILES" by (rule disk_wf_length)
  show ?thesis
  proof
    assume "used_slots files < MAX_FILES"
    then have "filter (\<lambda>f. f_used f \<noteq> 0) files \<noteq> files" using len by (auto simp: used_slots_def)
    then show "\<not> (\<forall>j < MAX_FILES. f_used (files ! j) \<noteq> 0)"
      using len by (auto simp: filter_id_conv in_set_conv_nth)
  next
    assume "\<not> (\<forall>j < MAX_FILES. f_used (files ! j) \<noteq> 0)"
    then obtain j where "j < MAX_FILES" "f_used (files ! j) = 0" by blast
    then show "used_slots files < MAX_FILES"
      using length_filter_less[of "files ! j" files "\<lambda>f. f_used f \<noteq> 0"] len
      by (simp add: used_slots_def)
  qed
qed

lemma create_refines:
  assumes "disk_wf files" "terminated name"
  shows "\<exists>c'. disk_step (Create name) (files, d) =
      Some (fst (store_step (Create name) (store_of (files, d))), c') \<and>
    store_of c' = snd (store_step (Create name) (store_of (files, d))) \<and> disk_wf (fst c')"
proof (cases "\<forall>j < MAX_FILES. f_used (files ! j) \<noteq> 0")
  case True
  with ramdisk_create_full[OF assms(1)] used_slots_full[OF assms(1)] assms show ?thesis by simp
next
  case False
  then obtain i where i: "i < MAX_FILES" "f_used (files ! i) = 0" "\<forall>j < i. f_used (files ! j) \<noteq> 0"
    by (rule first_free)
  have "used_slots (files[i := fresh_file name (files ! i)]) = Suc (used_slots files)"
    using i length_filter_update[of i files "\<lambda>f. f_used f \<noteq> 0" "fresh_file name (files ! i)"]
    by (simp add: used_slots_def disk_wf_length[OF assms(1)] fresh_file_def)
  with False i ramdisk_create_free[OF assms i] lookup_create[OF assms(1) i(1,2)]
    create_disk_wf[OF assms(1) i] used_slots_full[OF assms(1)] show ?thesis by simp
qed

lemma write_refines:
  assumes "disk_wf files" "terminated name" "terminated data"
  shows "\<exists>c'. disk_step (Write name data) (files, d) =
      Some (fst (store_step (Write name data) (store_of (files, d))), c') \<and>
    store_of c' = snd (store_step (Write name data) (store_of (files, d))) \<and> disk_wf (fst c')"
proof (cases "lookup files (cstr name)")
  case None
  with ramdisk_write_missing[OF assms(1,2)] assms show ?thesis by simp
next
  case (Some c)
  then obtain f where "find (named (cstr name)) files = Some f" by (auto simp: lookup_def)
  then obtain i where i: "i < length files" "files ! i = f" "named (cstr name) f"
      "\<forall>j < i. \<not> named (cstr name) (files ! j)" by (elim findE)
  have i16: "i < MAX_FILES" using i(1) disk_wf_length[OF assms(1)] by simp
  have nm: "named (cstr name) (files ! i)" "f_used (files ! i) \<noteq> 0" using i by (auto simp: named_def)
  have "used_slots (files[i := stored data (files ! i)]) = used_slots files"
    using i(1) length_filter_update[of i files "\<lambda>f. f_used f \<noteq> 0" "stored data (files ! i)"]
    by (simp add: used_slots_def)
  with Some ramdisk_write_found[OF assms i16 nm(1) i(4)] lookup_write[OF assms(1) i16 nm(1) i(4)]
    write_disk_wf[OF assms(1) i16 nm(2)] show ?thesis by simp
qed

interpretation rd: refinement "\<lambda>(files, d). disk_wf files" store_of "\<lambda>op _. op_strings op" disk_step store_step
proof (unfold_locales, goal_cases)
  case (1 c op)
  obtain files d where c: "c = (files, d)" by fastforce
  with 1 have wf: "disk_wf files" and str: "op_strings op" by auto
  show ?case
  proof (cases op)
    case (Create name)
    with create_refines[OF wf, of name d] str c show ?thesis by (auto simp: case_prod_beta)
  next
    case (Write name data)
    with write_refines[OF wf, of name data d] str c show ?thesis by (auto simp: case_prod_beta)
  qed
qed

section \<open>Initialisation\<close>

definition file_shape :: "File \<Rightarrow> bool" where
  "file_shape f \<longleftrightarrow> length (f_name f) = 32 \<and> length (f_data f) = MAX_FILE_SIZE"

lemma init_loop_eq:
  "i \<le> MAX_FILES \<Longrightarrow> length files = MAX_FILES \<Longrightarrow>
    init_loop i files = Some (take i files @ map (\<lambda>f. f\<lparr>f_used := 0\<rparr>) (drop i files))"
proof (induction "MAX_FILES - i" arbitrary: i files)
  case 0
  then show ?case by (simp add: init_loop.simps)
next
  case (Suc k)
  then have i: "i < MAX_FILES" "i < length files" by simp_all
  let ?f = "(files ! i)\<lparr>f_used := 0\<rparr>"
  have "init_loop i files = init_loop (Suc i) (files[i := ?f])"
    using i by (simp add: init_loop.simps[of i])
  also have "\<dots> = Some (take (Suc i) (files[i := ?f]) @
      map (\<lambda>f. f\<lparr>f_used := 0\<rparr>) (drop (Suc i) (files[i := ?f])))"
    by (rule Suc.hyps(1)) (use Suc i in auto)
  also have "\<dots> = Some (take i files @ map (\<lambda>f. f\<lparr>f_used := 0\<rparr>) (drop i files))"
    using i by (simp add: take_Suc_update flip: Cons_nth_drop_Suc)
  finally show ?case .
qed

lemma ramdisk_init_eq:
  "length files = MAX_FILES \<Longrightarrow> ramdisk_init files = Some (map (\<lambda>f. f\<lparr>f_used := 0\<rparr>) files)"
  by (simp add: ramdisk_init_def init_loop_eq)

lemma ramdisk_init_wf:
  assumes "length files = MAX_FILES" "\<forall>f \<in> set files. file_shape f"
  shows "\<exists>files'. ramdisk_init files = Some files' \<and> disk_wf files' \<and>
    store_of (files', d) = (Map.empty, 0)"
proof -
  let ?fs = "map (\<lambda>f. f\<lparr>f_used := 0\<rparr>) files"
  have "find (named k) ?fs = None" for k by (auto simp: find_None_iff named_def)
  then have "lookup ?fs = Map.empty" by (auto simp: lookup_def)
  moreover have "used_slots ?fs = 0" by (simp add: used_slots_def filter_map o_def)
  moreover have "disk_wf ?fs" using assms by (auto simp: disk_wf_def file_wf_def file_shape_def)
  ultimately show ?thesis using ramdisk_init_eq[OF assms(1)] by simp
qed

text \<open>The table as the start-up code leaves it: all bytes of \<open>.bss\<close> are zero.\<close>

definition blank_disk :: disk where
  "blank_disk = replicate MAX_FILES
     \<lparr>f_name = replicate 32 0, f_data = replicate MAX_FILE_SIZE 0, f_size = 0, f_used = 0\<rparr>"

lemma blank_disk_wf: "disk_wf blank_disk"
  by (auto simp: blank_disk_def disk_wf_def file_wf_def)

lemma blank_disk_shape: "length blank_disk = MAX_FILES" "\<forall>f \<in> set blank_disk. file_shape f"
  by (auto simp: blank_disk_def file_shape_def)

section \<open>Properties of the RAM disk\<close>

fun disk_run :: "disk_op list \<Rightarrow> disk \<times> diag \<Rightarrow> (int list \<times> disk \<times> diag) option" where
  "disk_run [] c = Some ([], c)"
| "disk_run (op # ops) c = do {
     (r, c) \<leftarrow> disk_step op c;
     (rs, c) \<leftarrow> disk_run ops c;
     Some (r # rs, c)
   }"

fun store_run :: "disk_op list \<Rightarrow> store \<Rightarrow> int list \<times> store" where
  "store_run [] a = ([], a)"
| "store_run (op # ops) a =
     (case store_step op a of (r, a) \<Rightarrow> (case store_run ops a of (rs, a) \<Rightarrow> (r # rs, a)))"

lemma disk_run_eq: "disk_run ops c = rd.run ops c"
  by (induction ops arbitrary: c) auto

lemma store_run_eq: "store_run ops a = rd.arun ops a"
  by (induction ops arbitrary: a) auto

text \<open>
  C1: From the table as \<open>ramdisk_init\<close> leaves it, any sequence of \<open>ramdisk_create\<close> and
  \<open>ramdisk_write\<close> calls returns and refines the abstract store: the same results, the same
  contents for every name, the same number of slots taken, and the table stays well formed:
  of every used slot the name is terminated inside its 32 bytes and the size is below 256, and
  the used slots are a prefix of the table.
\<close>

theorem ramdisk_refines_store:
  assumes "length files = MAX_FILES" "\<forall>f \<in> set files. file_shape f" "\<forall>op \<in> set ops. op_strings op"
  shows "\<exists>files0 files' d'. ramdisk_init files = Some files0 \<and>
    disk_run ops (files0, d) = Some (fst (store_run ops (Map.empty, 0)), files', d') \<and>
    store_of (files', d') = snd (store_run ops (Map.empty, 0)) \<and> disk_wf files'"
proof -
  obtain files0 where 0: "ramdisk_init files = Some files0" "disk_wf files0"
      "store_of (files0, d) = (Map.empty, 0)"
    using ramdisk_init_wf[OF assms(1,2)] by blast
  with rd.run_simulation[of "(files0, d)" ops] rd.ok_run_all[of ops] assms(3) show ?thesis
    by (auto simp: disk_run_eq store_run_eq)
qed

theorem ramdisk_refines_store_witness:
  "\<exists>files0 files' d'. ramdisk_init blank_disk = Some files0 \<and>
    disk_run [Create (lit ''file1''), Write (lit ''file1'') (lit ''Hello FauzanOS!'')]
      (files0, \<lparr>uptime_sec = 0, file_count = 0\<rparr>) =
      Some (fst (store_run [Create (lit ''file1''), Write (lit ''file1'') (lit ''Hello FauzanOS!'')]
        (Map.empty, 0)), files', d') \<and>
    store_of (files', d') =
      snd (store_run [Create (lit ''file1''), Write (lit ''file1'') (lit ''Hello FauzanOS!'')] (Map.empty, 0)) \<and>
    disk_wf files'"
  by (rule ramdisk_refines_store[OF blank_disk_shape]) simp

text \<open>
  C2: What is written is read back. When the file exists, \<open>ramdisk_write\<close> succeeds and
  \<open>ramdisk_read\<close> of the same name then returns the first 255 bytes of the text, zero
  terminated, in a buffer that is large enough; reading any other name is not affected.
\<close>

theorem ramdisk_write_read:
  assumes "disk_wf files" "terminated name" "terminated data" "lookup files (cstr name) \<noteq> None"
    and "length (take 255 (cstr data)) < length buffer"
  shows "\<exists>files'. ramdisk_write name data files = Some (0, files') \<and>
    ramdisk_read name buffer files' = Some (0, take 255 (cstr data) @
      0 # drop (Suc (length (take 255 (cstr data)))) buffer) \<and>
    (\<forall>name' buffer'. terminated name' \<and> cstr name' \<noteq> cstr name \<longrightarrow>
      ramdisk_read name' buffer' files' = ramdisk_read name' buffer' files)"
proof -
  obtain files' where f: "ramdisk_write name data files = Some (0, files')" "disk_wf files'"
      "lookup files' = (lookup files)(cstr name \<mapsto> take 255 (cstr data))"
    using write_refines[OF assms(1-3), of "\<lparr>uptime_sec = 0, file_count = 0\<rparr>"] assms(4) by auto
  have "ramdisk_read name' buffer' files' = ramdisk_read name' buffer' files"
    if "terminated name'" "cstr name' \<noteq> cstr name" for name' buffer'
    using that f(2,3) assms(1) ramdisk_read_missing[of _ name'] ramdisk_read_found[of _ name']
    by (cases "lookup files (cstr name')") simp_all
  with f ramdisk_read_found[OF f(2) assms(2), of "take 255 (cstr data)" buffer] assms(5)
  show ?thesis by simp
qed

definition one_file_disk :: disk where
  "one_file_disk = blank_disk[0 := fresh_file (lit ''file1'') (blank_disk ! 0)]"

lemma one_file_disk_wf: "disk_wf one_file_disk"
  unfolding one_file_disk_def
  by (rule create_disk_wf[OF blank_disk_wf]) (simp_all add: blank_disk_def MAX_FILES_def)

lemma one_file_disk_lookup: "lookup one_file_disk (ascii ''file1'') = Some []"
proof -
  have "lookup blank_disk = Map.empty"
    by (auto simp: lookup_def find_None_iff named_def blank_disk_def)
  then show ?thesis
    unfolding one_file_disk_def
    using lookup_create[OF blank_disk_wf, of 0 "lit ''file1''"]
    by (simp add: blank_disk_def MAX_FILES_def lit_def ascii_def)
qed

theorem ramdisk_write_read_witness:
  "disk_wf one_file_disk \<and> (\<exists>files'.
    ramdisk_write (lit ''file1'') (lit ''Hello FauzanOS!'') one_file_disk = Some (0, files') \<and>
    ramdisk_read (lit ''file1'') (replicate 128 0) files' =
      Some (0, ascii ''Hello FauzanOS!'' @ 0 # replicate 112 0))"
  using ramdisk_write_read[OF one_file_disk_wf, of "lit ''file1''" "lit ''Hello FauzanOS!''" "replicate 128 0"]
    one_file_disk_lookup one_file_disk_wf
  by (auto simp: cstr_lit ascii_def lit_def)

text \<open>
  C5: A file whose name has 32 or more characters can be created but is not found again under
  that name: while a slot is free \<open>ramdisk_create\<close> succeeds, takes a slot and makes the name cut
  to 31 bytes a file of the disk; but \<open>ramdisk_read\<close> and \<open>ramdisk_write\<close> of the name that was
  given then answer -1 and change nothing.
\<close>

theorem ramdisk_long_name_unreachable:
  assumes wf: "disk_wf files" and name: "terminated name" "31 < length (cstr name)" and free: "used_slots files < MAX_FILES"
  shows "\<exists>files' d'. ramdisk_create name files d = Some (0, files', d') \<and> used_slots files' = Suc (used_slots files) \<and>
    lookup files' (take 31 (cstr name)) \<noteq> None \<and>
    (\<forall>buffer. ramdisk_read name buffer files' = Some (- 1, buffer)) \<and>
    (\<forall>data. ramdisk_write name data files' = Some (- 1, files'))"
proof -
  obtain files' d' where c: "ramdisk_create name files d = Some (0, files', d')" "disk_wf files'"
      "used_slots files' = Suc (used_slots files)" "lookup files' (take 31 (cstr name)) \<noteq> None"
    using create_refines[OF wf name(1), of d] free by (auto split: if_splits)
  have "\<not> named (cstr name) f" if "f \<in> set files'" for f
    using that c(2) name length_cstr_less[of "f_name f"] by (auto simp: disk_wf_def file_wf_def named_def)
  then have "lookup files' (cstr name) = None" by (auto simp: lookup_def find_None_iff)
  with c name(1) show ?thesis by (simp add: ramdisk_read_missing ramdisk_write_missing)
qed

theorem ramdisk_long_name_unreachable_witness:
  "\<exists>files' d'. ramdisk_create (replicate 40 97 @ [0]) one_file_disk \<lparr>uptime_sec = 0, file_count = 1\<rparr> = Some (0, files', d') \<and>
     ramdisk_read (replicate 40 97 @ [0]) [] files' = Some (- 1, [])"
proof -
  have "terminated (replicate 40 97 @ [0])" "31 < length (cstr (replicate 40 97 @ [0]))"
    by (simp_all add: cstr_append_zero)
  moreover have "used_slots one_file_disk < MAX_FILES"
    by (simp add: one_file_disk_def blank_disk_def MAX_FILES_def used_slots_def fresh_file_def numeral_nat)
  ultimately show ?thesis
    using ramdisk_long_name_unreachable[OF one_file_disk_wf, of "replicate 40 97 @ [0]"] by fastforce
qed

end
