(* ===== verification/NetStack.thy ===== *)
theory NetStack
  imports EthDrv OnesSum
begin

text \<open>
  The packet handler of \<open>src/src/net.c\<close> and \<open>src/include/net.h\<close>: ARP requests and pings
  for the fixed address 192.168.1.2 are answered. A packet is a byte list; the packed
  headers are fields at byte offsets of it: the Ethernet header at 0, the ARP or IP header
  at 14, the ICMP header at 34. A field outside the packet object is \<open>None\<close>.
\<close>

definition zanos_mac :: bytes where
  "zanos_mac = [0xDE, 0xAD, 0xBE, 0xEF, 0x01, 0x02]"

definition zanos_ip :: u32 where
  "zanos_ip = 0x0201A8C0"

definition ETHTYPE_ARP :: u16 where "ETHTYPE_ARP = 0x0608"
definition ETHTYPE_IP :: u16 where "ETHTYPE_IP = 0x0008"
definition ARP_OP_REQUEST :: u16 where "ARP_OP_REQUEST = 0x0100"
definition ARP_OP_REPLY :: u16 where "ARP_OP_REPLY = 0x0200"
definition IP_PROTO_ICMP :: u8 where "IP_PROTO_ICMP = 1"
definition ICMP_TYPE_ECHO_REQUEST :: u8 where "ICMP_TYPE_ECHO_REQUEST = 8"
definition ICMP_TYPE_ECHO_REPLY :: u8 where "ICMP_TYPE_ECHO_REPLY = 0"

lemmas net_consts = ETHTYPE_ARP_def ETHTYPE_IP_def ARP_OP_REQUEST_def ARP_OP_REPLY_def
  IP_PROTO_ICMP_def ICMP_TYPE_ECHO_REQUEST_def ICMP_TYPE_ECHO_REPLY_def

definition ntons :: "u16 \<Rightarrow> u16" where
  "ntons n = push_bit 8 (n AND 0xFF) OR drop_bit 8 (n AND 0xFF00)"

section \<open>The checksum\<close>

text \<open>
  \<open>checksum(vdata, length)\<close>: the summing loop from word \<open>i\<close> on, the folding loop and the
  function. The accumulator is a 32-bit word.
\<close>

function sum_loop :: "bytes \<Rightarrow> nat \<Rightarrow> nat \<Rightarrow> u32 \<Rightarrow> u32 option" where
  "sum_loop data n i acc =
     (if i < n then do {
        w \<leftarrow> rd16 data (2 * i);
        sum_loop data n (Suc i) (acc + ucast w)
      } else Some acc)"
  by pat_completeness auto
termination
  by (relation "measure (\<lambda>(data, n, i, acc). n - i)") auto

declare sum_loop.simps [simp del]

function fold_loop :: "u32 \<Rightarrow> u32" where
  "fold_loop acc =
     (if drop_bit 16 acc \<noteq> 0 then fold_loop ((acc AND 0xFFFF) + drop_bit 16 acc) else acc)"
  by pat_completeness auto
termination
proof (relation "measure unat", goal_cases)
  case (2 acc)
  then have "0 < unat acc div 65536"
    by (simp add: drop_bit_eq_div unat_div flip: unat_gt_0)
  moreover have "unat acc = unat acc div 65536 * 65536 + unat acc mod 65536"
    by (rule div_mult_mod_eq[symmetric])
  ultimately show ?case unfolding in_measure unat_fold_step by linarith
qed simp

declare fold_loop.simps [simp del]

definition checksum :: "bytes \<Rightarrow> u32 \<Rightarrow> u16 option" where
  "checksum vdata len = do {
     acc \<leftarrow> sum_loop vdata (unat (len div 2)) 0 0;
     acc \<leftarrow> (if len AND 1 \<noteq> 0 then map_option (\<lambda>b. acc + ucast b) (aget vdata (unat (len - 1)))
             else Some acc);
     Some (ucast (NOT (fold_loop acc)))
   }"

section \<open>The packet handler\<close>

definition arp_reply :: "bytes \<Rightarrow> mmio \<Rightarrow> uart \<Rightarrow> (bytes \<times> mmio \<times> uart) option" where
  "arp_reply packet d u = do {
     u \<leftarrow> uart_println (lit ''[NET] Received ARP Request. Sending Reply...'') u;
     hw_type \<leftarrow> rd16 packet 14;
     proto_type \<leftarrow> rd16 packet 16;
     sender_ip \<leftarrow> rd32 packet 28;
     let src = take 6 (drop 6 packet);
     let reply_packet = src @ zanos_mac @ bytes16 ETHTYPE_ARP @
           bytes16 hw_type @ bytes16 proto_type @ [6, 4] @ bytes16 ARP_OP_REPLY @
           zanos_mac @ bytes32 zanos_ip @ src @ bytes32 sender_ip;
     d \<leftarrow> eth_send reply_packet (of_nat (length reply_packet)) d;
     Some (packet, d, u)
   }"

definition icmp_reply :: "bytes \<Rightarrow> u32 \<Rightarrow> mmio \<Rightarrow> uart \<Rightarrow> (bytes \<times> mmio \<times> uart) option" where
  "icmp_reply packet len d u = do {
     u \<leftarrow> uart_println (lit ''[NET] Received Ping (ICMP Echo). Sending Reply...'') u;
     src_ip \<leftarrow> rd32 packet 26;
     packet \<leftarrow> wr32 packet 30 src_ip;
     packet \<leftarrow> wr32 packet 26 zanos_ip;
     packet \<leftarrow> wr16 packet 24 0;
     c \<leftarrow> checksum (drop 14 packet) 20;
     packet \<leftarrow> wr16 packet 24 c;
     packet \<leftarrow> aset packet 34 ICMP_TYPE_ECHO_REPLY;
     packet \<leftarrow> wr16 packet 36 0;
     ip_len \<leftarrow> rd16 packet 16;
     let icmp_len = ucast (ntons ip_len) - 20;
     c \<leftarrow> checksum (drop 34 packet) icmp_len;
     packet \<leftarrow> wr16 packet 36 c;
     let packet = take 6 (drop 6 packet) @ zanos_mac @ drop 12 packet;
     d \<leftarrow> eth_send packet len d;
     Some (packet, d, u)
   }"

definition net_handle_packet :: "bytes \<Rightarrow> u32 \<Rightarrow> mmio \<Rightarrow> uart \<Rightarrow> (bytes \<times> mmio \<times> uart) option" where
  "net_handle_packet packet len d u =
     (if len < 14 then Some (packet, d, u)
      else do {
        type \<leftarrow> rd16 packet 12;
        if type = ETHTYPE_ARP then do {
          opcode \<leftarrow> rd16 packet 20;
          request \<leftarrow> (if opcode = ARP_OP_REQUEST then map_option (\<lambda>ip. ip = zanos_ip) (rd32 packet 38)
                     else Some False);
          if request then arp_reply packet d u else Some (packet, d, u)
        } else if type = ETHTYPE_IP then do {
          dest_ip \<leftarrow> rd32 packet 30;
          icmp \<leftarrow> (if dest_ip = zanos_ip then map_option (\<lambda>p. p = IP_PROTO_ICMP) (aget packet 23)
                  else Some False);
          if icmp then do {
            ty \<leftarrow> aget packet 34;
            if ty = ICMP_TYPE_ECHO_REQUEST then icmp_reply packet len d u
            else Some (packet, d, u)
          } else Some (packet, d, u)
        } else Some (packet, d, u)
      })"

section \<open>The checksum is the Internet checksum\<close>

lemma lesum_Cons2:
  "2 * k + 1 < length bs \<Longrightarrow>
    lesum (drop (2 * k) bs) = unat (le16 (bs ! (2 * k)) (bs ! (2 * k + 1))) + lesum (drop (2 * Suc k) bs)"
  by (simp add: unat_le16 flip: Cons_nth_drop_Suc)

lemma sum_loop_eq:
  assumes "2 * n \<le> length data" "i \<le> n"
    and "unat acc + lesum (take (2 * n) data) < lesum (take (2 * i) data) + 2 ^ 32"
  shows "\<exists>r. sum_loop data n i acc = Some r \<and>
    unat r + lesum (take (2 * i) data) = unat acc + lesum (take (2 * n) data)"
  using assms
proof (induction "n - i" arbitrary: i acc)
  case 0
  then show ?case by (subst sum_loop.simps) auto
next
  case (Suc k)
  then have i: "i < n" "Suc (2 * i) < length data" by simp_all
  let ?w = "le16 (data ! (2 * i)) (data ! Suc (2 * i))"
  have step: "lesum (take (2 * Suc i) data) = lesum (take (2 * i) data) + unat ?w"
    using i lesum_append[of "take (2 * i) data" "[data ! (2 * i), data ! Suc (2 * i)]"]
    by (simp add: take_Suc_conv_app_nth unat_le16)
  have mono: "lesum (take (2 * Suc i) data) \<le> lesum (take (2 * n) data)"
    using i(1) by (intro lesum_take_mono) simp_all
  have acc: "unat (acc + ucast ?w) = unat acc + unat ?w"
    using Suc.prems(3) step mono by (simp add: unat_word_ariths)
  have "sum_loop data n i acc = sum_loop data n (Suc i) (acc + ucast ?w)"
    using i by (simp add: sum_loop.simps[of data n i])
  moreover have "\<exists>r. sum_loop data n (Suc i) (acc + ucast ?w) = Some r \<and>
      unat r + lesum (take (2 * Suc i) data) = unat (acc + ucast ?w) + lesum (take (2 * n) data)"
    by (rule Suc.hyps(1)) (use Suc.hyps(2) Suc.prems i acc step in \<open>simp_all\<close>)
  ultimately show ?case using acc step by auto
qed

lemma unat_fold_loop: "unat (fold_loop s) = fold_sum (unat s)"
proof (induction s rule: fold_loop.induct)
  case (1 s)
  show ?case
  proof (cases "drop_bit 16 s = 0")
    case True
    then have "unat s div 65536 = 0" by (simp add: drop_bit_eq_div flip: unat_eq_0 add: unat_div)
    then have "unat s \<le> 65535" by (simp add: div_eq_0_iff)
    with True show ?thesis by (simp add: fold_loop.simps[of s] fold_sum_small)
  next
    case False
    with 1 have "unat (fold_loop s) = fold_sum (unat ((s AND 0xFFFF) + drop_bit 16 s))"
      by (simp add: fold_loop.simps[of s])
    then show ?thesis by (simp only: unat_fold_step fold_sum_step)
  qed
qed

lemma checksum_eq:
  assumes "n \<le> length data" "n \<le> 65535"
  shows "\<exists>c. checksum data (of_nat n) = Some c \<and> unat c = 65535 - fold_sum (lesum (take n data))"
proof -
  have n: "unat (of_nat n :: u32) = n" using assms(2) by (simp add: unsigned_of_nat take_bit_nat_eq_self)
  then have half: "unat ((of_nat n :: u32) div 2) = n div 2" by (simp add: unat_div)
  have odd: "(of_nat n :: u32) AND 1 \<noteq> 0 \<longleftrightarrow> odd n"
  proof -
    have "unat ((of_nat n :: u32) AND 1) = n mod 2" by (simp add: and_one_eq unat_mod n)
    then show ?thesis by (metis odd_iff_mod_2_eq_one unat_eq_0 zero_neq_one not_mod_2_eq_0_eq_1)
  qed
  have bound: "lesum (take m data) < 2 ^ 32" if "m \<le> n" for m
  proof -
    have "length (take m data) + 1 \<le> 65536" using that assms by simp
    then have "(length (take m data) + 1) div 2 \<le> 65536 div 2" by (rule div_le_mono)
    then have "(length (take m data) + 1) div 2 \<le> 32768" by simp
    then have "65535 * ((length (take m data) + 1) div 2) \<le> 65535 * 32768" by (rule mult_le_mono2)
    also have "(65535 * 32768 :: nat) < 2 ^ 32" by simp
    finally show ?thesis using lesum_le[of "take m data"] by (rule le_less_trans[rotated])
  qed
  obtain r where r: "sum_loop data (n div 2) 0 0 = Some r" "unat r = lesum (take (2 * (n div 2)) data)"
  proof -
    have "2 * (n div 2) \<le> length data" using assms(1) by simp
    with sum_loop_eq[of "n div 2" data 0 0] bound[of "2 * (n div 2)"] show thesis using that by auto
  qed
  obtain s where s: "(if (of_nat n :: u32) AND 1 \<noteq> 0
      then map_option (\<lambda>b. r + ucast b) (aget data (unat (of_nat n - 1 :: u32))) else Some r) = Some s"
    "unat s = lesum (take n data)"
  proof (cases "even n")
    case True
    then have "\<not> (of_nat n :: u32) AND 1 \<noteq> 0" using odd by blast
    moreover have "2 * (n div 2) = n" using True by simp
    ultimately show thesis using r that[of r] by (simp only: if_False)
  next
    case False
    then have o: "(of_nat n :: u32) AND 1 \<noteq> 0" using odd by blast
    have m: "2 * (n div 2) = n - 1" "n - 1 < length data" "0 < n" using False assms(1) by presburger+
    have "unat (of_nat n - 1 :: u32) = n - 1"
    proof -
      have "(of_nat n - 1 :: u32) = of_nat (n - 1)" using m(3) by simp
      then show ?thesis using assms(2) by (simp add: unsigned_of_nat take_bit_nat_eq_self)
    qed
    moreover have "lesum (take n data) = lesum (take (n - 1) data) + unat (data ! (n - 1))"
      using m False lesum_append[of "take (n - 1) data" "[data ! (n - 1)]"]
        take_Suc_conv_app_nth[of "n - 1" data] by simp
    moreover have "unat (r + ucast (data ! (n - 1))) = unat r + unat (data ! (n - 1))"
      using r(2) m bound[of n] calculation by (simp add: unat_word_ariths)
    ultimately show thesis using o m r(2) that[of "r + ucast (data ! (n - 1))"]
      by (simp only: if_True aget_in option.map simp_thms)
  qed
  have "checksum data (of_nat n) = Some (ucast (NOT (fold_loop s)))"
    unfolding checksum_def half r(1) Option.bind.bind_lunit by (subst s(1)) simp
  moreover have "unat (ucast (NOT (fold_loop s)) :: u16) = 65535 - fold_sum (lesum (take n data))"
    using unat_not_low[of "fold_loop s"] fold_sum_le[of "unat s"] s(2) by (simp add: unat_fold_loop)
  ultimately show ?thesis by blast
qed

definition cksum :: "bytes \<Rightarrow> u16" where
  "cksum bs = the (checksum bs (of_nat (length bs)))"

interpretation net_ck: chksum cksum 65535
  by unfold_locales (use checksum_eq in \<open>fastforce simp: cksum_def\<close>)

lemma checksum_cksum:
  assumes "n \<le> length data" "n \<le> 65535"
  shows "checksum data (of_nat n) = Some (cksum (take n data))"
proof -
  have "checksum data (of_nat n) = checksum (take n data) (of_nat n)"
    using checksum_eq[OF assms] checksum_eq[of n "take n data"] assms
    by (metis length_take min.absorb2 order_refl take_all unsigned_word_eqI)
  also have "\<dots> = Some (cksum (take n data))"
    using checksum_eq[of n "take n data"] assms by (auto simp: cksum_def min.absorb2)
  finally show ?thesis .
qed

text \<open>Storing the checksum of a region in a zeroed field of it makes the region verify.\<close>

lemma checksum_stored:
  assumes "off + n \<le> length p" "n \<le> 65535" "even k" "Suc k < n"
    "p ! (off + k) = 0" "p ! (off + Suc k) = 0" "checksum (drop off p) (of_nat n) = Some c"
  shows "checksum (drop off (p[off + k := byte_at 0 c, off + Suc k := byte_at 1 c])) (of_nat n) = Some 0"
proof -
  let ?r = "take n (drop off p)"
  have c: "c = cksum ?r" using checksum_cksum[of n "drop off p"] assms by simp
  have "take n (drop off (p[off + k := byte_at 0 c, off + Suc k := byte_at 1 c])) =
      ?r[k := byte_at 0 c, Suc k := byte_at 1 c]"
    by (simp add: drop_update_swap take_update_swap)
  moreover have "cksum (?r[k := byte_at 0 c, Suc k := byte_at 1 c]) = 0"
    unfolding c by (rule net_ck.cks_insert) (use assms in simp_all)
  ultimately show ?thesis
    using checksum_cksum[of n "drop off (p[off + k := byte_at 0 c, off + Suc k := byte_at 1 c])"] assms
    by simp
qed

section \<open>Pings are answered with valid checksums\<close>

text \<open>The total length of the IP header, which is big-endian on the wire.\<close>

definition ip_total :: "bytes \<Rightarrow> nat" where
  "ip_total p = 256 * unat (p ! 16) + unat (p ! 17)"

definition echo_request :: "bytes \<Rightarrow> bool" where
  "echo_request p \<longleftrightarrow> 42 \<le> length p \<and> le16 (p ! 12) (p ! 13) = ETHTYPE_IP \<and>
     le32 (p ! 30) (p ! 31) (p ! 32) (p ! 33) = zanos_ip \<and> p ! 23 = IP_PROTO_ICMP \<and>
     p ! 34 = ICMP_TYPE_ECHO_REQUEST \<and> 28 \<le> ip_total p \<and> ip_total p + 14 \<le> length p"

lemma ntons_le16: "ntons (le16 a b) = le16 b a"
proof -
  have "ntons (le16 a b) = push_bit 8 (le16 a b AND mask 8) OR drop_bit 8 (le16 a b AND push_bit 8 (mask 8))"
    by (simp add: ntons_def mask_eq_decr_exp push_bit_eq_mult)
  also have "\<dots> = le16 b a"
    by (rule bit_word_eqI) (auto simp: le16_def bit_simps)
  finally show ?thesis .
qed

lemma icmp_len:
  assumes "20 \<le> 256 * unat a + unat b"
  shows "ucast (ntons (le16 a b)) - 20 = (of_nat (256 * unat a + unat b - 20) :: u32)"
proof -
  have "unat (ntons (le16 a b)) = 256 * unat a + unat b"
    by (simp add: ntons_le16 unat_le16)
  then have "(ucast (ntons (le16 a b)) :: u32) = of_nat (256 * unat a + unat b)"
    by (metis of_nat_unat)
  then show ?thesis using assms by simp
qed

text \<open>
  The rewriting of the request in place: \<open>ip_stage\<close> is the packet with the IP header
  finished, \<open>icmp_stage\<close> the one with the ICMP header finished.
\<close>

definition ip_cleared :: "bytes \<Rightarrow> bytes" where
  "ip_cleared p = p[30 := p ! 26, 31 := p ! 27, 32 := p ! 28, 33 := p ! 29,
     26 := byte_at 0 zanos_ip, 27 := byte_at 1 zanos_ip, 28 := byte_at 2 zanos_ip, 29 := byte_at 3 zanos_ip,
     24 := 0, 25 := 0]"

definition ip_stage :: "u16 \<Rightarrow> bytes \<Rightarrow> bytes" where
  "ip_stage c p = (ip_cleared p)[24 := byte_at 0 c, 25 := byte_at 1 c]"

definition icmp_cleared :: "u16 \<Rightarrow> bytes \<Rightarrow> bytes" where
  "icmp_cleared c p = (ip_stage c p)[34 := 0, 36 := 0, 37 := 0]"

definition icmp_stage :: "u16 \<Rightarrow> u16 \<Rightarrow> bytes \<Rightarrow> bytes" where
  "icmp_stage c c' p = (icmp_cleared c p)[36 := byte_at 0 c', 37 := byte_at 1 c']"

lemmas stage_defs = ip_cleared_def ip_stage_def icmp_cleared_def icmp_stage_def

lemma length_stages [simp]:
  "length (ip_cleared p) = length p" "length (ip_stage c p) = length p"
  "length (icmp_cleared c p) = length p" "length (icmp_stage c c' p) = length p"
  by (simp_all add: stage_defs)

lemma take4_drop:
  "k + 4 \<le> length xs \<Longrightarrow> take 4 (drop k xs) = [xs ! k, xs ! (k + 1), xs ! (k + 2), xs ! (k + 3)]"
  by (intro nth_equalityI) (auto simp: less_Suc_eq numeral_eq_Suc)

lemma byte_at_0 [simp]: "byte_at k 0 = 0"
  by (simp add: byte_at_def)

lemma icmp_reply_stages:
  assumes "42 \<le> length p" "28 \<le> ip_total p" "ip_total p + 14 \<le> length p"
    "uart_println (lit ''[NET] Received Ping (ICMP Echo). Sending Reply...'') u = Some u'"
    "checksum (drop 14 (ip_cleared p)) 20 = Some c"
    "checksum (drop 34 (icmp_cleared c p)) (of_nat (ip_total p - 20)) = Some c'"
  shows "icmp_reply p len d u = (let p' = take 6 (drop 6 (icmp_stage c c' p)) @ zanos_mac @
      drop 12 (icmp_stage c c' p) in map_option (\<lambda>d'. (p', d', u')) (eth_send p' len d))"
proof -
  have il: "ucast (ntons (le16 (p ! 16) (p ! 17))) - 20 = (of_nat (ip_total p - 20) :: u32)"
    using icmp_len[of "p ! 16" "p ! 17"] assms(2) by (simp add: ip_total_def)
  have "icmp_reply p len d u = do {
     let packet = ip_cleared p;
     c \<leftarrow> checksum (drop 14 packet) 20;
     let packet = icmp_cleared c p;
     c' \<leftarrow> checksum (drop 34 packet) (of_nat (ip_total p - 20));
     let packet = icmp_stage c c' p;
     let packet = take 6 (drop 6 packet) @ zanos_mac @ drop 12 packet;
     d \<leftarrow> eth_send packet len d;
     Some (packet, d, u')
   }"
    using assms(1) il
    by (simp add: icmp_reply_def assms(4) wr16_in wr32_in ip_cleared_def ip_stage_def icmp_cleared_def
        icmp_stage_def ICMP_TYPE_ECHO_REPLY_def Let_def)
  then show ?thesis by (simp add: assms(5,6) Let_def map_option_case split: option.splits)
qed

text \<open>What a reply \<open>q\<close> to the request \<open>p\<close> must be.\<close>

definition echo_reply :: "bytes \<Rightarrow> bytes \<Rightarrow> bool" where
  "echo_reply p q \<longleftrightarrow> length q = length p \<and>
     take 6 q = take 6 (drop 6 p) \<and> take 6 (drop 6 q) = zanos_mac \<and>
     take 4 (drop 26 q) = bytes32 zanos_ip \<and> take 4 (drop 30 q) = take 4 (drop 26 p) \<and>
     q ! 34 = ICMP_TYPE_ECHO_REPLY \<and>
     checksum (drop 14 q) 20 = Some 0 \<and> checksum (drop 34 q) (of_nat (ip_total p - 20)) = Some 0 \<and>
     (\<forall>k < length p. 12 \<le> k \<and> (k < 24 \<or> k = 35 \<or> 37 < k) \<longrightarrow> q ! k = p ! k)"

lemma stage_checksums:
  assumes "42 \<le> length p" "28 \<le> ip_total p" "ip_total p + 14 \<le> length p"
  shows "\<exists>c c'. checksum (drop 14 (ip_cleared p)) 20 = Some c \<and>
    checksum (drop 34 (icmp_cleared c p)) (of_nat (ip_total p - 20)) = Some c' \<and>
    checksum (drop 14 (icmp_stage c c' p)) 20 = Some 0 \<and>
    checksum (drop 34 (icmp_stage c c' p)) (of_nat (ip_total p - 20)) = Some 0"
proof -
  let ?n = "ip_total p - 20"
  have n: "?n \<le> 65535" "34 + ?n \<le> length p" "3 < ?n"
    using assms unat_u8_lt[of "p ! 16"] unat_u8_lt[of "p ! 17"] by (simp_all add: ip_total_def)
  obtain c where c: "checksum (drop 14 (ip_cleared p)) (of_nat 20) = Some c"
    using checksum_cksum[of 20 "drop 14 (ip_cleared p)"] assms(1) by simp
  have c0: "checksum (drop 14 (ip_stage c p)) (of_nat 20) = Some 0"
    using checksum_stored[of 14 20 "ip_cleared p" 10 c] assms(1) c
    by (simp add: ip_stage_def ip_cleared_def)
  obtain c' where c': "checksum (drop 34 (icmp_cleared c p)) (of_nat ?n) = Some c'"
    using checksum_cksum[of ?n "drop 34 (icmp_cleared c p)"] n by simp
  have c'0: "checksum (drop 34 (icmp_stage c c' p)) (of_nat ?n) = Some 0"
    using checksum_stored[of 34 ?n "icmp_cleared c p" 2 c'] n assms(1) c'
    by (simp add: icmp_stage_def icmp_cleared_def)
  have "take 20 (drop 14 (icmp_stage c c' p)) = take 20 (drop 14 (ip_stage c p))"
    by (simp add: icmp_stage_def icmp_cleared_def drop_update_swap take_update_cancel)
  then have "checksum (drop 14 (icmp_stage c c' p)) (of_nat 20) = Some 0"
    using c0 checksum_cksum[of 20 "drop 14 (icmp_stage c c' p)"]
      checksum_cksum[of 20 "drop 14 (ip_stage c p)"] assms(1) by simp
  with c c' c'0 show ?thesis by auto
qed

lemma echo_reply_stages:
  assumes "42 \<le> length p" "q = take 6 (drop 6 (icmp_stage c c' p)) @ zanos_mac @ drop 12 (icmp_stage c c' p)"
    "checksum (drop 14 (icmp_stage c c' p)) 20 = Some 0"
    "checksum (drop 34 (icmp_stage c c' p)) (of_nat (ip_total p - 20)) = Some 0"
  shows "echo_reply p q"
proof -
  let ?s = "icmp_stage c c' p"
  have mac: "length zanos_mac = 6" by (simp add: zanos_mac_def)
  have dq: "drop k q = drop k ?s" if "12 \<le> k" for k
    using that assms(1,2) mac by simp
  have nq: "q ! k = ?s ! k" if "12 \<le> k" for k
    using that dq[of 12] nth_drop[of 12 q "k - 12"] nth_drop[of 12 ?s "k - 12"] assms(1,2) mac by simp
  have "take 6 (drop 6 ?s) = take 6 (drop 6 p)"
    by (simp add: stage_defs drop_update_swap take_update_cancel)
  moreover have "take 4 (drop 26 ?s) = bytes32 zanos_ip" "take 4 (drop 30 ?s) = take 4 (drop 26 p)"
    using assms(1) take4_drop[of 26 ?s] take4_drop[of 30 ?s] take4_drop[of 26 p] by (simp_all add: stage_defs bytes32_def)
  moreover have "?s ! 34 = ICMP_TYPE_ECHO_REPLY"
    using assms(1) by (simp add: stage_defs ICMP_TYPE_ECHO_REPLY_def)
  moreover have "?s ! k = p ! k" if "k < 24 \<or> k = 35 \<or> 37 < k" for k
    using that assms(1) by (auto simp: stage_defs)
  moreover have "take 6 q = take 6 (drop 6 ?s)" "take 6 (drop 6 q) = zanos_mac" "length q = length p"
    using assms(1,2) mac by simp_all
  ultimately show ?thesis
    unfolding echo_reply_def using assms(3,4) by (simp add: dq nq)
qed

text \<open>
  C7: An ICMP echo request to the address of the machine is answered: \<open>net_handle_packet\<close>
  returns, and the frame it hands to \<open>eth_send\<close> is an echo reply to the request. The
  Ethernet and IP addresses are turned round, the type is echo reply, both the IP header
  checksum and the ICMP checksum verify, and every other byte, the payload included, is
  that of the request.
\<close>

theorem ping_answered:
  assumes "echo_request p" "live u" "unat len = length p" "length p + 4 \<le> 2 ^ 32"
  shows "\<exists>q d' u'. net_handle_packet p len d u = Some (q, d', u') \<and>
    echo_reply p q \<and> eth_send q len d = Some d'"
proof -
  have p: "42 \<le> length p" "28 \<le> ip_total p" "ip_total p + 14 \<le> length p"
    using assms(1) by (simp_all add: echo_request_def)
  obtain u' where u': "uart_println (lit ''[NET] Received Ping (ICMP Echo). Sending Reply...'') u = Some u'"
    by (rule uart_println_lit[OF assms(2)])
  obtain c c' where c: "checksum (drop 14 (ip_cleared p)) 20 = Some c"
    "checksum (drop 34 (icmp_cleared c p)) (of_nat (ip_total p - 20)) = Some c'"
    "checksum (drop 14 (icmp_stage c c' p)) 20 = Some 0"
    "checksum (drop 34 (icmp_stage c c' p)) (of_nat (ip_total p - 20)) = Some 0"
    using stage_checksums[OF p] by blast
  let ?q = "take 6 (drop 6 (icmp_stage c c' p)) @ zanos_mac @ drop 12 (icmp_stage c c' p)"
  have q: "echo_reply p ?q" using p(1) c(3,4) by (rule echo_reply_stages[OF _ refl])
  then have "length ?q = length p" by (simp only: echo_reply_def)
  then obtain d' where d': "eth_send ?q len d = Some d'"
    using eth_send_returns[of len ?q d] assms(3,4) by auto
  have "\<not> len < 14" using p(1) assms(3) by (simp add: word_less_nat_alt)
  then have "net_handle_packet p len d u = icmp_reply p len d u"
    using assms(1) p(1) by (simp add: net_handle_packet_def echo_request_def net_consts)
  also have "\<dots> = Some (?q, d', u')"
    using icmp_reply_stages[OF p u' c(1,2)] d' by (simp only: Let_def option.map)
  finally show ?thesis using q d' by blast
qed

definition ping :: bytes where
  "ping = zanos_mac @ [2, 0, 0, 0, 0, 1, 8, 0,
     0x45, 0, 0, 29, 0, 1, 0, 0, 64, 1, 0, 0, 192, 168, 1, 9, 192, 168, 1, 2,
     8, 0, 0, 0, 0, 7, 0, 1, 0x5A]"

theorem ping_answered_witness:
  "echo_request ping \<and> live idle_uart \<and>
   (\<exists>q d' u'. net_handle_packet ping 43 quiet_mac idle_uart = Some (q, d', u') \<and>
      echo_reply ping q \<and> eth_send q 43 quiet_mac = Some d')"
proof -
  have "echo_request ping"
    by (simp add: echo_request_def ping_def zanos_mac_def ip_total_def net_consts zanos_ip_def le16_def le32_def
        push_bit_eq_mult nth_Cons')
  moreover have "length ping = 43" by (simp add: ping_def zanos_mac_def)
  ultimately show ?thesis using ping_answered[of ping idle_uart 43 quiet_mac] live_idle_uart by simp
qed

lemma wire_consts:
  "byte_at 0 ETHTYPE_ARP = 8" "byte_at (Suc 0) ETHTYPE_ARP = 6"
  "byte_at 0 ARP_OP_REPLY = 0" "byte_at (Suc 0) ARP_OP_REPLY = 2"
  by (simp_all add: net_consts byte_at_def)

text \<open>
  C8: An ARP request for the address of the machine is answered with one frame of 42 bytes,
  addressed to the sender of the request, that carries the hardware address and the IP address
  of the machine as sender and those of the requester as target. The request is left as it was.
\<close>

theorem arp_answered:
  assumes "42 \<le> length p" "unat len = length p" "live u"
    "le16 (p ! 12) (p ! 13) = ETHTYPE_ARP" "le16 (p ! 20) (p ! 21) = ARP_OP_REQUEST"
    "take 4 (drop 38 p) = bytes32 zanos_ip"
  shows "\<exists>d' u'. net_handle_packet p len d u = Some (p, d', u') \<and>
    eth_send (take 6 (drop 6 p) @ zanos_mac @ [8, 6] @ take 4 (drop 14 p) @ [6, 4] @ [0, 2] @
      zanos_mac @ bytes32 zanos_ip @ take 6 (drop 6 p) @ take 4 (drop 28 p)) 42 d = Some d'"
proof -
  obtain u' where u': "uart_println (lit ''[NET] Received ARP Request. Sending Reply...'') u = Some u'"
    by (rule uart_println_lit[OF assms(3)])
  let ?f = "take 6 (drop 6 p) @ zanos_mac @ [8, 6] @ take 4 (drop 14 p) @ [6, 4] @ [0, 2] @
      zanos_mac @ bytes32 zanos_ip @ take 6 (drop 6 p) @ take 4 (drop 28 p)"
  have len: "length ?f = 42" using assms(1) by (simp add: zanos_mac_def bytes32_def)
  then obtain d' where d': "eth_send ?f 42 d = Some d'" using eth_send_returns[of 42 ?f d] by (simp only: len) auto
  have "le32 (p ! 38) (p ! 39) (p ! 40) (p ! 41) = zanos_ip"
    using assms(1,6) take4_drop[of 38 p] le32_byte_at[of zanos_ip] by (simp add: bytes32_def)
  moreover have "\<not> len < 14" using assms(1,2) by (simp add: word_less_nat_alt)
  ultimately have "net_handle_packet p len d u = arp_reply p d u"
    using assms(1,4,5) by (simp add: net_handle_packet_def)
  also have "\<dots> = Some (p, d', u')"
  proof -
    have "?f = take 6 (drop 6 p) @ zanos_mac @ bytes16 ETHTYPE_ARP @
        bytes16 (le16 (p ! 14) (p ! 15)) @ bytes16 (le16 (p ! 16) (p ! 17)) @ [6, 4] @ bytes16 ARP_OP_REPLY @
        zanos_mac @ bytes32 zanos_ip @ take 6 (drop 6 p) @ bytes32 (le32 (p ! 28) (p ! 29) (p ! 30) (p ! 31))"
      using assms(1) take4_drop[of 14 p] take4_drop[of 28 p]
      by (simp add: bytes16_def bytes32_def wire_consts)
    then show ?thesis using d' len assms(1) u' by (simp add: arp_reply_def Let_def)
  qed
  finally show ?thesis using d' by blast
qed

definition who_has :: bytes where
  "who_has = [255, 255, 255, 255, 255, 255] @ [2, 0, 0, 0, 0, 1, 8, 6, 0, 1, 8, 0, 6, 4, 0, 1] @
     [2, 0, 0, 0, 0, 1, 192, 168, 1, 9] @ [0, 0, 0, 0, 0, 0] @ [192, 168, 1, 2]"

theorem arp_answered_witness:
  "\<exists>d' u'. net_handle_packet who_has 42 quiet_mac idle_uart = Some (who_has, d', u') \<and>
    eth_send ([2, 0, 0, 0, 0, 1] @ zanos_mac @ [8, 6] @ [0, 1, 8, 0] @ [6, 4] @ [0, 2] @
      zanos_mac @ [192, 168, 1, 2] @ [2, 0, 0, 0, 0, 1] @ [192, 168, 1, 9]) 42 quiet_mac = Some d'"
proof -
  have ip: "bytes32 zanos_ip = [192, 168, 1, 2]"
    by (simp add: bytes32_def byte_at_def zanos_ip_def)
  have "length who_has = 42" "le16 (who_has ! 12) (who_has ! 13) = ETHTYPE_ARP"
    "le16 (who_has ! 20) (who_has ! 21) = ARP_OP_REQUEST" "take 4 (drop 38 who_has) = bytes32 zanos_ip"
    "take 6 (drop 6 who_has) = [2, 0, 0, 0, 0, 1]" "take 4 (drop 14 who_has) = [0, 1, 8, 0]"
    "take 4 (drop 28 who_has) = [192, 168, 1, 9]"
    by (simp_all add: who_has_def net_consts le16_def push_bit_eq_mult ip flip: numeral_eq_Suc)
  then show ?thesis using arp_answered[of who_has 42 idle_uart quiet_mac] live_idle_uart by (simp add: ip)
qed

section \<open>Frames the handler does not check\<close>

lemma sum_loop_overrun:
  assumes "length data < 2 * n" "2 * i \<le> length data"
  shows "sum_loop data n i acc = None"
  using assms
proof (induction "n - i" arbitrary: i acc)
  case (Suc k)
  show ?case
  proof (cases "Suc (2 * i) < length data")
    case True
    then show ?thesis using Suc by (subst sum_loop.simps) (auto split: bind_splits)
  next
    case False
    then have "rd16 data (2 * i) = None" by (simp add: rd16_def aget_def)
    then show ?thesis using Suc by (subst sum_loop.simps) auto
  qed
qed auto

text \<open>
  C16: The handler checks only that the Ethernet header is there. A frame of 14 to 21 bytes
  whose type is ARP is read past its end for the opcode, and one of 14 to 33 bytes whose type
  is IP for the destination address.
\<close>

theorem short_frame_overread:
  assumes "unat len = length p" "14 \<le> length p"
    "(le16 (p ! 12) (p ! 13) = ETHTYPE_ARP \<and> length p < 22) \<or>
     (le16 (p ! 12) (p ! 13) = ETHTYPE_IP \<and> length p < 34)"
  shows "net_handle_packet p len d u = None"
proof -
  have "\<not> len < 14" using assms(1,2) by (simp add: word_less_nat_alt)
  moreover have "rd16 p 20 = None" if "length p < 22"
    using that by (auto simp: rd16_def aget_def)
  moreover have "rd32 p 30 = None" if "length p < 34"
    using that by (auto simp: rd32_def aget_def bind_eq_None_conv)
  ultimately show ?thesis
    using assms(2,3) by (auto simp: net_handle_packet_def net_consts)
qed

theorem short_frame_overread_witness:
  "net_handle_packet (take 14 who_has) 14 quiet_mac idle_uart = None"
  by (rule short_frame_overread) (simp_all add: who_has_def net_consts le16_def push_bit_eq_mult)

text \<open>
  C17: The length of the ICMP message is the total length of the IP header less 20, unchecked.
  An echo request whose total length is below 20 makes it wrap around to almost 4 GiB and the
  checksum runs over the end of the frame.
\<close>

theorem icmp_length_wraps:
  assumes "42 \<le> length p" "length p < 2 ^ 31" "unat len = length p" "ip_total p < 20"
    "le16 (p ! 12) (p ! 13) = ETHTYPE_IP" "le32 (p ! 30) (p ! 31) (p ! 32) (p ! 33) = zanos_ip"
    "p ! 23 = IP_PROTO_ICMP" "p ! 34 = ICMP_TYPE_ECHO_REQUEST"
  shows "net_handle_packet p len d u = None"
proof -
  let ?l = "ucast (ntons (le16 (p ! 16) (p ! 17))) - 20 :: u32"
  have "unat (ntons (le16 (p ! 16) (p ! 17))) = ip_total p"
    by (simp add: ntons_le16 unat_le16 ip_total_def)
  then have l: "unat ?l = ip_total p + 2 ^ 32 - 20"
    using assms(4) by (simp add: unat_sub_if' unat_ucast_up)
  have "checksum q ?l = None" if "length q < 2 ^ 31" for q
    using that l sum_loop_overrun[of q "unat (?l div 2)" 0 0] by (simp add: checksum_def unat_div)
  then have "icmp_reply p len d u = None"
    using assms(1,2) by (auto simp: icmp_reply_def wr16_in wr32_in bind_eq_None_conv)
  moreover have "\<not> len < 14" using assms(1,3) by (simp add: word_less_nat_alt)
  ultimately show ?thesis
    using assms(1,5-) by (simp add: net_handle_packet_def net_consts)
qed

theorem icmp_length_wraps_witness:
  "net_handle_packet (ping[17 := 19]) 43 quiet_mac idle_uart = None"
  by (rule icmp_length_wraps)
    (simp_all add: ping_def zanos_mac_def net_consts le16_def le32_def zanos_ip_def push_bit_eq_mult ip_total_def)

end
