(* ===== verification/InetChksum.thy ===== *)
theory InetChksum
  imports LwipDef
begin

text \<open>
  The Internet checksum of lwIP, \<open>src/src/lwip/core/inet_chksum.c\<close>.

  The three variants of \<open>lwip_standard_chksum\<close> are modelled, of which the build takes the
  second: on a buffer they all compute the one's complement sum of its little-endian 16-bit
  words, whatever the alignment of the buffer. A chain of packet buffers is given as the list
  of its segments, an address and the \<open>len\<close> bytes found there. The checksum of a chain does
  not depend on how the bytes are cut into segments; with a pseudo header it is the checksum
  of the pseudo header followed by the data. Each variant interprets \<open>chksum\<close>.
\<close>

section \<open>Sums over a buffer\<close>

definition FOLD_U32T :: "u32 \<Rightarrow> u32" where
  "FOLD_U32T u = drop_bit 16 u + (u AND 0xFFFF)"

definition SWAP_BYTES_IN_WORD :: "u32 \<Rightarrow> u32" where
  "SWAP_BYTES_IN_WORD w = push_bit 8 (w AND 0xFF) OR drop_bit 8 (w AND 0xFF00)"

text \<open>\<open>while (len > 1)\<close> in network order (variant 1) and in host order (variants 2 and 3).\<close>

fun sum_net :: "bytes \<Rightarrow> nat \<Rightarrow> u32 \<Rightarrow> (bytes \<times> nat \<times> u32) option" where
  "sum_net pb len acc =
     (if 1 < len then
        (case pb of
           a # b # pb \<Rightarrow> sum_net pb (len - 2) (acc + ucast (push_bit 8 (ucast a) OR ucast b :: u16))
         | _ \<Rightarrow> None)
      else Some (pb, len, acc))"

fun sum_host :: "bytes \<Rightarrow> nat \<Rightarrow> u32 \<Rightarrow> (bytes \<times> nat \<times> u32) option" where
  "sum_host ps len acc =
     (if 1 < len then
        (case ps of
           a # b # ps \<Rightarrow> sum_host ps (len - 2) (acc + ucast (le16 a b))
         | _ \<Rightarrow> None)
      else Some (ps, len, acc))"

declare sum_net.simps [simp del] sum_host.simps [simp del]

definition lwip_standard_chksum1 :: "bytes \<Rightarrow> nat \<Rightarrow> u16 option" where
  "lwip_standard_chksum1 dataptr len = do {
     (octetptr, len, acc) \<leftarrow> sum_net dataptr len 0;
     acc \<leftarrow> (if 0 < len then map_option (\<lambda>a. acc + ucast (push_bit 8 (ucast a) :: u16)) (aget octetptr 0)
             else Some acc);
     let acc = drop_bit 16 acc + (acc AND 0xFFFF);
     let acc = (if acc AND 0xFFFF0000 \<noteq> 0 then drop_bit 16 acc + (acc AND 0xFFFF) else acc);
     Some (lwip_htons (ucast acc))
   }"

text \<open>
  Variants 2 and 3 take the address of the buffer for its alignment. The first byte of a
  buffer at an odd address becomes the high byte of \<open>t\<close>, a left-over byte its low byte.
\<close>

definition align16 :: "u32 \<Rightarrow> bytes \<Rightarrow> nat \<Rightarrow> (u8 \<times> bytes \<times> nat) option" where
  "align16 addr pb len =
     (if addr AND 1 \<noteq> 0 \<and> 0 < len then
        (case pb of a # pb \<Rightarrow> Some (a, pb, len - 1) | [] \<Rightarrow> None)
      else Some (0, pb, len))"

definition fold_end :: "u32 \<Rightarrow> u8 \<Rightarrow> bytes \<Rightarrow> nat \<Rightarrow> u32 \<Rightarrow> u16 option" where
  "fold_end addr t1 ps len acc = do {
     t0 \<leftarrow> (if 0 < len then aget ps 0 else Some 0);
     let acc = acc + ucast (le16 t0 t1);
     let acc = FOLD_U32T acc;
     let acc = FOLD_U32T acc;
     let acc = (if addr AND 1 \<noteq> 0 then SWAP_BYTES_IN_WORD acc else acc);
     Some (ucast acc)
   }"

definition lwip_standard_chksum2 :: "u32 \<Rightarrow> bytes \<Rightarrow> nat \<Rightarrow> u16 option" where
  "lwip_standard_chksum2 addr dataptr len = do {
     (t1, ps, len) \<leftarrow> align16 addr dataptr len;
     (ps, len, acc) \<leftarrow> sum_host ps len 0;
     fold_end addr t1 ps len acc
   }"

text \<open>One ping or pong of the unrolled loop, and the loop.\<close>

definition add_carry :: "u32 \<Rightarrow> u32 \<Rightarrow> u32" where
  "add_carry acc w = (let tmp = acc + w in if tmp < acc then tmp + 1 else tmp)"

fun sum_unrolled :: "bytes \<Rightarrow> nat \<Rightarrow> u32 \<Rightarrow> (bytes \<times> nat \<times> u32) option" where
  "sum_unrolled pl len acc =
     (if 7 < len then
        (case pl of
           a # b # c # d # e # f # g # h # pl \<Rightarrow>
             sum_unrolled pl (len - 8) (add_carry (add_carry acc (le32 a b c d)) (le32 e f g h))
         | _ \<Rightarrow> None)
      else Some (pl, len, acc))"

declare sum_unrolled.simps [simp del]

definition lwip_standard_chksum3 :: "u32 \<Rightarrow> bytes \<Rightarrow> nat \<Rightarrow> u16 option" where
  "lwip_standard_chksum3 addr dataptr len = do {
     (t1, ps, len') \<leftarrow> align16 addr dataptr len;
     let addr' = addr + of_nat (len - len');
     (ps, len, acc) \<leftarrow>
       (if addr' AND 3 \<noteq> 0 \<and> 1 < len' then
          (case ps of a # b # ps \<Rightarrow> Some (ps, len' - 2, ucast (le16 a b)) | _ \<Rightarrow> None)
        else Some (ps, len', 0));
     (ps, len, acc) \<leftarrow> sum_unrolled ps len acc;
     let acc = FOLD_U32T acc;
     (ps, len, acc) \<leftarrow> sum_host ps len acc;
     fold_end addr t1 ps len acc
   }"

text \<open>\<open>LWIP_CHKSUM\<close> of the build.\<close>

abbreviation LWIP_CHKSUM :: "u32 \<Rightarrow> bytes \<Rightarrow> nat \<Rightarrow> u16 option" where
  "LWIP_CHKSUM \<equiv> lwip_standard_chksum2"

definition inet_chksum :: "u32 \<Rightarrow> bytes \<Rightarrow> u16 \<Rightarrow> u16 option" where
  "inet_chksum addr dataptr len = map_option NOT (LWIP_CHKSUM addr dataptr (unat len))"

section \<open>Chains of packet buffers\<close>

type_synonym seg = "u32 \<times> bytes"

fun chain_sum :: "seg list \<Rightarrow> u32 \<Rightarrow> bool \<Rightarrow> (u32 \<times> bool) option" where
  "chain_sum [] acc swapped = Some (acc, swapped)"
| "chain_sum ((payload, bs) # q) acc swapped = do {
     c \<leftarrow> LWIP_CHKSUM payload bs (length bs);
     let acc = FOLD_U32T (acc + ucast c);
     if odd (length bs) then chain_sum q (SWAP_BYTES_IN_WORD acc) (\<not> swapped)
     else chain_sum q acc swapped
   }"

definition inet_chksum_pbuf :: "seg list \<Rightarrow> u16 option" where
  "inet_chksum_pbuf p = do {
     (acc, swapped) \<leftarrow> chain_sum p 0 False;
     let acc = (if swapped then SWAP_BYTES_IN_WORD acc else acc);
     Some (ucast (NOT (acc AND 0xFFFF)))
   }"

text \<open>The common end of the two pseudo header checksums.\<close>

definition pseudo_end :: "u32 \<Rightarrow> bool \<Rightarrow> u8 \<Rightarrow> u16 \<Rightarrow> u16" where
  "pseudo_end acc swapped proto proto_len =
     (let acc = (if swapped then SWAP_BYTES_IN_WORD acc else acc);
          acc = acc + ucast (lwip_htons (ucast proto));
          acc = acc + ucast (lwip_htons proto_len);
          acc = FOLD_U32T acc;
          acc = FOLD_U32T acc
      in ucast (NOT (acc AND 0xFFFF)))"

definition inet_cksum_pseudo_base :: "seg list \<Rightarrow> u8 \<Rightarrow> u16 \<Rightarrow> u32 \<Rightarrow> u16 option" where
  "inet_cksum_pseudo_base p proto proto_len acc = do {
     (acc, swapped) \<leftarrow> chain_sum p acc False;
     Some (pseudo_end acc swapped proto proto_len)
   }"

definition addr_sum :: "u32 \<Rightarrow> u32 \<Rightarrow> u32" where
  "addr_sum src dest =
     (let acc = src AND 0xFFFF;
          acc = acc + (drop_bit 16 src AND 0xFFFF);
          acc = acc + (dest AND 0xFFFF);
          acc = acc + (drop_bit 16 dest AND 0xFFFF);
          acc = FOLD_U32T acc
      in FOLD_U32T acc)"

definition inet_chksum_pseudo :: "seg list \<Rightarrow> u8 \<Rightarrow> u16 \<Rightarrow> u32 \<Rightarrow> u32 \<Rightarrow> u16 option" where
  "inet_chksum_pseudo p proto proto_len src dest =
     inet_cksum_pseudo_base p proto proto_len (addr_sum src dest)"

definition ip_chksum_pseudo :: "seg list \<Rightarrow> u8 \<Rightarrow> u16 \<Rightarrow> u32 \<Rightarrow> u32 \<Rightarrow> u16 option" where
  "ip_chksum_pseudo p proto proto_len src dest = inet_chksum_pseudo p proto proto_len src dest"

text \<open>The partial checksum; its assertion loops forever when it fails.\<close>

fun chain_partial :: "seg list \<Rightarrow> u16 \<Rightarrow> u32 \<Rightarrow> bool \<Rightarrow> (u32 \<times> bool) option" where
  "chain_partial [] chksum_len acc swapped = Some (acc, swapped)"
| "chain_partial ((payload, bs) # q) chksum_len acc swapped =
     (if 0 < chksum_len then do {
        let chklen = (if chksum_len < of_nat (length bs) then chksum_len else of_nat (length bs));
        c \<leftarrow> LWIP_CHKSUM payload bs (unat chklen);
        let acc = acc + ucast c;
        let chksum_len = chksum_len - chklen;
        if \<not> chksum_len < 0x7FFF then None
        else let acc = FOLD_U32T acc in
        if odd (length bs) then chain_partial q chksum_len (SWAP_BYTES_IN_WORD acc) (\<not> swapped)
        else chain_partial q chksum_len acc swapped
      } else Some (acc, swapped))"

definition inet_cksum_pseudo_partial_base :: "seg list \<Rightarrow> u8 \<Rightarrow> u16 \<Rightarrow> u16 \<Rightarrow> u32 \<Rightarrow> u16 option" where
  "inet_cksum_pseudo_partial_base p proto proto_len chksum_len acc = do {
     (acc, swapped) \<leftarrow> chain_partial p chksum_len acc False;
     Some (pseudo_end acc swapped proto proto_len)
   }"

definition inet_chksum_pseudo_partial ::
    "seg list \<Rightarrow> u8 \<Rightarrow> u16 \<Rightarrow> u16 \<Rightarrow> u32 \<Rightarrow> u32 \<Rightarrow> u16 option" where
  "inet_chksum_pseudo_partial p proto proto_len chksum_len src dest =
     inet_cksum_pseudo_partial_base p proto proto_len chksum_len (addr_sum src dest)"

definition ip_chksum_pseudo_partial ::
    "seg list \<Rightarrow> u8 \<Rightarrow> u16 \<Rightarrow> u16 \<Rightarrow> u32 \<Rightarrow> u32 \<Rightarrow> u16 option" where
  "ip_chksum_pseudo_partial p proto proto_len chksum_len src dest =
     inet_chksum_pseudo_partial p proto proto_len chksum_len src dest"

text \<open>\<open>MEMCPY\<close> of distinct objects, then the checksum of the copy.\<close>

definition lwip_chksum_copy :: "u32 \<Rightarrow> bytes \<Rightarrow> bytes \<Rightarrow> u16 \<Rightarrow> (bytes \<times> u16) option" where
  "lwip_chksum_copy addr dst src len =
     (if unat len \<le> length dst \<and> unat len \<le> length src then do {
        let dst = take (unat len) src @ drop (unat len) dst;
        c \<leftarrow> LWIP_CHKSUM addr dst (unat len);
        Some (dst, c)
      } else None)"

lemma unat_ucast16: "unat (u :: u32) \<le> 65535 \<Longrightarrow> unat (ucast u :: u16) = unat u"
  by (simp add: unsigned_ucast_eq take_bit_nat_eq_self)

section \<open>The variants compute the one's complement sum\<close>

lemma unat_FOLD: "unat (FOLD_U32T u) = unat u mod 65536 + unat u div 65536"
  using unat_fold_step[of u] by (simp add: FOLD_U32T_def add.commute)

lemma unat_FOLD_twice: "unat (FOLD_U32T (FOLD_U32T u)) = fold_sum (unat u)"
  using fold_sum_twice[of "unat u"] unat_u32_lt[of u] by (simp add: unat_FOLD)

lemma unat_SWAP: "unat u \<le> 65535 \<Longrightarrow> unat (SWAP_BYTES_IN_WORD u) = fold_sum (256 * unat u)"
proof -
  assume u: "unat u \<le> 65535"
  have m: "(0xFF :: u32) = mask 8" "(0xFF00 :: u32) = push_bit 8 (mask 8)"
    by (simp_all add: mask_eq_decr_exp push_bit_eq_mult)
  have hi: "\<not> bit u n" if "16 \<le> n" for n
  proof -
    have "take_bit 16 u = u" using u by (simp add: take_bit_eq_mod word_unat_eq_iff unat_mod)
    then show ?thesis using that by (metis bit_take_bit_iff leD)
  qed
  have "SWAP_BYTES_IN_WORD u = push_bit 8 (take_bit 8 u) OR drop_bit 8 u"
    unfolding SWAP_BYTES_IN_WORD_def m by (rule bit_word_eqI) (use hi in \<open>auto simp: bit_simps\<close>)
  also have "\<dots> = push_bit 8 (take_bit 8 u) + drop_bit 8 u"
    by (rule disjunctive_add[symmetric]) (use hi in \<open>auto simp: bit_simps\<close>)
  finally have "unat (SWAP_BYTES_IN_WORD u) = unat (256 * (u mod 256) + u div 256)"
    by (simp add: push_bit_eq_mult drop_bit_eq_div take_bit_eq_mod mult.commute)
  also have "\<dots> = 256 * (unat u mod 256) + unat u div 256"
  proof -
    have "256 * (unat u mod 256) \<le> 256 * 255" "unat u div 256 \<le> 255"
      using u div_le_mono[OF u, of 256] by (simp_all add: less_Suc_eq_le flip: Suc_le_eq)
    then show ?thesis by (simp add: unat_word_ariths unat_mod unat_div)
  qed
  finally show ?thesis using u by (simp add: fold_sum_256)
qed

lemma sum_host_eq:
  "len \<le> length ps \<Longrightarrow> unat acc + lesum (take len ps) < 2 ^ 32 \<Longrightarrow>
    \<exists>r. sum_host ps len acc = Some (drop (2 * (len div 2)) ps, len mod 2, r) \<and>
      unat r = unat acc + lesum (take (2 * (len div 2)) ps)"
proof (induction ps len acc rule: sum_host.induct)
  case (1 ps len acc)
  show ?case
  proof (cases "1 < len")
    case False
    then have "len = 0 \<or> len = 1" by auto
    then show ?thesis by (auto simp: sum_host.simps)
  next
    case True
    then obtain a b ps' l where p: "ps = a # b # ps'" "len = Suc (Suc l)"
      using "1.prems"(1) by (cases ps; cases "tl ps"; cases len; cases "len - 1") auto
    have acc: "unat (acc + ucast (le16 a b)) = unat acc + unat (le16 a b)"
      using "1.prems"(2) p by (simp add: unat_word_ariths unat_le16)
    have "sum_host ps len acc = sum_host ps' l (acc + ucast (le16 a b))"
      unfolding p sum_host.simps[of "a # b # ps'"] by simp
    with "1.IH"[OF True p(1) refl] "1.prems" p acc show ?thesis by (simp add: unat_le16 add.assoc)
  qed
qed

lemma align16_eq:
  assumes "len \<le> length pb"
  shows "\<exists>t ps l. align16 addr pb len = Some (t, ps, l) \<and> l \<le> length ps \<and> l \<le> len \<and>
    256 * unat t + lesum (take l ps) = lesum ((if addr AND 1 \<noteq> 0 then [0] else []) @ take len pb)"
proof (cases "addr AND 1 \<noteq> 0 \<and> 0 < len")
  case True
  then obtain a pb' l where "pb = a # pb'" "len = Suc l" using assms by (cases pb; cases len) auto
  with True assms show ?thesis by (auto simp: align16_def)
qed (use assms in \<open>auto simp: align16_def\<close>)

lemma fold_sum_mult: "fold_sum (k * fold_sum n) = fold_sum (k * n)"
proof (rule fold_cong)
  show "k * fold_sum n mod 65535 = k * n mod 65535"
    by (rule mod_mult_cong[OF refl fold_sum_mod])
qed simp

lemma fold_end_eq:
  assumes "l = 0 \<or> l = 1 \<and> 1 \<le> length ps" "unat acc + lesum (take l ps) + 256 * unat t < 2 ^ 32"
  shows "\<exists>r. fold_end addr t ps l acc = Some r \<and>
    unat r = fold_sum ((if addr AND 1 \<noteq> 0 then 256 else 1) * (unat acc + lesum (take l ps) + 256 * unat t))"
proof -
  obtain t0 where t0: "(if 0 < l then aget ps 0 else Some 0) = Some t0" "unat t0 = lesum (take l ps)"
  proof (cases "l = 0")
    case False
    with assms(1) obtain x ps' where "l = 1" "ps = x # ps'" by (cases ps) auto
    then show thesis using that[of x] by (simp add: aget_def)
  qed (use that[of 0] in simp)
  let ?a = "acc + ucast (le16 t0 t)" and ?n = "unat acc + lesum (take l ps) + 256 * unat t"
  have "unat acc + unat (ucast (le16 t0 t) :: u32) = ?n" using t0(2) by (simp add: unat_le16)
  then have a: "unat ?a = ?n" using unat_add_small[of acc "ucast (le16 t0 t)"] assms(2) by simp
  let ?b = "FOLD_U32T (FOLD_U32T ?a)"
  define r where "r = (if addr AND 1 \<noteq> 0 then SWAP_BYTES_IN_WORD ?b else ?b)"
  have b: "unat ?b = fold_sum ?n" unfolding unat_FOLD_twice a ..
  have r: "unat r = fold_sum ((if addr AND 1 \<noteq> 0 then 256 else 1) * ?n)"
  proof (cases "addr AND 1 \<noteq> 0")
    case True
    have "unat ?b \<le> 65535" unfolding b by (rule fold_sum_le)
    then have "unat r = fold_sum (256 * fold_sum ?n)" using True unat_SWAP[of ?b] b by (simp add: r_def)
    then show ?thesis using True by (simp add: fold_sum_mult)
  next
    case False
    then show ?thesis using b by (simp only: r_def if_False mult_1)
  qed
  have "unat (ucast r :: u16) = unat r"
    by (rule unat_ucast16) (unfold r, rule fold_sum_le)
  moreover have "fold_end addr t ps l acc = Some (ucast r)"
    unfolding fold_end_def t0(1) r_def by (simp add: Let_def)
  ultimately show ?thesis using r by (intro exI conjI) (assumption, simp only:)
qed

lemma fold_lesum_shift: "fold_sum (256 * lesum (0 # bs)) = fold_sum (lesum bs)"
proof -
  have "fold_sum (lesum (0 # bs)) = fold_sum (256 * lesum bs)"
    using fold_lesum_append[of "[0]" bs] by simp
  then have "fold_sum (256 * lesum (0 # bs)) = fold_sum (256 * (256 * lesum bs))"
    by (metis fold_sum_mult)
  also have "256 * (256 * lesum bs) = 0 + 65536 * lesum bs" by simp
  also have "fold_sum \<dots> = fold_sum (lesum bs)" unfolding fold_sum_65536 by simp
  finally show ?thesis .
qed

text \<open>The last step undoes the shift that the alignment made.\<close>

lemma fold_aligned:
  "fold_sum ((if addr AND 1 \<noteq> (0::u32) then 256 else 1) * lesum ((if addr AND 1 \<noteq> 0 then [0] else []) @ bs)) =
    fold_sum (lesum bs)"
  by (cases "addr AND 1 = 0") (simp_all add: fold_lesum_shift)

lemma aligned_bound:
  assumes "len \<le> 0x20000"
  shows "lesum ((if addr AND 1 \<noteq> (0::u32) then [0] else []) @ take len pb) < 2 ^ 32"
proof -
  let ?bs = "(if addr AND 1 \<noteq> 0 then [0] else []) @ take len pb"
  have "length ?bs + 1 \<le> 131074" using assms by (simp add: min_def)
  then have "(length ?bs + 1) div 2 \<le> 131074 div 2" by (rule div_le_mono)
  then have "65535 * ((length ?bs + 1) div 2) \<le> 65535 * (131074 div 2)" by (rule mult_le_mono2)
  also have "\<dots> < 2 ^ 32" by simp
  finally show ?thesis using lesum_le[of ?bs] by (rule le_less_trans[rotated])
qed

lemma lesum_take_split:
  "l \<le> length ps \<Longrightarrow> k \<le> l \<Longrightarrow> even k \<Longrightarrow> lesum (take k ps) + lesum (take (l - k) (drop k ps)) = lesum (take l ps)"
  using lesum_append[of "take k ps" "take (l - k) (drop k ps)"] take_add[of k "l - k" ps] by simp

lemma sum_then_end:
  assumes "l \<le> length ps" "unat acc + lesum (take l ps) + 256 * unat t < 2 ^ 32"
  shows "\<exists>r. sum_host ps l acc \<bind> (\<lambda>(ps, len, acc). fold_end addr t ps len acc) = Some r \<and>
    unat r = fold_sum ((if addr AND 1 \<noteq> 0 then 256 else 1) * (unat acc + lesum (take l ps) + 256 * unat t))"
proof -
  let ?k = "2 * (l div 2)"
  have l: "l - ?k = l mod 2" "?k \<le> l" by (simp_all add: minus_mult_div_eq_mod)
  have split: "lesum (take ?k ps) + lesum (take (l mod 2) (drop ?k ps)) = lesum (take l ps)"
    using lesum_take_split[OF assms(1) l(2)] l(1) by simp
  obtain r where r: "sum_host ps l acc = Some (drop ?k ps, l mod 2, r)" "unat r = unat acc + lesum (take ?k ps)"
    using sum_host_eq[OF assms(1), of acc] assms(2) by fastforce
  have "l mod 2 = 0 \<or> l mod 2 = 1 \<and> 1 \<le> length (drop ?k ps)"
    using l assms(1) by (cases "l mod 2 = 0") auto
  moreover have "unat r + lesum (take (l mod 2) (drop ?k ps)) = unat acc + lesum (take l ps)"
    using r(2) split by simp
  ultimately show ?thesis
    using fold_end_eq[of "l mod 2" "drop ?k ps" r t addr] assms(2) r(1) by simp
qed

lemma chksum2_eq:
  assumes "len \<le> length data" "len \<le> 0x20000"
  shows "\<exists>r. lwip_standard_chksum2 addr data len = Some r \<and> unat r = fold_sum (lesum (take len data))"
proof -
  obtain t ps l where a: "align16 addr data len = Some (t, ps, l)" "l \<le> length ps"
    "256 * unat t + lesum (take l ps) = lesum ((if addr AND 1 \<noteq> 0 then [0] else []) @ take len data)"
    using align16_eq[OF assms(1), of addr] by blast
  have eq: "unat (0 :: u32) + lesum (take l ps) + 256 * unat t =
      lesum ((if addr AND 1 \<noteq> 0 then [0] else []) @ take len data)" using a(3) by simp
  obtain r where "sum_host ps l 0 \<bind> (\<lambda>(ps, len, acc). fold_end addr t ps len acc) = Some r"
    "unat r = fold_sum (lesum (take len data))"
    using sum_then_end[OF a(2), of 0 t addr] aligned_bound[OF assms(2), of addr data]
    unfolding eq fold_aligned by blast
  then show ?thesis using a(1) by (simp add: lwip_standard_chksum2_def)
qed

text \<open>Variant 3: the accumulator holds the sum up to one's complement.\<close>

lemma fold_add_cong: "fold_sum a = fold_sum a' \<Longrightarrow> fold_sum (a + b) = fold_sum (a' + b)"
  by (metis fold_sum_add)

lemma unat_le32: "unat (le32 a b c d) = unat (le16 a b) + 65536 * unat (le16 c d)"
proof -
  have "le32 a b c d = ucast (le16 a b) OR push_bit 16 (ucast (le16 c d))"
  proof (rule bit_word_eqI)
    fix n assume "n < LENGTH(32)"
    then consider "n < 8" | "8 \<le> n \<and> n < 16" | "16 \<le> n \<and> n < 24" | "24 \<le> n \<and> n < 32" by fastforce
    then show "bit (le32 a b c d) n = bit (ucast (le16 a b) OR push_bit 16 (ucast (le16 c d)) :: u32) n"
      by cases (auto simp: le32_def le16_def bit_simps)
  qed
  also have "\<dots> = ucast (le16 a b) + push_bit 16 (ucast (le16 c d))"
    by (rule disjunctive_add[symmetric]) (auto simp: bit_simps dest: bit_imp_le_length)
  finally have "unat (le32 a b c d) = (unat (le16 a b) + 65536 * unat (le16 c d)) mod 2 ^ 32"
    by (simp add: unat_word_ariths push_bit_eq_mult mod_add_right_eq mult.commute)
  then show ?thesis using unat_u16_lt[of "le16 a b"] unat_u16_lt[of "le16 c d"] by simp
qed

lemma fold_add_carry: "fold_sum (unat (add_carry acc w)) = fold_sum (unat acc + unat w)"
proof (cases "unat acc + unat w < 2 ^ 32")
  case True
  then have "unat (acc + w) = unat acc + unat w" using unat_add_small[of acc w] by simp
  moreover from this have "\<not> acc + w < acc" by (simp add: word_less_nat_alt)
  ultimately show ?thesis by (simp add: add_carry_def)
next
  case False
  let ?n = "unat acc + unat w - 2 ^ 32"
  have n: "?n < unat acc" "?n + 1 < 2 ^ 32" "?n < 2 ^ 32"
    using False unat_u32_lt[of acc] unat_u32_lt[of w] by simp_all
  have "unat (acc + w) = (unat acc + unat w) mod 2 ^ 32" by (simp add: unat_word_ariths)
  also have "\<dots> = ?n mod 2 ^ 32" using False by (intro le_mod_geq) simp
  finally have w: "unat (acc + w) = ?n" "?n < unat acc" "?n + 1 < 2 ^ 32" using n by simp_all
  then have "acc + w < acc" by (simp add: word_less_nat_alt)
  moreover have "unat (acc + w + 1) = ?n + 1"
    using unat_add_small[of "acc + w" 1] w by simp
  moreover have "fold_sum (?n + 1) = fold_sum (unat acc + unat w)"
  proof (rule fold_cong)
    have "unat acc + unat w = ?n + 1 + 65535 * 65537" using False by simp
    then show "(?n + 1) mod 65535 = (unat acc + unat w) mod 65535" by (metis mod_mult_self2)
    show "?n + 1 = 0 \<longleftrightarrow> unat acc + unat w = 0" using False by auto
  qed
  ultimately show ?thesis by (simp add: add_carry_def Let_def)
qed

lemma fold_add_le32:
  "fold_sum (unat (add_carry acc (le32 a b c d))) = fold_sum (unat acc + (unat (le16 a b) + unat (le16 c d)))"
  unfolding fold_add_carry unat_le32
  using fold_sum_65536[of "unat acc + unat (le16 a b)" "unat (le16 c d)"] by (simp add: add.assoc)

lemma sum_unrolled_eq:
  "len \<le> length pl \<Longrightarrow> \<exists>r. sum_unrolled pl len acc = Some (drop (8 * (len div 8)) pl, len mod 8, r) \<and>
    fold_sum (unat r) = fold_sum (unat acc + lesum (take (8 * (len div 8)) pl))"
proof (induction pl len acc rule: sum_unrolled.induct)
  case (1 pl len acc)
  show ?case
  proof (cases "7 < len")
    case False
    then show ?thesis by (simp add: sum_unrolled.simps)
  next
    case True
    define l where "l = len - 8"
    have "length pl = Suc (Suc (Suc (Suc (Suc (Suc (Suc (Suc (length pl - 8))))))))"
      using 1(2) True by linarith
    then obtain a b c d e f g h pl' where p: "pl = a # b # c # d # e # f # g # h # pl'"
      unfolding length_Suc_conv by blast
    have len: "len = 8 + l" using True by (simp add: l_def)
    let ?acc = "add_carry (add_carry acc (le32 a b c d)) (le32 e f g h)"
    let ?k = "8 * (l div 8)"
    have k: "8 * (len div 8) = Suc (Suc (Suc (Suc (Suc (Suc (Suc (Suc ?k)))))))" "len mod 8 = l mod 8"
      using div_add_self1[of 8 l] mod_add_self1[of 8 l] unfolding len by linarith+
    have "sum_unrolled pl len acc = sum_unrolled pl' l ?acc"
      unfolding p len sum_unrolled.simps[of "a # _"] by simp
    moreover obtain r where r: "sum_unrolled pl' l ?acc = Some (drop ?k pl', l mod 8, r)"
      "fold_sum (unat r) = fold_sum (unat ?acc + lesum (take ?k pl'))"
      using 1(1)[OF True p refl refl refl refl refl refl refl] 1(2) by (auto simp: p len)
    moreover have "fold_sum (unat ?acc + lesum (take ?k pl')) =
        fold_sum (unat acc + lesum (take (8 * (len div 8)) pl))"
    proof -
      have "fold_sum (unat ?acc) = fold_sum (unat acc + (unat (le16 a b) + unat (le16 c d)) +
          (unat (le16 e f) + unat (le16 g h)))"
        unfolding fold_add_le32 by (rule fold_add_cong) (rule fold_add_le32)
      from fold_add_cong[OF this, of "lesum (take ?k pl')"] show ?thesis
        unfolding k p by (simp add: unat_le16 add_ac)
    qed
    ultimately show ?thesis unfolding k by (simp add: p)
  qed
qed

lemma fold_mult_cong: "fold_sum a = fold_sum a' \<Longrightarrow> fold_sum (k * a) = fold_sum (k * a')"
  by (metis fold_sum_mult)

lemma unat_FOLD_le: "unat (FOLD_U32T u) \<le> 131070"
proof -
  have "unat u mod 65536 \<le> 65535" using mod_less_divisor[of 65536 "unat u"] by linarith
  moreover have "unat u div 65536 \<le> 65535" using unat_u32_lt[of u] div_le_mono[of "unat u" 4294967295 65536] by simp
  ultimately show ?thesis by (simp add: unat_FOLD)
qed

lemma fold_FOLD: "fold_sum (unat (FOLD_U32T u)) = fold_sum (unat u)"
  by (simp add: unat_FOLD fold_sum_step)

lemma unrolled_then_end:
  assumes "l \<le> length ps"
  shows "\<exists>r. sum_unrolled ps l acc \<bind> (\<lambda>(ps, len, acc). sum_host ps len (FOLD_U32T acc) \<bind>
      (\<lambda>(ps, len, acc). fold_end addr t ps len acc)) = Some r \<and>
    unat r = fold_sum ((if addr AND 1 \<noteq> 0 then 256 else 1) * (unat acc + lesum (take l ps) + 256 * unat t))"
proof -
  let ?k = "8 * (l div 8)" and ?m = "if addr AND 1 \<noteq> 0 then 256 else 1 :: nat"
  obtain r where r: "sum_unrolled ps l acc = Some (drop ?k ps, l mod 8, r)"
    "fold_sum (unat r) = fold_sum (unat acc + lesum (take ?k ps))"
    using sum_unrolled_eq[OF assms, of acc] by blast
  let ?rest = "lesum (take (l mod 8) (drop ?k ps)) + 256 * unat t"
  have l: "l - ?k = l mod 8" "?k \<le> l" by (simp_all add: minus_mult_div_eq_mod)
  have split: "lesum (take ?k ps) + lesum (take (l mod 8) (drop ?k ps)) = lesum (take l ps)"
    using lesum_take_split[OF assms l(2)] l(1) by simp
  have "l mod 8 \<le> 7" using mod_less_divisor[of 8 l] by linarith
  then have "length (take (l mod 8) (drop ?k ps)) + 1 \<le> 8" by (simp only: length_take)
  then have "(length (take (l mod 8) (drop ?k ps)) + 1) div 2 \<le> 8 div 2" by (rule div_le_mono)
  then have "?rest < 400000" using lesum_le[of "take (l mod 8) (drop ?k ps)"] unat_u8_lt[of t] by linarith
  then have small: "unat (FOLD_U32T r) + lesum (take (l mod 8) (drop ?k ps)) + 256 * unat t < 2 ^ 32"
    using unat_FOLD_le[of r] by simp
  have "l mod 8 \<le> length (drop ?k ps)" using l assms by simp
  from sum_then_end[OF this small, of addr] obtain r' where r':
    "sum_host (drop ?k ps) (l mod 8) (FOLD_U32T r) \<bind> (\<lambda>(ps, len, acc). fold_end addr t ps len acc) = Some r'"
    "unat r' = fold_sum (?m * (unat (FOLD_U32T r) + ?rest))" by (auto simp: add.assoc)
  have "fold_sum (unat (FOLD_U32T r) + ?rest) = fold_sum (unat acc + lesum (take ?k ps) + ?rest)"
    by (rule fold_add_cong) (simp only: fold_FOLD r(2))
  also have "unat acc + lesum (take ?k ps) + ?rest = unat acc + lesum (take l ps) + 256 * unat t"
    using split by simp
  finally have "unat r' = fold_sum (?m * (unat acc + lesum (take l ps) + 256 * unat t))"
    unfolding r'(2) by (rule fold_mult_cong)
  then show ?thesis unfolding r(1) Option.bind.bind_lunit prod.case r'(1) by blast
qed

lemma chksum3_eq:
  assumes "len \<le> length data"
  shows "\<exists>r. lwip_standard_chksum3 addr data len = Some r \<and> unat r = fold_sum (lesum (take len data))"
proof -
  obtain t ps l where a: "align16 addr data len = Some (t, ps, l)" "l \<le> length ps"
    "256 * unat t + lesum (take l ps) = lesum ((if addr AND 1 \<noteq> 0 then [0] else []) @ take len data)"
    using align16_eq[OF assms(1), of addr] by blast
  obtain ps' l' acc where s: "(if addr + of_nat (len - l) AND 3 \<noteq> 0 \<and> 1 < l
      then (case ps of a # b # ps \<Rightarrow> Some (ps, l - 2, ucast (le16 a b)) | _ \<Rightarrow> None)
      else Some (ps, l, 0 :: u32)) = Some (ps', l', acc)" "l' \<le> length ps'"
    "unat acc + lesum (take l' ps') = lesum (take l ps)"
  proof (cases "addr + of_nat (len - l) AND 3 \<noteq> 0 \<and> 1 < l")
    case True
    then obtain x y qs k where "ps = x # y # qs" "l = Suc (Suc k)"
      using a(2) by (cases ps; cases "tl ps"; cases l; cases "l - 1") auto
    with True a(2) that[of qs k "ucast (le16 x y)"] show thesis by (simp add: unat_le16)
  next
    case False
    then show thesis using that[of ps l 0] a(2) by (simp only: if_False)  simp
  qed
  have eq: "unat acc + lesum (take l' ps') + 256 * unat t =
      lesum ((if addr AND 1 \<noteq> 0 then [0] else []) @ take len data)" using a(3) s(3) by simp
  obtain r where "sum_unrolled ps' l' acc \<bind> (\<lambda>(ps, len, acc). sum_host ps len (FOLD_U32T acc) \<bind>
      (\<lambda>(ps, len, acc). fold_end addr t ps len acc)) = Some r" "unat r = fold_sum (lesum (take len data))"
    using unrolled_then_end[OF s(2), of acc addr t] unfolding eq fold_aligned by blast
  then show ?thesis
    unfolding lwip_standard_chksum3_def a(1) Let_def Option.bind.bind_lunit prod.case s(1) by blast
qed

text \<open>Variant 1 sums the words in network order, which are the others times 256.\<close>

lemma sum_net_eq:
  "len \<le> length pb \<Longrightarrow> unat acc + 65535 * (len div 2) < 2 ^ 32 \<Longrightarrow>
    \<exists>r. sum_net pb len acc = Some (drop (2 * (len div 2)) pb, len mod 2, r) \<and>
      unat r \<le> unat acc + 65535 * (len div 2) \<and>
      fold_sum (unat r) = fold_sum (unat acc + 256 * lesum (take (2 * (len div 2)) pb))"
proof (induction pb len acc rule: sum_net.induct)
  case (1 pb len acc)
  show ?case
  proof (cases "1 < len")
    case False
    then have "len = 0 \<or> len = 1" by auto
    then show ?thesis by (auto simp: sum_net.simps)
  next
    case True
    then obtain a b pb' l where p: "pb = a # b # pb'" "len = Suc (Suc l)"
      using "1.prems"(1) by (cases pb; cases "tl pb"; cases len; cases "len - 1") auto
    have w: "push_bit 8 (ucast a) OR ucast b = le16 b a" by (simp add: le16_def or.commute)
    have u: "unat (le16 b a) \<le> 65535" using unat_u16_lt[of "le16 b a"] by simp
    have acc: "unat (acc + ucast (le16 b a)) = unat acc + unat (le16 b a)"
      using "1.prems"(2) u unat_add_small[of acc "ucast (le16 b a)"] by (simp add: p(2))
    have "sum_net pb len acc = sum_net pb' l (acc + ucast (le16 b a))"
      unfolding p sum_net.simps[of "a # _"] by (simp add: w)
    moreover have "l \<le> length pb'" "unat acc + unat (le16 b a) + 65535 * (l div 2) < 2 ^ 32"
      using "1.prems" u by (simp_all add: p)
    with "1.IH"[OF True p(1) refl] obtain r where
      r: "sum_net pb' l (acc + ucast (le16 b a)) = Some (drop (2 * (l div 2)) pb', l mod 2, r)"
      "unat r \<le> unat acc + unat (le16 b a) + 65535 * (l div 2)"
      "fold_sum (unat r) = fold_sum (unat acc + unat (le16 b a) + 256 * lesum (take (2 * (l div 2)) pb'))"
      unfolding p(2) w diff_Suc_Suc numeral_2_eq_2 diff_zero acc by blast
    moreover note r
    moreover let ?x = "lesum (take (2 * (l div 2)) pb')"
    have "fold_sum (unat acc + unat (le16 b a) + 256 * ?x) =
        fold_sum (unat acc + 256 * (unat a + 256 * unat b + ?x))"
      using fold_sum_65536[of "unat acc + 256 * unat a + 256 * ?x" "unat b"]
      by (simp add: unat_le16 algebra_simps)
    moreover have "lesum (take (2 * (len div 2)) pb) = unat a + 256 * unat b + ?x" by (simp add: p)
    ultimately show ?thesis using u by (simp add: p)
  qed
qed

lemma unat_ucast_htons:
  assumes "unat (u :: u32) \<le> 65535"
  shows "unat (lwip_htons (ucast u)) = fold_sum (256 * unat u)"
proof -
  let ?w = "ucast u :: u16"
  have u: "unat ?w = unat u" using assms by (rule unat_ucast16)
  have w: "?w = le16 (byte_at 0 ?w) (byte_at 1 ?w)" by (rule le16_byte_at[symmetric])
  have e: "unat u = unat (byte_at 0 ?w) + 256 * unat (byte_at 1 ?w)"
    using arg_cong[OF w, of unat] u by (simp add: unat_le16)
  have "fold_sum (256 * unat u) = fold_sum (unat (le16 (byte_at 1 ?w) (byte_at 0 ?w)))"
    unfolding e using fold_sum_65536[of "256 * unat (byte_at 0 ?w)" "unat (byte_at 1 ?w)"]
    by (simp add: unat_le16 algebra_simps)
  also have "\<dots> = unat (le16 (byte_at 1 ?w) (byte_at 0 ?w))"
    using unat_u16_lt[of "le16 (byte_at 1 ?w) (byte_at 0 ?w)"] by (intro fold_sum_small) simp
  also have "le16 (byte_at 1 ?w) (byte_at 0 ?w) = lwip_htons ?w" using w lwip_htons_le16 by metis
  finally show ?thesis ..
qed

lemma FOLD_high_0: "u AND 0xFFFF0000 = 0 \<Longrightarrow> FOLD_U32T u = u"
proof -
  assume u: "u AND 0xFFFF0000 = 0"
  have m: "(0xFFFF0000 :: u32) = push_bit 16 (mask 16)" by (simp add: mask_eq_decr_exp push_bit_eq_mult)
  have "drop_bit 16 u = 0"
  proof (rule bit_word_eqI)
    fix n assume n: "n < LENGTH(32)"
    show "bit (drop_bit 16 u) n = bit (0 :: u32) n"
      using arg_cong[OF u[unfolded m], of "\<lambda>w. bit w (n + 16)"] bit_imp_le_length[of u "16 + n"] n
      by (auto simp: bit_simps add.commute)
  qed
  then have "unat u div 65536 = 0" by (simp add: drop_bit_eq_div flip: unat_eq_0 add: unat_div)
  then show ?thesis using unat_FOLD[of u] by (simp add: word_unat_eq_iff div_eq_0_iff)
qed

lemma chksum1_eq:
  assumes "len \<le> length data" "len \<le> 65535"
  shows "\<exists>r. lwip_standard_chksum1 data len = Some r \<and> unat r = fold_sum (lesum (take len data))"
proof -
  let ?k = "2 * (len div 2)"
  have "len div 2 \<le> 65535 div 2" using assms(2) by (rule div_le_mono)
  then have b: "65535 * (len div 2) \<le> 65535 * 32767" by simp
  then have "unat (0 :: u32) + 65535 * (len div 2) < 2 ^ 32" by simp
  from sum_net_eq[OF assms(1) this] obtain r where r: "sum_net data len 0 = Some (drop ?k data, len mod 2, r)"
    "unat r \<le> 65535 * 32767" "fold_sum (unat r) = fold_sum (256 * lesum (take ?k data))"
    using b by (auto simp: le_trans)
  obtain s where s: "(if 0 < len mod 2 then map_option (\<lambda>a. r + ucast (push_bit 8 (ucast a) :: u16)) (aget (drop ?k data) 0)
      else Some r) = Some s" "fold_sum (unat s) = fold_sum (256 * lesum (take len data))"
  proof (cases "even len")
    case True
    then show thesis using that[of r] r(3) by simp
  next
    case False
    then have k: "len = Suc ?k" "?k < length data" using assms(1) by presburger+
    let ?a = "data ! ?k"
    have l: "lesum (take len data) = lesum (take ?k data) + unat ?a"
      using k lesum_append[of "take ?k data" "[?a]"] take_Suc_conv_app_nth[OF k(2)] by simp
    have "push_bit 8 (ucast ?a :: u16) = le16 0 ?a" by (simp add: le16_def)
    then have a: "unat (push_bit 8 (ucast ?a) :: u16) = 256 * unat ?a" by (simp add: unat_le16)
    have "unat (r + ucast (push_bit 8 (ucast ?a) :: u16)) = unat r + 256 * unat ?a"
      using r(2) unat_u8_lt[of ?a] a unat_add_small[of r "ucast (push_bit 8 (ucast ?a) :: u16)"] by simp
    then have "fold_sum (unat (r + ucast (push_bit 8 (ucast ?a) :: u16))) = fold_sum (256 * lesum (take len data))"
      using fold_add_cong[OF r(3), of "256 * unat ?a"] by (simp add: l algebra_simps)
    with that[of "r + ucast (push_bit 8 (ucast ?a) :: u16)"] False k(2) show thesis by (simp add: odd_iff_mod_2_eq_one)
  qed
  let ?f = "drop_bit 16 s + (s AND 0xFFFF)"
  have f: "?f = FOLD_U32T s" by (simp add: FOLD_U32T_def)
  have g: "(if ?f AND 0xFFFF0000 \<noteq> 0 then drop_bit 16 ?f + (?f AND 0xFFFF) else ?f) = FOLD_U32T ?f"
    using FOLD_high_0[of ?f] by (auto simp: FOLD_U32T_def)
  have "unat (FOLD_U32T ?f) = fold_sum (256 * lesum (take len data))"
    unfolding f unat_FOLD_twice s(2) ..
  with unat_ucast_htons[of "FOLD_U32T ?f"] fold_sum_le
  have "unat (lwip_htons (ucast (FOLD_U32T ?f))) = fold_sum (256 * (256 * lesum (take len data)))"
    by (simp only: fold_sum_mult)
  also have "\<dots> = fold_sum (lesum (take len data))"
    using fold_sum_65536[of 0 "lesum (take len data)"] by simp
  finally show ?thesis
    unfolding lwip_standard_chksum1_def r(1) Option.bind.bind_lunit prod.case s(1) Let_def g by blast
qed

text \<open>
  C11: The three checksum variants of lwIP agree on up to 65535 bytes at every alignment: the one that is
  compiled in equals both the byte-wise reference and the unrolled one that adds back the
  carries of 32-bit additions.
\<close>

theorem chksum_variants_agree:
  assumes "len \<le> length data" "len \<le> 65535"
  shows "lwip_standard_chksum2 addr data len = lwip_standard_chksum1 data len \<and>
    lwip_standard_chksum3 addr data len = lwip_standard_chksum1 data len \<and>
    (\<exists>c. lwip_standard_chksum1 data len = Some c)"
  using chksum1_eq[OF assms] chksum2_eq[of len data addr] chksum3_eq[of len data addr] assms
  by (auto simp: word_unat_eq_iff)

theorem chksum_variants_agree_witness:
  "lwip_standard_chksum2 1 [0x45, 0, 0xFF, 0xFE, 7] 5 = lwip_standard_chksum1 [0x45, 0, 0xFF, 0xFE, 7] 5"
  using chksum_variants_agree[of 5 "[0x45, 0, 0xFF, 0xFE, 7]" 1] by simp

section \<open>The contract of the checksum\<close>

definition chksum_of :: "u32 \<Rightarrow> bytes \<Rightarrow> u16" where
  "chksum_of addr bs = NOT (the (lwip_standard_chksum2 addr bs (length bs)))"

lemma unat_NOT16: "unat (NOT (w :: u16)) = 65535 - unat w"
proof -
  have "NOT w = - 1 - w" by (simp add: not_eq_complement)
  then have "unat (NOT w) = unat (- 1 - w)" by simp
  also have "\<dots> = 65535 - unat w"
    by (subst unat_sub) (simp_all add: unsigned_minus_1_eq_mask mask_eq_exp_minus_1)
  finally show ?thesis .
qed

interpretation lwip_ck: chksum "chksum_of addr" 65535 for addr
proof
  fix bs :: bytes
  assume "length bs \<le> 65535"
  then show "unat (chksum_of addr bs) = 65535 - fold_sum (lesum bs)"
    using chksum2_eq[of "length bs" bs addr] by (auto simp: chksum_of_def unat_NOT16)
qed

lemma inet_chksum_eq:
  assumes "unat len \<le> length data"
  shows "inet_chksum addr data len = Some (chksum_of addr (take (unat len) data))"
proof -
  have len: "unat len \<le> 65535" using unat_u16_lt[of len] by simp
  then obtain r r' where "lwip_standard_chksum2 addr data (unat len) = Some r" "unat r = fold_sum (lesum (take (unat len) data))"
    "lwip_standard_chksum2 addr (take (unat len) data) (unat len) = Some r'"
    "unat r' = fold_sum (lesum (take (unat len) data))"
    using chksum2_eq[of "unat len" data addr] chksum2_eq[of "unat len" "take (unat len) data" addr] assms by auto
  moreover from this have "r = r'" by (simp add: word_unat_eq_iff)
  ultimately show ?thesis using assms by (simp add: inet_chksum_def chksum_of_def min.absorb2)
qed

section \<open>Chains\<close>

abbreviation chain_bytes :: "seg list \<Rightarrow> bytes" where
  "chain_bytes p \<equiv> concat (map snd p)"

lemma fold_chain_step:
  "fold_sum ((if odd (length pre) then 256 else 1) * (n + lesum pre) + lesum bs) =
    fold_sum ((if odd (length pre) then 256 else 1) * (n + lesum (pre @ bs)))"
proof (cases "odd (length pre)")
  case True
  have "fold_sum (n + lesum (pre @ bs)) = fold_sum (n + (lesum pre + 256 * lesum bs))"
    using fold_lesum_append[of pre bs] True fold_add_cong[of "lesum (pre @ bs)" "lesum pre + 256 * lesum bs" n]
    by (simp add: add.commute)
  then have "fold_sum (256 * (n + lesum (pre @ bs))) = fold_sum (256 * (n + (lesum pre + 256 * lesum bs)))"
    by (rule fold_mult_cong)
  also have "256 * (n + (lesum pre + 256 * lesum bs)) = 256 * (n + lesum pre) + 65536 * lesum bs" by simp
  finally show ?thesis using True fold_sum_65536[of "256 * (n + lesum pre)" "lesum bs"] by simp
qed (simp add: lesum_append add.assoc)

lemma chain_sum_eq:
  assumes "\<forall>(a, bs) \<in> set p. length bs \<le> 65535" "unat acc \<le> 65535"
    "fold_sum (unat acc) = fold_sum ((if odd (length pre) then 256 else 1) * (n + lesum pre))"
  shows "\<exists>r. chain_sum p acc (odd (length pre)) = Some (r, odd (length (pre @ chain_bytes p))) \<and> unat r \<le> 65535 \<and>
    fold_sum (unat r) = fold_sum ((if odd (length (pre @ chain_bytes p)) then 256 else 1) * (n + lesum (pre @ chain_bytes p)))"
  using assms
proof (induction p arbitrary: acc pre)
  case Nil
  then show ?case by simp
next
  case (Cons s p)
  obtain a bs where s: "s = (a, bs)" by fastforce
  have "length bs \<le> 65535" using Cons.prems(1) s by simp
  then obtain c where c: "lwip_standard_chksum2 a bs (length bs) = Some c" "unat c = fold_sum (lesum bs)"
    using chksum2_eq[of "length bs" bs a] by auto
  let ?acc = "FOLD_U32T (acc + ucast c)"
  let ?k = "if odd (length pre) then 256 else 1 :: nat"
  have sm: "unat acc + unat c < 2 ^ 32" using Cons.prems(2) unat_u16_lt[of c] by simp
  have acc1: "unat (acc + ucast c) = unat acc + unat c" using unat_add_small[of acc "ucast c"] sm by simp
  have "unat ?acc = fold_sum (unat acc + unat c)"
    unfolding unat_FOLD acc1 using Cons.prems(2) unat_u16_lt[of c] by (intro fold_sum_once) simp
  also have "\<dots> = fold_sum (?k * (n + lesum pre) + lesum bs)"
    using fold_add_cong[OF Cons.prems(3), of "fold_sum (lesum bs)"]
      fold_sum_add[of "lesum bs" "?k * (n + lesum pre)"] by (simp only: c(2) add.commute)
  also have "\<dots> = fold_sum (?k * (n + lesum (pre @ bs)))" by (rule fold_chain_step)
  finally have acc2: "unat ?acc = fold_sum (?k * (n + lesum (pre @ bs)))" .
  then have le: "unat ?acc \<le> 65535" by (simp only: fold_sum_le)
  have prem: "\<forall>(a, bs) \<in> set p. length bs \<le> 65535" using Cons.prems(1) by simp
  show ?case
  proof (cases "odd (length bs)")
    case True
    let ?k' = "if odd (length (pre @ bs)) then 256 else 1 :: nat"
    have sw: "unat (SWAP_BYTES_IN_WORD ?acc) = fold_sum (256 * (?k * (n + lesum (pre @ bs))))"
      using unat_SWAP[OF le] unfolding acc2 fold_sum_mult .
    also have "\<dots> = fold_sum (?k' * (n + lesum (pre @ bs)))"
      using True fold_sum_65536[of 0 "n + lesum (pre @ bs)"] by (simp add: algebra_simps)
    finally show ?thesis
      using Cons.IH[OF prem, of "SWAP_BYTES_IN_WORD ?acc" "pre @ bs"] True c(1) sw fold_sum_le
      by (simp add: s Let_def)
  next
    case False
    then show ?thesis
      using Cons.IH[OF prem le, of "pre @ bs"] c(1) acc2 by (simp add: s Let_def)
  qed
qed

lemma chain_sum_flat:
  assumes "length (chain_bytes p) \<le> 65535" "unat acc = fold_sum n"
  shows "\<exists>r sw. chain_sum p acc False = Some (r, sw) \<and>
    unat (if sw then SWAP_BYTES_IN_WORD r else r) = fold_sum (n + lesum (chain_bytes p))"
proof -
  have "\<forall>(a, bs) \<in> set p. length bs \<le> 65535"
    using assms(1) by (induction p) auto
  moreover have "unat acc \<le> 65535" using assms(2) fold_sum_le by simp
  ultimately obtain r where r: "chain_sum p acc False = Some (r, odd (length (chain_bytes p)))" "unat r \<le> 65535"
    "fold_sum (unat r) = fold_sum ((if odd (length (chain_bytes p)) then 256 else 1) * (n + lesum (chain_bytes p)))"
    using chain_sum_eq[of p acc "[]" n] assms(2) by auto
  have "unat (SWAP_BYTES_IN_WORD r) = fold_sum (n + lesum (chain_bytes p))" if "odd (length (chain_bytes p))"
    using unat_SWAP[OF r(2)] fold_mult_cong[OF r(3), of 256] that
      fold_sum_65536[of 0 "n + lesum (chain_bytes p)"] by (simp add: mult.assoc)
  moreover have "unat r = fold_sum (n + lesum (chain_bytes p))" if "even (length (chain_bytes p))"
    using that r(2,3) by (simp add: fold_sum_small)
  ultimately show ?thesis using r(1) by auto
qed

lemma ucast_NOT_low:
  assumes "unat u \<le> 65535"
  shows "unat (ucast (NOT (u AND 0xFFFF :: u32)) :: u16) = 65535 - unat u"
proof -
  have "unat (u AND 0xFFFF) = unat u" using assms by (simp add: unat_and_ffff)
  then show ?thesis using unat_not_low[of "u AND 0xFFFF"] assms by simp
qed

text \<open>
  C12: The checksum of a chain of packet buffers depends only on its bytes. It is the checksum of
  the bytes laid out in one buffer, wherever the chain is cut, at odd offsets too, and
  whatever the addresses of the pieces are.
\<close>

theorem chain_chksum_flat:
  assumes "length (chain_bytes p) \<le> 65535"
  shows "inet_chksum_pbuf p = Some (chksum_of addr (chain_bytes p))"
proof -
  obtain r sw where r: "chain_sum p 0 False = Some (r, sw)"
    "unat (if sw then SWAP_BYTES_IN_WORD r else r) = fold_sum (lesum (chain_bytes p))"
    using chain_sum_flat[OF assms, of 0 0] by (auto simp: fold_sum_small)
  let ?a = "if sw then SWAP_BYTES_IN_WORD r else r"
  have "unat (ucast (NOT (?a AND 0xFFFF)) :: u16) = unat (chksum_of addr (chain_bytes p))"
    using ucast_NOT_low[of ?a] r(2) fold_sum_le lwip_ck.cks[OF assms] by simp
  then show ?thesis using r(1) by (simp add: inet_chksum_pbuf_def Let_def word_unat_eq_iff)
qed

theorem chain_chksum_flat_witness:
  "inet_chksum_pbuf [(0x20001001, [1, 2, 3]), (0x20002000, [4]), (0x20003002, [5, 6])] =
    Some (chksum_of 0x20004000 [1, 2, 3, 4, 5, 6])"
  using chain_chksum_flat[of "[(0x20001001, [1, 2, 3]), (0x20002000, [4]), (0x20003002, [5, 6])]"] by simp

section \<open>Pseudo headers\<close>

definition pseudo_hdr :: "u8 \<Rightarrow> u16 \<Rightarrow> u32 \<Rightarrow> u32 \<Rightarrow> bytes" where
  "pseudo_hdr proto proto_len src dest =
     bytes32 src @ bytes32 dest @ [0, proto] @ [byte_at 1 proto_len, byte_at 0 proto_len]"

lemma unat_halves: "unat (w AND 0xFFFF :: u32) + unat (drop_bit 16 w AND 0xFFFF) = lesum (bytes32 w)"
proof -
  have w: "w = le32 (byte_at 0 w) (byte_at 1 w) (byte_at 2 w) (byte_at 3 w)" by (rule le32_byte_at[symmetric])
  then have u: "unat w = unat (le16 (byte_at 0 w) (byte_at 1 w)) + 65536 * unat (le16 (byte_at 2 w) (byte_at 3 w))"
    using unat_le32 by metis
  have lt: "unat (le16 (byte_at 0 w) (byte_at 1 w)) < 65536" "unat (le16 (byte_at 2 w) (byte_at 3 w)) < 65536"
    by (rule unat_u16_lt)+
  have "unat (w AND 0xFFFF) = unat (le16 (byte_at 0 w) (byte_at 1 w))"
    "unat (drop_bit 16 w AND 0xFFFF) = unat (le16 (byte_at 2 w) (byte_at 3 w))"
    using lt by (simp_all add: unat_and_ffff drop_bit_eq_div unat_div u)
  then show ?thesis by (simp add: bytes32_def unat_le16)
qed

lemma unat_addr_sum: "unat (addr_sum src dest) = fold_sum (lesum (bytes32 src @ bytes32 dest))"
proof -
  let ?a = "src AND 0xFFFF" and ?b = "drop_bit 16 src AND 0xFFFF"
  let ?c = "dest AND 0xFFFF" and ?d = "drop_bit 16 dest AND 0xFFFF"
  have lt: "unat (x AND 0xFFFF :: u32) \<le> 65535" for x by (simp add: unat_and_ffff less_Suc_eq_le flip: Suc_le_eq)
  have "unat (?a + ?b) = unat ?a + unat ?b"
    using lt[of src] lt[of "drop_bit 16 src"] by (intro unat_add_small) simp
  moreover have "unat (?a + ?b + ?c) = unat (?a + ?b) + unat ?c"
    using lt[of src] lt[of "drop_bit 16 src"] lt[of dest] calculation by (intro unat_add_small) simp
  moreover have "unat (?a + ?b + ?c + ?d) = unat (?a + ?b + ?c) + unat ?d"
    using lt[of src] lt[of "drop_bit 16 src"] lt[of dest] lt[of "drop_bit 16 dest"] calculation
    by (intro unat_add_small) simp
  ultimately have "unat (?a + ?b + ?c + ?d) = lesum (bytes32 src @ bytes32 dest)"
    using unat_halves[of src] unat_halves[of dest] lesum_append[of "bytes32 src" "bytes32 dest"] by simp
  then show ?thesis by (simp add: addr_sum_def Let_def unat_FOLD_twice)
qed

lemma pseudo_end_eq:
  assumes "unat (if sw then SWAP_BYTES_IN_WORD acc else acc) = fold_sum n"
  shows "unat (pseudo_end acc sw proto proto_len) =
    65535 - fold_sum (n + lesum ([0, proto] @ [byte_at 1 proto_len, byte_at 0 proto_len]))"
proof -
  let ?a = "if sw then SWAP_BYTES_IN_WORD acc else acc"
  have "ucast proto = le16 proto 0" by (simp add: le16_def)
  then have p: "lwip_htons (ucast proto) = le16 0 proto" using lwip_htons_le16 by simp
  have l: "lwip_htons proto_len = le16 (byte_at 1 proto_len) (byte_at 0 proto_len)"
    by (metis lwip_htons_le16 le16_byte_at)
  let ?s = "?a + ucast (lwip_htons (ucast proto)) + ucast (lwip_htons proto_len)"
  have "unat ?s = fold_sum n + lesum ([0, proto] @ [byte_at 1 proto_len, byte_at 0 proto_len])"
  proof -
    have "unat ?a \<le> 65535" unfolding assms by (rule fold_sum_le)
    moreover have "unat (le16 0 proto) \<le> 65535" "unat (lwip_htons proto_len) \<le> 65535"
      using unat_u16_lt[of "le16 0 proto"] unat_u16_lt[of "lwip_htons proto_len"] by simp_all
    moreover from calculation have "unat (?a + ucast (le16 0 proto)) = unat ?a + unat (le16 0 proto)"
      using unat_add_small[of ?a "ucast (le16 0 proto)"] by simp
    ultimately have "unat ?s = unat ?a + unat (le16 0 proto) + unat (lwip_htons proto_len)"
      using unat_add_small[of "?a + ucast (le16 0 proto)" "ucast (lwip_htons proto_len)"] by (simp add: p)
    then show ?thesis unfolding assms l by (simp add: unat_le16)
  qed
  then have "unat (FOLD_U32T (FOLD_U32T ?s)) =
      fold_sum (n + lesum ([0, proto] @ [byte_at 1 proto_len, byte_at 0 proto_len]))"
    by (simp only: unat_FOLD_twice fold_sum_add)
  then show ?thesis
    using ucast_NOT_low[of "FOLD_U32T (FOLD_U32T ?s)"] fold_sum_le by (simp add: pseudo_end_def Let_def)
qed

lemma pseudo_chksum_flat:
  assumes "length (chain_bytes p) + 12 \<le> 65535"
  shows "inet_chksum_pseudo p proto proto_len src dest =
    Some (chksum_of addr (pseudo_hdr proto proto_len src dest @ chain_bytes p))"
proof -
  let ?n = "lesum (bytes32 src @ bytes32 dest)"
  obtain r sw where r: "chain_sum p (addr_sum src dest) False = Some (r, sw)"
    "unat (if sw then SWAP_BYTES_IN_WORD r else r) = fold_sum (?n + lesum (chain_bytes p))"
    using chain_sum_flat[of p "addr_sum src dest" ?n] assms by (auto simp: unat_addr_sum)
  have "lesum (pseudo_hdr proto proto_len src dest @ chain_bytes p) =
      ?n + lesum (chain_bytes p) + lesum ([0, proto] @ [byte_at 1 proto_len, byte_at 0 proto_len])"
    using lesum_append[of "bytes32 src @ bytes32 dest" "[0, proto, byte_at 1 proto_len, byte_at 0 proto_len] @ chain_bytes p"]
    by (simp add: pseudo_hdr_def)
  moreover have "length (pseudo_hdr proto proto_len src dest @ chain_bytes p) \<le> 65535"
    using assms by (simp add: pseudo_hdr_def)
  ultimately have "unat (pseudo_end r sw proto proto_len) =
      unat (chksum_of addr (pseudo_hdr proto proto_len src dest @ chain_bytes p))"
    using pseudo_end_eq[OF r(2), of proto proto_len] lwip_ck.cks by simp
  then show ?thesis
    using r(1) by (simp add: inet_chksum_pseudo_def inet_cksum_pseudo_base_def word_unat_eq_iff)
qed

text \<open>
  C13: A datagram with its checksum in place verifies. If a sender computes
  \<open>inet_chksum_pseudo\<close> over a datagram whose 16-bit checksum field is zero and stores the
  result in the field, then a receiver that computes it over the datagram, cut into any chain
  of buffers, gets zero.
\<close>

theorem pseudo_chksum_verifies:
  assumes "inet_chksum_pseudo p proto proto_len src dest = Some c"
    "length (chain_bytes p) + 12 \<le> 65535" "even k" "Suc k < length (chain_bytes p)"
    "chain_bytes p ! k = 0" "chain_bytes p ! Suc k = 0"
    "chain_bytes q = (chain_bytes p)[k := byte_at 0 c, Suc k := byte_at 1 c]"
  shows "inet_chksum_pseudo q proto proto_len src dest = Some 0"
proof -
  let ?h = "pseudo_hdr proto proto_len src dest" and ?p = "chain_bytes p"
  have h: "length ?h = 12" by (simp add: pseudo_hdr_def)
  have c: "c = chksum_of 0 (?h @ ?p)" using assms(1) pseudo_chksum_flat[OF assms(2), of _ _ _ _ 0] by simp
  have "chksum_of 0 ((?h @ ?p)[12 + k := byte_at 0 c, Suc (12 + k) := byte_at 1 c]) = 0"
    unfolding c by (rule lwip_ck.cks_insert) (use assms(2-6) h in \<open>auto simp: nth_append\<close>)
  also have "(?h @ ?p)[12 + k := byte_at 0 c, Suc (12 + k) := byte_at 1 c] = ?h @ chain_bytes q"
    using h assms(7) by (simp add: list_update_append)
  finally show ?thesis using pseudo_chksum_flat[of q _ _ _ _ 0] assms(2,7) by simp
qed

theorem pseudo_chksum_verifies_witness:
  "\<exists>c. inet_chksum_pseudo [(0, [0, 7, 0, 9, 0, 11, 0, 0]), (0, [1, 2, 3])] 17 11 1 2 = Some c \<and>
    inet_chksum_pseudo [(0, [0, 7, 0, 9, 0, 11, byte_at 0 c]), (5, [byte_at 1 c, 1, 2, 3])] 17 11 1 2 = Some 0"
proof -
  obtain c where c: "inet_chksum_pseudo [(0, [0, 7, 0, 9, 0, 11, 0, 0]), (0, [1, 2, 3])] 17 11 1 2 = Some c"
    using pseudo_chksum_flat[of "[(0, [0, 7, 0, 9, 0, 11, 0, 0]), (0, [1, 2, 3])]" 17 11 1 2 0] by auto
  with pseudo_chksum_verifies[OF c, of 6 "[(0, [0, 7, 0, 9, 0, 11, byte_at 0 c]), (5, [byte_at 1 c, 1, 2, 3])]"]
  show ?thesis by simp
qed

text \<open>The partial checksum over all of the data is the full one.\<close>

lemma chain_partial_full:
  assumes "unat n = length (chain_bytes p)" "length (chain_bytes p) < 0x7FFF" "\<forall>s \<in> set p. snd s \<noteq> []"
  shows "chain_partial p n acc sw = chain_sum p acc sw"
  using assms
proof (induction p arbitrary: n acc sw)
  case (Cons s p)
  obtain a bs where s: "s = (a, bs)" by fastforce
  let ?l = "of_nat (length bs) :: u16"
  have l: "unat ?l = length bs"
    using Cons.prems(2) s by (simp add: unsigned_of_nat take_bit_nat_eq_self)
  have n: "0 < n" "\<not> n < ?l" "unat (n - ?l) = length (chain_bytes p)" "n - ?l < 0x7FFF"
  proof -
    show "0 < n" using Cons.prems(1,3) s by (cases bs) (auto simp: word_less_nat_alt)
    show le: "\<not> n < ?l" using Cons.prems(1) s l by (simp add: word_less_nat_alt)
    then show "unat (n - ?l) = length (chain_bytes p)" using Cons.prems(1) s l by (simp add: unat_sub)
    then show "n - ?l < 0x7FFF" using Cons.prems(2) s by (simp add: word_less_nat_alt)
  qed
  have ih: "chain_partial p (n - ?l) acc' sw' = chain_sum p acc' sw'" for acc' sw'
    using Cons.prems n(3) s by (intro Cons.IH) auto
  show ?case using n(1,2,4) unfolding s chain_partial.simps chain_sum.simps Let_def by (simp add: l ih cong: if_cong)
qed simp

lemma pseudo_partial_full:
  "unat n = length (chain_bytes p) \<Longrightarrow> length (chain_bytes p) < 0x7FFF \<Longrightarrow> \<forall>s \<in> set p. snd s \<noteq> [] \<Longrightarrow>
    inet_chksum_pseudo_partial p proto proto_len n src dest = inet_chksum_pseudo p proto proto_len src dest"
  by (simp add: inet_chksum_pseudo_partial_def inet_cksum_pseudo_partial_base_def
      inet_chksum_pseudo_def inet_cksum_pseudo_base_def chain_partial_full)

end
