(* ===== verification/LwMem.thy ===== *)
theory LwMem
  imports Refinement LwipDef
begin

text \<open>
  The heap of lwIP, \<open>src/src/lwip/core/mem.c\<close>, as the build configures it: 16000 bytes, four
  byte alignment, no overflow checks, one context.

  The heap is a map from offsets into \<open>ram\<close> to the block headers found there; \<open>ptr_to_mem\<close> and
  \<open>mem_to_ptr\<close> are the identity on offsets. A pointer of a caller is its distance from \<open>ram\<close>,
  an integer, since \<open>mem_free\<close> is given arbitrary pointers. \<open>None\<close> is a failed assertion,
  which in this port prints a message and loops forever, or the use of bytes that are not a
  header as a header. The statistics counters are left out.

  The headers form a list of blocks (\<open>heap_wf\<close>): adjacent, aligned, at least 20 bytes long,
  no two free ones in a row, \<open>lfree\<close> at the first free one. The operations implement
  first-fit allocation and coalescing release on the list of blocks, which \<open>refinement\<close>
  is interpreted with.
\<close>

section \<open>The heap and its operations\<close>

definition MEM_SIZE_ALIGNED :: nat where "MEM_SIZE_ALIGNED = 16000"
definition SIZEOF_STRUCT_MEM :: nat where "SIZEOF_STRUCT_MEM = 8"
definition MIN_SIZE_ALIGNED :: nat where "MIN_SIZE_ALIGNED = 12"

lemmas mem_consts = MEM_SIZE_ALIGNED_def SIZEOF_STRUCT_MEM_def MIN_SIZE_ALIGNED_def

record hdr =
  mnext :: nat
  mprev :: nat
  mused :: bool

record lwmem =
  hdrs :: "nat \<rightharpoonup> hdr"
  lfree :: nat

text \<open>Assignments to a field of the header at an offset.\<close>

definition set_next :: "nat \<Rightarrow> nat \<Rightarrow> lwmem \<Rightarrow> lwmem option" where
  "set_next p v s = map_option (\<lambda>m. s\<lparr>hdrs := (hdrs s)(p \<mapsto> m\<lparr>mnext := v\<rparr>)\<rparr>) (hdrs s p)"

definition set_prev :: "nat \<Rightarrow> nat \<Rightarrow> lwmem \<Rightarrow> lwmem option" where
  "set_prev p v s = map_option (\<lambda>m. s\<lparr>hdrs := (hdrs s)(p \<mapsto> m\<lparr>mprev := v\<rparr>)\<rparr>) (hdrs s p)"

definition set_used :: "nat \<Rightarrow> bool \<Rightarrow> lwmem \<Rightarrow> lwmem option" where
  "set_used p v s = map_option (\<lambda>m. s\<lparr>hdrs := (hdrs s)(p \<mapsto> m\<lparr>mused := v\<rparr>)\<rparr>) (hdrs s p)"

text \<open>Unsigned subtraction of 32-bit values.\<close>

definition usub :: "nat \<Rightarrow> nat \<Rightarrow> nat" where
  "usub a b = (a + 2 ^ 32 - b) mod 2 ^ 32"

definition mem_init :: lwmem where
  "mem_init =
     \<lparr>hdrs = [0 \<mapsto> \<lparr>mnext = MEM_SIZE_ALIGNED, mprev = 0, mused = False\<rparr>,
        MEM_SIZE_ALIGNED \<mapsto> \<lparr>mnext = MEM_SIZE_ALIGNED, mprev = MEM_SIZE_ALIGNED, mused = True\<rparr>],
      lfree = 0\<rparr>"

definition plug_forward :: "nat \<Rightarrow> lwmem \<Rightarrow> lwmem option" where
  "plug_forward mem s = do {
     m \<leftarrow> hdrs s mem;
     let nmem = mnext m;
     n \<leftarrow> hdrs s nmem;
     if mem \<noteq> nmem \<and> \<not> mused n \<and> nmem \<noteq> MEM_SIZE_ALIGNED then do {
       let s = (if lfree s = nmem then s\<lparr>lfree := mem\<rparr> else s);
       s \<leftarrow> set_next mem (mnext n) s;
       if mnext n \<noteq> MEM_SIZE_ALIGNED then set_prev (mnext n) mem s else Some s
     } else Some s
   }"

definition plug_backward :: "nat \<Rightarrow> lwmem \<Rightarrow> lwmem option" where
  "plug_backward mem s = do {
     m \<leftarrow> hdrs s mem;
     let pmem = mprev m;
     p \<leftarrow> hdrs s pmem;
     if pmem \<noteq> mem \<and> \<not> mused p then do {
       let s = (if lfree s = mem then s\<lparr>lfree := pmem\<rparr> else s);
       s \<leftarrow> set_next pmem (mnext m) s;
       if mnext m \<noteq> MEM_SIZE_ALIGNED then set_prev (mnext m) pmem s else Some s
     } else Some s
   }"

definition plug_holes :: "nat \<Rightarrow> lwmem \<Rightarrow> lwmem option" where
  "plug_holes mem s = do {
     m \<leftarrow> hdrs s mem;
     if \<not> mem < MEM_SIZE_ALIGNED \<or> mused m \<or> \<not> mnext m \<le> MEM_SIZE_ALIGNED then None
     else do {
       s \<leftarrow> plug_forward mem s;
       plug_backward mem s
     }
   }"

definition mem_link_valid :: "nat \<Rightarrow> lwmem \<Rightarrow> bool option" where
  "mem_link_valid mem s = do {
     m \<leftarrow> hdrs s mem;
     if mnext m > MEM_SIZE_ALIGNED \<or> mprev m > MEM_SIZE_ALIGNED then Some False
     else do {
       bad \<leftarrow> (if mprev m \<noteq> mem then map_option (\<lambda>p. mnext p \<noteq> mem) (hdrs s (mprev m)) else Some False);
       if bad then Some False
       else if mnext m \<noteq> MEM_SIZE_ALIGNED then map_option (\<lambda>n. mprev n = mem) (hdrs s (mnext m))
       else Some True
     }
   }"

definition mem_free :: "int option \<Rightarrow> lwmem \<Rightarrow> lwmem option" where
  "mem_free rmem s =
     (case rmem of
        None \<Rightarrow> Some s
      | Some r \<Rightarrow>
          if r mod 4 \<noteq> 0 then None
          else if r - int SIZEOF_STRUCT_MEM < 0 \<or> r + int MIN_SIZE_ALIGNED > int MEM_SIZE_ALIGNED then None
          else do {
            let mem = nat (r - int SIZEOF_STRUCT_MEM);
            m \<leftarrow> hdrs s mem;
            if \<not> mused m then None
            else do {
              valid \<leftarrow> mem_link_valid mem s;
              if \<not> valid then None
              else do {
                s \<leftarrow> set_used mem False s;
                let s = (if mem < lfree s then s\<lparr>lfree := mem\<rparr> else s);
                plug_holes mem s
              }
            }
          })"

text \<open>\<open>LWIP_MEM_ALIGN_SIZE\<close>, cast to the 16-bit \<open>mem_size_t\<close>, and the minimum.\<close>

definition mem_size :: "nat \<Rightarrow> nat" where
  "mem_size size_in = max MIN_SIZE_ALIGNED (((size_in + 3) div 4 * 4) mod 65536)"

partial_function (option) lfree_loop :: "nat \<Rightarrow> lwmem \<Rightarrow> nat option" where
  "lfree_loop cur s = do {
     c \<leftarrow> hdrs s cur;
     if mused c \<and> cur \<noteq> MEM_SIZE_ALIGNED then lfree_loop (mnext c) s else Some cur
   }"

declare lfree_loop.simps [code]

text \<open>
  What is done once a block that is large enough is found: it is split or taken whole, and
  the pointer to the lowest free block moves on.
\<close>

definition malloc_split :: "nat \<Rightarrow> nat \<Rightarrow> lwmem \<Rightarrow> lwmem option" where
  "malloc_split sz ptr s = do {
     m \<leftarrow> hdrs s ptr;
     if sz + SIZEOF_STRUCT_MEM + MIN_SIZE_ALIGNED \<le> usub (mnext m) (ptr + SIZEOF_STRUCT_MEM) then do {
       let ptr2 = (ptr + SIZEOF_STRUCT_MEM + sz) mod 65536;
       if ptr2 = MEM_SIZE_ALIGNED then None
       else do {
         let s = s\<lparr>hdrs := (hdrs s)(ptr2 \<mapsto> \<lparr>mnext = mnext m, mprev = ptr, mused = False\<rparr>)\<rparr>;
         s \<leftarrow> set_next ptr ptr2 s;
         s \<leftarrow> set_used ptr True s;
         if mnext m \<noteq> MEM_SIZE_ALIGNED then set_prev (mnext m) ptr2 s else Some s
       }
     } else set_used ptr True s
   }"

definition malloc_adjust :: "nat \<Rightarrow> lwmem \<Rightarrow> lwmem option" where
  "malloc_adjust ptr s =
     (if ptr = lfree s then do {
        cur \<leftarrow> lfree_loop (lfree s) s;
        c \<leftarrow> hdrs s cur;
        if cur = MEM_SIZE_ALIGNED \<or> \<not> mused c then Some (s\<lparr>lfree := cur\<rparr>) else None
      } else Some s)"

definition malloc_take :: "nat \<Rightarrow> nat \<Rightarrow> lwmem \<Rightarrow> (int option \<times> lwmem) option" where
  "malloc_take sz ptr s = do {
     s \<leftarrow> malloc_split sz ptr s;
     s \<leftarrow> malloc_adjust ptr s;
     if \<not> ptr + SIZEOF_STRUCT_MEM + sz \<le> MEM_SIZE_ALIGNED \<or> ptr mod 4 \<noteq> 0 then None
     else Some (Some (int (ptr + SIZEOF_STRUCT_MEM)), s)
   }"

partial_function (option) malloc_loop :: "nat \<Rightarrow> nat \<Rightarrow> lwmem \<Rightarrow> (int option \<times> lwmem) option" where
  "malloc_loop sz ptr s =
     (if ptr < MEM_SIZE_ALIGNED - sz then do {
        m \<leftarrow> hdrs s ptr;
        if \<not> mused m \<and> sz \<le> usub (mnext m) (ptr + SIZEOF_STRUCT_MEM) then malloc_take sz ptr s
        else malloc_loop sz (mnext m) s
      } else Some (None, s))"

declare malloc_loop.simps [code]

definition mem_malloc :: "nat \<Rightarrow> lwmem \<Rightarrow> (int option \<times> lwmem) option" where
  "mem_malloc size_in s =
     (if size_in = 0 then Some (None, s)
      else let sz = mem_size size_in in
      if sz > MEM_SIZE_ALIGNED \<or> sz < size_in then Some (None, s)
      else malloc_loop sz (lfree s) s)"

text \<open>
  The free block that follows the shrunk one is written in the same way whether it is the
  old one moved or a new one.
\<close>

definition trim_insert :: "nat \<Rightarrow> nat \<Rightarrow> nat \<Rightarrow> lwmem \<Rightarrow> lwmem option" where
  "trim_insert ptr ptr2 nxt s = do {
     let s = s\<lparr>hdrs := (hdrs s)(ptr2 \<mapsto> \<lparr>mnext = nxt, mprev = ptr, mused = False\<rparr>)\<rparr>;
     s \<leftarrow> set_next ptr ptr2 s;
     if nxt \<noteq> MEM_SIZE_ALIGNED then set_prev nxt ptr2 s else Some s
   }"

definition mem_trim :: "int \<Rightarrow> nat \<Rightarrow> lwmem \<Rightarrow> (int option \<times> lwmem) option" where
  "mem_trim rmem new_size s =
     (let newsize = mem_size new_size in
      if newsize > MEM_SIZE_ALIGNED \<or> newsize < new_size then Some (None, s)
      else if rmem < 0 \<or> rmem \<ge> int MEM_SIZE_ALIGNED \<or> rmem < int SIZEOF_STRUCT_MEM then None
      else do {
        let ptr = nat (rmem - int SIZEOF_STRUCT_MEM);
        m \<leftarrow> hdrs s ptr;
        let sz = usub (usub (mnext m) ptr) SIZEOF_STRUCT_MEM mod 65536;
        if newsize > sz then None
        else if newsize = sz then Some (Some rmem, s)
        else do {
          mem2 \<leftarrow> hdrs s (mnext m);
          let ptr2 = (ptr + SIZEOF_STRUCT_MEM + newsize) mod 65536;
          if \<not> mused mem2 then
            if mnext m = MEM_SIZE_ALIGNED then None
            else do {
              let next = mnext mem2;
              let s = (if lfree s = mnext m then s\<lparr>lfree := ptr2\<rparr> else s);
              s \<leftarrow> trim_insert ptr ptr2 next s;
              Some (Some rmem, s)
            }
          else if newsize + SIZEOF_STRUCT_MEM + MIN_SIZE_ALIGNED \<le> sz then
            if mnext m = MEM_SIZE_ALIGNED then None
            else do {
              let s = (if ptr2 < lfree s then s\<lparr>lfree := ptr2\<rparr> else s);
              s \<leftarrow> trim_insert ptr ptr2 (mnext m) s;
              Some (Some rmem, s)
            }
          else Some (Some rmem, s)
        }
      })"

text \<open>\<open>mem_calloc\<close>; \<open>bs\<close> are the bytes behind the headers, which \<open>memset\<close> writes.\<close>

definition mem_calloc :: "nat \<Rightarrow> nat \<Rightarrow> lwmem \<Rightarrow> (int \<Rightarrow> u8) \<Rightarrow> (int option \<times> lwmem \<times> (int \<Rightarrow> u8)) option" where
  "mem_calloc count sz s bs =
     (let alloc_size = count * sz in
      if alloc_size mod 65536 \<noteq> alloc_size then Some (None, s, bs)
      else do {
        (p, s) \<leftarrow> mem_malloc alloc_size s;
        case p of
          None \<Rightarrow> Some (None, s, bs)
        | Some r \<Rightarrow> Some (Some r, s, \<lambda>i. if r \<le> i \<and> i < r + int alloc_size then 0 else bs i)
      })"

section \<open>The list of blocks\<close>

text \<open>
  A block is its offset and whether it is in use; \<open>st L e\<close> is where the blocks \<open>L\<close> that end
  at \<open>e\<close> start. \<open>lay h p L e\<close>: the headers of \<open>h\<close> are those of the blocks \<open>L\<close>, which end at
  \<open>e\<close> and whose predecessor is \<open>p\<close>.
\<close>

type_synonym blk = "nat \<times> bool"

fun st :: "blk list \<Rightarrow> nat \<Rightarrow> nat" where
  "st [] e = e"
| "st ((b, u) # L) e = b"

fun lay :: "(nat \<rightharpoonup> hdr) \<Rightarrow> nat \<Rightarrow> blk list \<Rightarrow> nat \<Rightarrow> bool" where
  "lay h p [] e = True"
| "lay h p ((b, u) # L) e =
     (h b = Some \<lparr>mnext = st L e, mprev = p, mused = u\<rparr> \<and> b + 20 \<le> st L e \<and> b mod 4 = 0 \<and> lay h b L e)"

text \<open>No two free blocks in a row; the first argument tells whether a free block precedes.\<close>

fun no_free_pair :: "bool \<Rightarrow> blk list \<Rightarrow> bool" where
  "no_free_pair f [] = True"
| "no_free_pair f ((b, u) # L) = ((f \<longrightarrow> u) \<and> no_free_pair (\<not> u) L)"

definition heap_wf :: "lwmem \<Rightarrow> blk list \<Rightarrow> bool" where
  "heap_wf s L \<longleftrightarrow> st L MEM_SIZE_ALIGNED = 0 \<and> lay (hdrs s) 0 L MEM_SIZE_ALIGNED \<and>
     hdrs s MEM_SIZE_ALIGNED = Some \<lparr>mnext = MEM_SIZE_ALIGNED, mprev = MEM_SIZE_ALIGNED, mused = True\<rparr> \<and>
     no_free_pair False L \<and> lfree s = st (dropWhile snd L) MEM_SIZE_ALIGNED"

text \<open>The blocks as the headers give them, found by walking from the first one.\<close>

fun walk :: "nat \<Rightarrow> (nat \<rightharpoonup> hdr) \<Rightarrow> nat \<Rightarrow> blk list" where
  "walk 0 h p = []"
| "walk (Suc k) h p =
     (if p = MEM_SIZE_ALIGNED then []
      else case h p of None \<Rightarrow> [] | Some m \<Rightarrow> (p, mused m) # walk k h (mnext m))"

definition heap_blocks :: "lwmem \<Rightarrow> blk list" where
  "heap_blocks s = walk 800 (hdrs s) 0"

text \<open>First fit, release with coalescing, and shrinking, on the blocks.\<close>

fun a_alloc :: "nat \<Rightarrow> blk list \<Rightarrow> nat \<Rightarrow> (nat \<times> blk list) option" where
  "a_alloc sz [] e = None"
| "a_alloc sz ((b, u) # L) e =
     (if \<not> u \<and> b + 8 + sz \<le> st L e
      then Some (b, if b + 8 + sz + 20 \<le> st L e then (b, True) # (b + 8 + sz, False) # L else (b, True) # L)
      else map_option (\<lambda>(x, M). (x, (b, u) # M)) (a_alloc sz L e))"

fun coalesce :: "blk list \<Rightarrow> blk list" where
  "coalesce [] = []"
| "coalesce ((b, u) # L) =
     (case coalesce L of
        (c, False) # M \<Rightarrow> if u then (b, u) # (c, False) # M else (b, False) # M
      | M \<Rightarrow> (b, u) # M)"

definition a_free :: "nat \<Rightarrow> blk list \<Rightarrow> blk list" where
  "a_free x L = coalesce (map (\<lambda>(b, u). (b, u \<and> b \<noteq> x)) L)"

fun a_trim :: "nat \<Rightarrow> nat \<Rightarrow> blk list \<Rightarrow> blk list" where
  "a_trim x sz [] = []"
| "a_trim x sz ((b, u) # L) =
     (if b \<noteq> x then (b, u) # a_trim x sz L
      else case L of
        [] \<Rightarrow> (b, u) # L
      | (c, v) # M \<Rightarrow>
          if b + 8 + sz = c then (b, u) # L
          else if \<not> v then (b, u) # (b + 8 + sz, False) # M
          else if b + 8 + sz + 20 \<le> c then (b, u) # (b + 8 + sz, False) # L
          else (b, u) # L)"

datatype mem_op = Malloc nat | Free "int option" | Trim int nat

fun mem_step :: "mem_op \<Rightarrow> lwmem \<Rightarrow> (int option \<times> lwmem) option" where
  "mem_step (Malloc n) s = mem_malloc n s"
| "mem_step (Free r) s = map_option (Pair None) (mem_free r s)"
| "mem_step (Trim r n) s = mem_trim r n s"

definition size_bad :: "nat \<Rightarrow> bool" where
  "size_bad n \<longleftrightarrow> mem_size n > MEM_SIZE_ALIGNED \<or> mem_size n < n"

fun mem_astep :: "mem_op \<Rightarrow> blk list \<Rightarrow> int option \<times> blk list" where
  "mem_astep (Malloc n) L =
     (if n = 0 \<or> size_bad n then (None, L)
      else case a_alloc (mem_size n) L MEM_SIZE_ALIGNED of
        None \<Rightarrow> (None, L)
      | Some (b, M) \<Rightarrow> (Some (int b + 8), M))"
| "mem_astep (Free r) L = (None, case r of None \<Rightarrow> L | Some r \<Rightarrow> a_free (nat (r - 8)) L)"
| "mem_astep (Trim r n) L =
     (if size_bad n then (None, L) else (Some r, a_trim (nat (r - 8)) (mem_size n) L))"

text \<open>A pointer that \<open>mem_malloc\<close> has returned and that has not been freed.\<close>

definition allocated :: "int \<Rightarrow> blk list \<Rightarrow> bool" where
  "allocated r L \<longleftrightarrow> 8 \<le> r \<and> (nat (r - 8), True) \<in> set L"

text \<open>The end of the block at an offset, the offset of the next block.\<close>

fun blk_end :: "nat \<Rightarrow> blk list \<Rightarrow> nat \<Rightarrow> nat" where
  "blk_end x [] e = e"
| "blk_end x ((b, u) # L) e = (if b = x then st L e else blk_end x L e)"

text \<open>
  The calls the heap allows: only allocated pointers are freed and trimmed; trimming does not
  enlarge, and the last block of the heap is not trimmed by 20 bytes or more.
\<close>

fun mem_ok :: "mem_op \<Rightarrow> blk list \<Rightarrow> bool" where
  "mem_ok (Malloc n) L = True"
| "mem_ok (Free r) L = (case r of None \<Rightarrow> True | Some r \<Rightarrow> allocated r L)"
| "mem_ok (Trim r n) L =
     (size_bad n \<or> allocated r L \<and>
      (let room = blk_end (nat (r - 8)) L MEM_SIZE_ALIGNED - nat r in
       mem_size n \<le> room \<and>
       (blk_end (nat (r - 8)) L MEM_SIZE_ALIGNED = MEM_SIZE_ALIGNED \<longrightarrow> room < mem_size n + 20)))"

section \<open>Blocks and headers\<close>

lemma st_append: "st (L1 @ L2) e = st L1 (st L2 e)"
  by (cases L1) auto

fun lastb :: "nat \<Rightarrow> blk list \<Rightarrow> nat" where
  "lastb p [] = p"
| "lastb p ((b, u) # L) = lastb b L"

fun lastf :: "bool \<Rightarrow> blk list \<Rightarrow> bool" where
  "lastf f [] = f"
| "lastf f ((b, u) # L) = lastf (\<not> u) L"

lemma lastb_append: "lastb p (L1 @ L2) = lastb (lastb p L1) L2"
  by (induction L1 arbitrary: p) auto

lemma lastf_append: "lastf f (L1 @ L2) = lastf (lastf f L1) L2"
  by (induction L1 arbitrary: f) auto

lemma lay_append: "lay h p (L1 @ L2) e \<longleftrightarrow> lay h p L1 (st L2 e) \<and> lay h (lastb p L1) L2 e"
  by (induction L1 arbitrary: p) (auto simp: st_append)

lemma no_free_pair_append:
  "no_free_pair f (L1 @ L2) \<longleftrightarrow> no_free_pair f L1 \<and> no_free_pair (lastf f L1) L2"
  by (induction L1 arbitrary: f) auto

lemma no_free_pair_mono: "no_free_pair f L \<Longrightarrow> no_free_pair False L"
  by (cases L) auto

lemma lay_length: "lay h p L e \<Longrightarrow> st L e + 20 * length L \<le> e"
  by (induction L arbitrary: p) force+

lemma lay_le: "lay h p L e \<Longrightarrow> st L e \<le> e"
  using lay_length by fastforce

lemma lay_mem: "lay h p L e \<Longrightarrow> (b, u) \<in> set L \<Longrightarrow> st L e \<le> b \<and> b + 20 \<le> e \<and> b mod 4 = 0"
proof (induction L arbitrary: p)
  case (Cons a L)
  then show ?case by (cases a) (force dest: lay_le)
qed simp

lemma lay_lastb: "lay h p L e \<Longrightarrow> L \<noteq> [] \<Longrightarrow> st L e \<le> lastb p L \<and> lastb p L + 20 \<le> e"
proof (induction L arbitrary: p)
  case (Cons a L)
  then show ?case by (cases a, cases "L = []") (force dest: lay_le)+
qed simp

lemma lay_upd: "lay h p L e \<Longrightarrow> x < st L e \<or> e \<le> x \<Longrightarrow> lay (h(x \<mapsto> v)) p L e"
proof (induction L arbitrary: p)
  case (Cons a L)
  then show ?case by (cases a) (force dest: lay_le)
qed simp

definition relink :: "nat \<Rightarrow> nat \<Rightarrow> (nat \<rightharpoonup> hdr) \<Rightarrow> nat \<rightharpoonup> hdr" where
  "relink n q h = (if n = MEM_SIZE_ALIGNED then h else h(n \<mapsto> the (h n)\<lparr>mprev := q\<rparr>))"

lemma relink_other: "x \<noteq> n \<Longrightarrow> relink n q h x = h x"
  by (simp add: relink_def)

lemma relink_end [simp]: "relink n q h MEM_SIZE_ALIGNED = h MEM_SIZE_ALIGNED"
  by (simp add: relink_def)

lemma relink_none [simp]: "relink MEM_SIZE_ALIGNED q h = h"
  by (simp add: relink_def)

lemma lay_relink_out: "lay h p L e \<Longrightarrow> n < st L e \<or> e \<le> n \<Longrightarrow> lay (relink n q h) p L e"
  by (simp add: relink_def lay_upd)

lemma lay_relink:
  "lay h p L MEM_SIZE_ALIGNED \<Longrightarrow> lay (relink (st L MEM_SIZE_ALIGNED) q h) q L MEM_SIZE_ALIGNED"
proof (cases L)
  case (Cons a M)
  assume l: "lay h p L MEM_SIZE_ALIGNED"
  obtain b u where a: "a = (b, u)" by (cases a)
  have "st M MEM_SIZE_ALIGNED \<le> MEM_SIZE_ALIGNED"
    using l Cons a by (auto dest: lay_le)
  with l Cons a show ?thesis by (auto simp: relink_def lay_upd)
qed simp

lemma set_prev_relink:
  "lay (hdrs s) p L MEM_SIZE_ALIGNED \<Longrightarrow> n = st L MEM_SIZE_ALIGNED \<Longrightarrow>
   n \<noteq> MEM_SIZE_ALIGNED \<longrightarrow> set_prev n q s = Some (s\<lparr>hdrs := relink n q (hdrs s)\<rparr>)"
  by (cases L) (auto simp: relink_def set_prev_def)

section \<open>Allocation\<close>

lemma dropWhile_st_append:
  "st (dropWhile snd (L1 @ L2)) e = st (dropWhile snd L1) (st (dropWhile snd L2) e)"
  by (induction L1) (auto simp: st_append)

lemma dropWhile_st_less:
  "lay h p L e \<Longrightarrow> \<not> (\<forall>x\<in>set L. snd x) \<Longrightarrow> st (dropWhile snd L) x < e"
proof (induction L arbitrary: p)
  case (Cons a L)
  then show ?case by (cases a) (auto dest: lay_le)
qed simp

lemma dropWhile_used: "\<forall>x\<in>set L. snd x \<Longrightarrow> dropWhile snd L = []"
  by simp

lemma dropWhile_st_le: "lay h p L e \<Longrightarrow> st (dropWhile snd L) e \<le> e"
  using dropWhile_st_less[of h p L e e] by (cases "\<forall>x\<in>set L. snd x") (auto simp: dropWhile_used)

lemma first_ge: "lay h p L e \<Longrightarrow> st L e \<le> st (dropWhile snd L) e"
proof (induction L arbitrary: p)
  case (Cons a L)
  then show ?case by (cases a) fastforce
qed simp

lemma dropWhile_st_const:
  "\<not> (\<forall>x\<in>set L. snd x) \<Longrightarrow> st (dropWhile snd L) x = st (dropWhile snd L) y"
  by (induction L) auto

lemma usub_le: "b \<le> a \<Longrightarrow> a < 2 ^ 32 \<Longrightarrow> usub a b = a - b"
proof -
  assume "b \<le> a" "a < 2 ^ 32"
  then have "a + 2 ^ 32 - b = (a - b) + 2 ^ 32" by simp
  then have "usub a b = (a - b) mod 2 ^ 32" by (simp only: usub_def mod_add_self2)
  then show ?thesis using \<open>a < 2 ^ 32\<close> by simp
qed

lemma lfree_loop_lay:
  assumes "lay (hdrs s) p L MEM_SIZE_ALIGNED" "hdrs s MEM_SIZE_ALIGNED = Some m"
  shows "lfree_loop (st L MEM_SIZE_ALIGNED) s = Some (st (dropWhile snd L) MEM_SIZE_ALIGNED)"
  using assms
proof (induction L arbitrary: p)
  case Nil
  then show ?case by (subst lfree_loop.simps) simp
next
  case (Cons a L)
  obtain b u where a: "a = (b, u)" by (cases a)
  have "b \<noteq> MEM_SIZE_ALIGNED" using Cons.prems(1) a by (auto dest: lay_le)
  with Cons a show ?case by (subst lfree_loop.simps) auto
qed

lemma a_alloc_beyond:
  "lay h p L MEM_SIZE_ALIGNED \<Longrightarrow> MEM_SIZE_ALIGNED - sz \<le> st L MEM_SIZE_ALIGNED \<Longrightarrow>
   a_alloc sz L MEM_SIZE_ALIGNED = None"
proof (induction L arbitrary: p)
  case (Cons a L)
  obtain b u where a: "a = (b, u)" by (cases a)
  have "st L MEM_SIZE_ALIGNED \<le> MEM_SIZE_ALIGNED" "b + 20 \<le> st L MEM_SIZE_ALIGNED"
    using Cons.prems(1) a by (auto dest: lay_le)
  with Cons a show ?case by auto
qed simp

lemma malloc_loop_lay:
  assumes "lay (hdrs s) p L MEM_SIZE_ALIGNED"
  shows "malloc_loop sz (st L MEM_SIZE_ALIGNED) s =
    (case a_alloc sz L MEM_SIZE_ALIGNED of
       None \<Rightarrow> Some (None, s)
     | Some (b, M) \<Rightarrow> malloc_take sz b s)"
  using assms
proof (induction L arbitrary: p)
  case Nil
  have "\<not> MEM_SIZE_ALIGNED < MEM_SIZE_ALIGNED - sz" by simp
  then show ?case by (subst malloc_loop.simps) simp
next
  case (Cons a L)
  obtain b u where a: "a = (b, u)" by (cases a)
  let ?n = "st L MEM_SIZE_ALIGNED"
  have h: "hdrs s b = Some \<lparr>mnext = ?n, mprev = p, mused = u\<rparr>" and n: "b + 20 \<le> ?n"
    and l: "lay (hdrs s) b L MEM_SIZE_ALIGNED" and le: "?n \<le> MEM_SIZE_ALIGNED"
    using Cons.prems a by (auto dest: lay_le)
  show ?case
  proof (cases "b < MEM_SIZE_ALIGNED - sz")
    case False
    then have "a_alloc sz (a # L) MEM_SIZE_ALIGNED = None"
      using a_alloc_beyond[OF Cons.prems] a by simp
    then show ?thesis using False a by (subst malloc_loop.simps) simp
  next
    case True
    have "usub ?n (b + 8) = ?n - (b + 8)"
      using n le by (intro usub_le) (auto simp: MEM_SIZE_ALIGNED_def)
    then have fits: "(sz \<le> usub ?n (b + SIZEOF_STRUCT_MEM)) = (b + 8 + sz \<le> ?n)"
      using n by (auto simp: SIZEOF_STRUCT_MEM_def)
    show ?thesis using True h Cons.IH[OF l] fits a
      by (subst malloc_loop.simps) (auto split: option.splits)
  qed
qed

lemma a_alloc_SomeD:
  "a_alloc sz L e = Some (b, M) \<Longrightarrow>
   \<exists>L1 L2. L = L1 @ (b, False) # L2 \<and> b + 8 + sz \<le> st L2 e \<and>
     M = L1 @ (if b + 8 + sz + 20 \<le> st L2 e then (b, True) # (b + 8 + sz, False) # L2 else (b, True) # L2)"
proof (induction L arbitrary: M)
  case (Cons a L)
  obtain c u where a: "a = (c, u)" by (cases a)
  show ?case
  proof (cases "\<not> u \<and> c + 8 + sz \<le> st L e")
    case True
    then show ?thesis using Cons.prems a by (intro exI[of _ "[]"] exI[of _ L]) (auto split: if_splits)
  next
    case False
    then obtain M' where "a_alloc sz L e = Some (b, M')" "M = (c, u) # M'"
      using Cons.prems a by (auto split: if_splits)
    moreover from Cons.IH[OF this(1)] obtain L1 L2 where
      "L = L1 @ (b, False) # L2" "b + 8 + sz \<le> st L2 e"
      "M' = L1 @ (if b + 8 + sz + 20 \<le> st L2 e then (b, True) # (b + 8 + sz, False) # L2 else (b, True) # L2)"
      by blast
    ultimately show ?thesis using a by (intro exI[of _ "(c, u) # L1"] exI[of _ L2]) simp
  qed
qed simp

lemma a_alloc_used:
  "\<forall>x\<in>set L1. snd x \<Longrightarrow> a_alloc sz (L1 @ L2) e = map_option (apsnd ((@) L1)) (a_alloc sz L2 e)"
  by (induction L1) (auto simp: option.map_comp o_def apsnd_def map_prod_def split_def option.map_ident)

lemma heap_wfD:
  assumes "heap_wf s L"
  shows "st L MEM_SIZE_ALIGNED = 0" "lay (hdrs s) 0 L MEM_SIZE_ALIGNED"
    "hdrs s MEM_SIZE_ALIGNED = Some \<lparr>mnext = MEM_SIZE_ALIGNED, mprev = MEM_SIZE_ALIGNED, mused = True\<rparr>"
    "no_free_pair False L" "lfree s = st (dropWhile snd L) MEM_SIZE_ALIGNED"
  using assms by (auto simp: heap_wf_def)

text \<open>What a well-formed heap gives for one of its blocks.\<close>

lemma heap_wf_at:
  assumes "heap_wf s (L1 @ (b, u) # L2)" and n: "n = st L2 MEM_SIZE_ALIGNED"
  shows "hdrs s b = Some \<lparr>mnext = n, mprev = lastb 0 L1, mused = u\<rparr>"
    "b + 20 \<le> n" "n \<le> MEM_SIZE_ALIGNED" "b mod 4 = 0"
    "lay (hdrs s) 0 L1 b" "lay (hdrs s) b L2 MEM_SIZE_ALIGNED"
    "st L1 b = 0" "lfree s = st (dropWhile snd L1) (if u then st (dropWhile snd L2) MEM_SIZE_ALIGNED else b)"
    "no_free_pair False L1" "no_free_pair (lastf False L1) ((b, u) # L2)"
  using heap_wfD[OF assms(1)] n
  by (auto simp: lay_append st_append dropWhile_st_append no_free_pair_append dest: lay_le)

lemma lfree_is_block:
  assumes "heap_wf s (L1 @ (b, False) # L2)"
  shows "b = lfree s \<longleftrightarrow> (\<forall>x\<in>set L1. snd x)"
  using heap_wf_at(5,8)[OF assms refl] dropWhile_st_less[of "hdrs s" 0 L1 b b]
  by (cases "\<forall>x\<in>set L1. snd x") (auto simp: dropWhile_used)

text \<open>The block split in two.\<close>

definition split_hdrs :: "nat \<Rightarrow> nat \<Rightarrow> nat \<Rightarrow> nat \<Rightarrow> (nat \<rightharpoonup> hdr) \<Rightarrow> nat \<rightharpoonup> hdr" where
  "split_hdrs p b b2 n h = relink n b2
     (h(b2 \<mapsto> \<lparr>mnext = n, mprev = b, mused = False\<rparr>, b \<mapsto> \<lparr>mnext = b2, mprev = p, mused = True\<rparr>))"

lemma lay_split:
  assumes l1: "lay h 0 L1 b" and l2: "lay h q L2 MEM_SIZE_ALIGNED" and n: "n = st L2 MEM_SIZE_ALIGNED"
    and b: "b mod 4 = 0" "b2 mod 4 = 0" "b + 20 \<le> b2" "b2 + 20 \<le> n"
  shows "lay (split_hdrs (lastb 0 L1) b b2 n h) 0 (L1 @ (b, True) # (b2, False) # L2) MEM_SIZE_ALIGNED"
proof -
  let ?g = "h(b2 \<mapsto> \<lparr>mnext = n, mprev = b, mused = False\<rparr>, b \<mapsto> \<lparr>mnext = b2, mprev = lastb 0 L1, mused = True\<rparr>)"
  have "lay ?g 0 L1 b" using b by (intro lay_upd l1) auto
  then have "lay (relink n b2 ?g) 0 L1 b" using b by (intro lay_relink_out) auto
  moreover have "lay ?g q L2 MEM_SIZE_ALIGNED" using b n by (intro lay_upd l2) auto
  then have "lay (relink n b2 ?g) b2 L2 MEM_SIZE_ALIGNED" unfolding n by (rule lay_relink)
  ultimately show ?thesis using b n by (auto simp: split_hdrs_def lay_append relink_other)
qed

lemma lay_use:
  assumes "lay h 0 (L1 @ (b, u) # L2) MEM_SIZE_ALIGNED" and n: "n = st L2 MEM_SIZE_ALIGNED"
  shows "lay (h(b \<mapsto> \<lparr>mnext = n, mprev = lastb 0 L1, mused = v\<rparr>)) 0 (L1 @ (b, v) # L2) MEM_SIZE_ALIGNED"
  using assms by (auto simp: lay_append intro!: lay_upd)

lemma mod4: "b mod 4 = 0 \<Longrightarrow> sz mod 4 = 0 \<Longrightarrow> (b + 8 + sz) mod 4 = (0::nat)"
  by (simp add: mod_eq_0_iff_dvd)

definition alloc_hdrs :: "nat \<Rightarrow> nat \<Rightarrow> nat \<Rightarrow> nat \<Rightarrow> (nat \<rightharpoonup> hdr) \<Rightarrow> nat \<rightharpoonup> hdr" where
  "alloc_hdrs p b sz n h =
     (if b + 8 + sz + 20 \<le> n then split_hdrs p b (b + 8 + sz) n h
      else h(b \<mapsto> \<lparr>mnext = n, mprev = p, mused = True\<rparr>))"

lemma malloc_split_lay:
  assumes wf: "heap_wf s (L1 @ (b, False) # L2)" and n: "n = st L2 MEM_SIZE_ALIGNED"
    and sz: "b + 8 + sz \<le> n"
  shows "malloc_split sz b s = Some (s\<lparr>hdrs := alloc_hdrs (lastb 0 L1) b sz n (hdrs s)\<rparr>)"
proof -
  note at = heap_wf_at[OF wf n]
  have us: "usub n (b + 8) = n - (b + 8)"
    using at by (intro usub_le) (auto simp: MEM_SIZE_ALIGNED_def)
  show ?thesis
  proof (cases "b + 8 + sz + 20 \<le> n")
    case False
    then have "\<not> sz + 8 + 12 \<le> n - (b + 8)" by simp
    then show ?thesis using at us False
      by (simp add: malloc_split_def alloc_hdrs_def set_used_def mem_consts)
  next
    case True
    let ?g = "(hdrs s)(b + 8 + sz \<mapsto> \<lparr>mnext = n, mprev = b, mused = False\<rparr>,
      b \<mapsto> \<lparr>mnext = b + 8 + sz, mprev = lastb 0 L1, mused = True\<rparr>)"
    have "lay ?g b L2 MEM_SIZE_ALIGNED" using at(6) True n by (intro lay_upd) auto
    note set_prev_relink[where s = "s\<lparr>hdrs := ?g\<rparr>", simplified, OF this n, of "b + 8 + sz"]
    moreover have "b + 8 + sz \<noteq> MEM_SIZE_ALIGNED" "b + 8 + sz < 65536"
      using True at(3) by (auto simp: MEM_SIZE_ALIGNED_def)
    moreover have "sz + 8 + 12 \<le> n - (b + 8)" using True by simp
    ultimately show ?thesis using at(1) us True
      by (simp add: malloc_split_def alloc_hdrs_def split_hdrs_def set_used_def set_next_def
        SIZEOF_STRUCT_MEM_def MIN_SIZE_ALIGNED_def Let_def)
  qed
qed

lemma first_free_hdr:
  "lay h p L e \<Longrightarrow> h e = Some m \<Longrightarrow>
   \<exists>c. h (st (dropWhile snd L) e) = Some c \<and> (st (dropWhile snd L) e = e \<or> \<not> mused c)"
  by (induction L arbitrary: p) auto

lemma malloc_adjust_lay:
  assumes l: "lay (hdrs s) 0 (L1 @ M) MEM_SIZE_ALIGNED" "hdrs s MEM_SIZE_ALIGNED = Some m"
    and b: "st M MEM_SIZE_ALIGNED = b" "b = lfree s \<longleftrightarrow> (\<forall>x\<in>set L1. snd x)"
    and lf: "lfree s = st (dropWhile snd L1) b"
  shows "malloc_adjust b s = Some (s\<lparr>lfree := st (dropWhile snd (L1 @ M)) MEM_SIZE_ALIGNED\<rparr>)"
proof (cases "b = lfree s")
  case False
  then show ?thesis
    using b lf dropWhile_st_const[of L1 b "st (dropWhile snd M) MEM_SIZE_ALIGNED"]
    by (simp add: malloc_adjust_def dropWhile_st_append)
next
  case True
  have lm: "lay (hdrs s) (lastb 0 L1) M MEM_SIZE_ALIGNED" using l by (simp add: lay_append)
  from lfree_loop_lay[OF lm l(2)] b True
  have lp: "lfree_loop (lfree s) s = Some (st (dropWhile snd M) MEM_SIZE_ALIGNED)" by simp
  show ?thesis using first_free_hdr[OF lm l(2)] b True lp
    by (auto simp: malloc_adjust_def dropWhile_st_append dropWhile_used)
qed

lemma malloc_take_lay:
  assumes wf: "heap_wf s (L1 @ (b, False) # L2)" and n: "n = st L2 MEM_SIZE_ALIGNED"
    and sz: "12 \<le> sz" "sz mod 4 = 0" "b + 8 + sz \<le> n"
  defines "M \<equiv> if b + 8 + sz + 20 \<le> n then (b, True) # (b + 8 + sz, False) # L2 else (b, True) # L2"
  shows "\<exists>s'. malloc_take sz b s = Some (Some (int b + 8), s') \<and> heap_wf s' (L1 @ M)"
proof -
  note at = heap_wf_at[OF wf n] and w = heap_wfD[OF wf]
  define h where "h = alloc_hdrs (lastb 0 L1) b sz n (hdrs s)"
  let ?s = "s\<lparr>hdrs := h, lfree := st (dropWhile snd (L1 @ M)) MEM_SIZE_ALIGNED\<rparr>"
  have b2: "(b + 8 + sz) mod 4 = 0" using at(4) sz(2) by (auto simp: mod4)
  have lay: "lay h 0 (L1 @ M) MEM_SIZE_ALIGNED"
    using at b2 sz w(2) lay_use[OF w(2) n, of True] unfolding h_def M_def alloc_hdrs_def
    by (auto intro!: lay_split simp: n)
  have h_end: "h MEM_SIZE_ALIGNED = hdrs s MEM_SIZE_ALIGNED"
    using at sz by (auto simp: h_def alloc_hdrs_def split_hdrs_def)
  have nfp: "no_free_pair False (L1 @ M)"
    using at(9,10) by (auto simp: no_free_pair_append M_def intro: no_free_pair_mono)
  have stM: "st M MEM_SIZE_ALIGNED = b" by (simp add: M_def)
  have "heap_wf ?s (L1 @ M)"
    using lay h_end w nfp at(7) stM by (simp add: heap_wf_def st_append)
  moreover have "malloc_adjust b (s\<lparr>hdrs := h\<rparr>) = Some ?s"
    using malloc_adjust_lay[of "s\<lparr>hdrs := h\<rparr>" L1 M] lay h_end w(3) stM lfree_is_block[OF wf] at(8)
    by simp
  then have "malloc_take sz b s = Some (Some (int b + 8), ?s)"
    using malloc_split_lay[OF wf n sz(3)] at sz
    by (simp add: malloc_take_def mem_consts h_def)
  ultimately show ?thesis by blast
qed

lemma mem_size_props:
  "12 \<le> mem_size n" "mem_size n mod 4 = 0"
proof -
  have "(m * 4) mod 65536 mod 4 = 0" for m :: nat
    using mod_mod_cancel[of 4 65536 "m * 4"] by simp
  then show "12 \<le> mem_size n" "mem_size n mod 4 = 0"
    by (auto simp: mem_size_def MIN_SIZE_ALIGNED_def max_def)
qed

lemma malloc_start:
  assumes wf: "heap_wf s L" and n: "n \<noteq> 0" "\<not> size_bad n"
  shows "mem_malloc n s =
    (case a_alloc (mem_size n) L MEM_SIZE_ALIGNED of
       None \<Rightarrow> Some (None, s)
     | Some (b, M) \<Rightarrow> malloc_take (mem_size n) b s)"
proof -
  let ?z = "mem_size n"
  define L2 where "L2 = dropWhile snd L"
  have L: "L = takeWhile snd L @ L2" by (simp add: L2_def)
  have used: "\<forall>x\<in>set (takeWhile snd L). snd x" using set_takeWhileD by metis
  have "lay (hdrs s) (lastb 0 (takeWhile snd L)) L2 MEM_SIZE_ALIGNED"
    using heap_wfD(2)[OF wf] L lay_append[of "hdrs s" 0 "takeWhile snd L" L2] by simp
  from malloc_loop_lay[OF this, of ?z] heap_wfD(5)[OF wf]
  have "malloc_loop ?z (lfree s) s =
    (case a_alloc ?z L2 MEM_SIZE_ALIGNED of None \<Rightarrow> Some (None, s) | Some (b, M) \<Rightarrow> malloc_take ?z b s)"
    by (simp add: L2_def)
  moreover have "a_alloc ?z L MEM_SIZE_ALIGNED =
      map_option (apsnd ((@) (takeWhile snd L))) (a_alloc ?z L2 MEM_SIZE_ALIGNED)"
    using a_alloc_used[OF used] L by metis
  ultimately show ?thesis
    using n by (auto simp: mem_malloc_def size_bad_def Let_def split: option.splits)
qed

lemma malloc_lay:
  assumes wf: "heap_wf s L"
  shows "\<exists>s'. mem_malloc n s = Some (fst (mem_astep (Malloc n) L), s') \<and>
    heap_wf s' (snd (mem_astep (Malloc n) L))"
proof (cases "n = 0 \<or> size_bad n")
  case True
  then show ?thesis using wf by (auto simp: mem_malloc_def size_bad_def Let_def)
next
  case False
  let ?z = "mem_size n"
  have start: "mem_malloc n s = (case a_alloc ?z L MEM_SIZE_ALIGNED of
      None \<Rightarrow> Some (None, s) | Some (b, M) \<Rightarrow> malloc_take ?z b s)"
    using malloc_start[OF wf] False by blast
  show ?thesis
  proof (cases "a_alloc ?z L MEM_SIZE_ALIGNED")
    case None
    then show ?thesis using wf start False by auto
  next
    case (Some x)
    then obtain b M where bM: "a_alloc ?z L MEM_SIZE_ALIGNED = Some (b, M)" by (cases x) auto
    from a_alloc_SomeD[OF this] obtain K1 K2 where K: "L = K1 @ (b, False) # K2"
      "b + 8 + ?z \<le> st K2 MEM_SIZE_ALIGNED"
      "M = K1 @ (if b + 8 + ?z + 20 \<le> st K2 MEM_SIZE_ALIGNED then (b, True) # (b + 8 + ?z, False) # K2
        else (b, True) # K2)" by blast
    obtain s' where "malloc_take ?z b s = Some (Some (int b + 8), s')" "heap_wf s' M"
      using malloc_take_lay[OF wf[unfolded K(1)] refl mem_size_props K(2)] K(3) by auto
    then show ?thesis using start bM False by auto
  qed
qed

section \<open>Release\<close>

text \<open>
  The state between the steps of a release: as \<open>heap_wf\<close>, but free blocks may touch.
\<close>

definition heap_pre :: "lwmem \<Rightarrow> blk list \<Rightarrow> bool" where
  "heap_pre s L \<longleftrightarrow> st L MEM_SIZE_ALIGNED = 0 \<and> lay (hdrs s) 0 L MEM_SIZE_ALIGNED \<and>
     hdrs s MEM_SIZE_ALIGNED = Some \<lparr>mnext = MEM_SIZE_ALIGNED, mprev = MEM_SIZE_ALIGNED, mused = True\<rparr> \<and>
     lfree s = st (dropWhile snd L) MEM_SIZE_ALIGNED"

lemma heap_wf_pre: "heap_wf s L \<longleftrightarrow> heap_pre s L \<and> no_free_pair False L"
  by (auto simp: heap_wf_def heap_pre_def)

lemma heap_pre_at:
  assumes "heap_pre s (L1 @ (b, u) # L2)" and n: "n = st L2 MEM_SIZE_ALIGNED"
  shows "hdrs s b = Some \<lparr>mnext = n, mprev = lastb 0 L1, mused = u\<rparr>"
    "b + 20 \<le> n" "n \<le> MEM_SIZE_ALIGNED" "b mod 4 = 0"
    "lay (hdrs s) 0 L1 b" "lay (hdrs s) b L2 MEM_SIZE_ALIGNED"
    "st L1 b = 0" "lfree s = st (dropWhile snd L1) (if u then st (dropWhile snd L2) MEM_SIZE_ALIGNED else b)"
    "hdrs s MEM_SIZE_ALIGNED = Some \<lparr>mnext = MEM_SIZE_ALIGNED, mprev = MEM_SIZE_ALIGNED, mused = True\<rparr>"
  using assms
  by (auto simp: heap_pre_def lay_append st_append dropWhile_st_append dest: lay_le)

text \<open>Two neighbouring blocks, the second free, become one.\<close>

lemma lay_merge:
  assumes l: "lay h 0 (L1 @ (b, u) # (c, v) # L2) MEM_SIZE_ALIGNED" and n: "n = st L2 MEM_SIZE_ALIGNED"
  shows "lay (relink n b (h(b \<mapsto> \<lparr>mnext = n, mprev = lastb 0 L1, mused = u\<rparr>))) 0 (L1 @ (b, u) # L2) MEM_SIZE_ALIGNED"
proof -
  let ?g = "h(b \<mapsto> \<lparr>mnext = n, mprev = lastb 0 L1, mused = u\<rparr>)"
  have b: "b mod 4 = 0" "b + 20 \<le> c" "c + 20 \<le> n" and l1: "lay h 0 L1 b"
    and l2: "lay h c L2 MEM_SIZE_ALIGNED"
    using l n by (auto simp: lay_append)
  have "lay (relink n b ?g) 0 L1 b" using b by (intro lay_relink_out lay_upd l1) auto
  moreover have "lay ?g c L2 MEM_SIZE_ALIGNED" using b n by (intro lay_upd l2) auto
  then have "lay (relink n b ?g) b L2 MEM_SIZE_ALIGNED" unfolding n by (rule lay_relink)
  ultimately show ?thesis using b n by (auto simp: lay_append relink_other)
qed

fun drop_free :: "blk list \<Rightarrow> blk list" where
  "drop_free ((c, False) # L) = L"
| "drop_free L = L"

lemma plug_forward_pre:
  assumes pre: "heap_pre s (L1 @ (b, False) # L2)"
  shows "\<exists>s'. plug_forward b s = Some s' \<and> heap_pre s' (L1 @ (b, False) # drop_free L2)"
proof (cases "\<exists>c M. L2 = (c, False) # M")
  case False
  then have "drop_free L2 = L2" by (cases L2 rule: drop_free.cases) auto
  moreover have "plug_forward b s = Some s"
    using heap_pre_at[OF pre refl] False by (cases L2 rule: drop_free.cases) (auto simp: plug_forward_def)
  ultimately show ?thesis using pre by simp
next
  case True
  then obtain c M where L2: "L2 = (c, False) # M" by blast
  let ?n = "st M MEM_SIZE_ALIGNED"
  let ?g = "(hdrs s)(b \<mapsto> \<lparr>mnext = ?n, mprev = lastb 0 L1, mused = False\<rparr>)"
  note at = heap_pre_at[OF pre[unfolded L2] refl]
  have pre2: "heap_pre s ((L1 @ [(b, False)]) @ (c, False) # M)" using pre L2 by simp
  note at2 = heap_pre_at[OF pre2 refl]
  have lf: "lfree s \<noteq> c" using at at2 dropWhile_st_le[OF at(5)] by auto
  have "lay ?g c M MEM_SIZE_ALIGNED" using at at2 by (intro lay_upd) auto
  note prev = set_prev_relink[where s = "s\<lparr>hdrs := ?g\<rparr>", simplified, OF this refl, of b]
  have "plug_forward b s = Some (s\<lparr>hdrs := relink ?n b ?g\<rparr>)"
    using at at2 lf prev by (auto simp: plug_forward_def set_next_def Let_def)
  moreover have "heap_pre (s\<lparr>hdrs := relink ?n b ?g\<rparr>) (L1 @ (b, False) # M)"
    using lay_merge[of "hdrs s" L1 b False c False M ?n] pre L2 at at2
    by (auto simp: heap_pre_def st_append dropWhile_st_append)
  ultimately show ?thesis using L2 by simp
qed

lemma plug_backward_pre:
  assumes pre: "heap_pre s (L1 @ (b, False) # L2)"
  shows "\<exists>s'. plug_backward b s = Some s' \<and>
    heap_pre s' (if lastf False L1 then L1 @ L2 else L1 @ (b, False) # L2)"
proof (cases "L1 = []")
  case True
  then show ?thesis using pre heap_pre_at[OF pre refl] by (auto simp: plug_backward_def)
next
  case False
  then obtain K a u where K: "L1 = K @ [(a, u)]" by (metis rev_exhaust surj_pair)
  let ?n = "st L2 MEM_SIZE_ALIGNED"
  let ?g = "(hdrs s)(a \<mapsto> \<lparr>mnext = ?n, mprev = lastb 0 K, mused = u\<rparr>)"
  note at = heap_pre_at[OF pre refl]
  have pre2: "heap_pre s (K @ (a, u) # (b, False) # L2)" using pre K by simp
  note at2 = heap_pre_at[OF pre2 refl]
  have last: "lastb 0 L1 = a" "lastf False L1 = (\<not> u)" using K by (simp_all add: lastb_append lastf_append)
  show ?thesis
  proof (cases u)
    case True
    then show ?thesis using pre at at2 last by (auto simp: plug_backward_def)
  next
    case u: False
    have lf: "lfree s \<noteq> b" using at at2 u dropWhile_st_le[OF at2(5)] by auto
    have "lay ?g b L2 MEM_SIZE_ALIGNED" using at at2 by (intro lay_upd) auto
    note prev = set_prev_relink[where s = "s\<lparr>hdrs := ?g\<rparr>", simplified, OF this refl, of a]
    have "plug_backward b s = Some (s\<lparr>hdrs := relink ?n a ?g\<rparr>)"
      using at at2 lf prev u last by (auto simp: plug_backward_def set_next_def Let_def)
    moreover have "heap_pre (s\<lparr>hdrs := relink ?n a ?g\<rparr>) (K @ (a, u) # L2)"
      using lay_merge[of "hdrs s" K a u b False L2 ?n] pre2 at at2 u
      by (auto simp: heap_pre_def st_append dropWhile_st_append)
    ultimately show ?thesis using K last u by simp
  qed
qed

lemma plug_holes_pre:
  assumes pre: "heap_pre s (L1 @ (b, False) # L2)"
  shows "\<exists>s'. plug_holes b s = Some s' \<and>
    heap_pre s' (if lastf False L1 then L1 @ drop_free L2 else L1 @ (b, False) # drop_free L2)"
proof -
  note at = heap_pre_at[OF pre refl]
  obtain s1 where s1: "plug_forward b s = Some s1" "heap_pre s1 (L1 @ (b, False) # drop_free L2)"
    using plug_forward_pre[OF pre] by blast
  show ?thesis using plug_backward_pre[OF s1(2)] s1(1) at by (auto simp: plug_holes_def)
qed

lemma coalesce_id: "no_free_pair f L \<Longrightarrow> coalesce L = L"
proof (induction L arbitrary: f)
  case (Cons a L)
  obtain b u where a: "a = (b, u)" by (cases a)
  have "coalesce L = L" using Cons a by auto
  then show ?case using Cons.prems a by (cases L rule: drop_free.cases) auto
qed simp

lemma coalesce_nfp: "no_free_pair False (coalesce L)"
proof (induction L)
  case (Cons a L)
  obtain b u where a: "a = (b, u)" by (cases a)
  show ?case using Cons a by (cases "coalesce L" rule: drop_free.cases) auto
qed simp

lemma coalesce_append: "coalesce (L1 @ L2) = coalesce (L1 @ coalesce L2)"
proof (induction L1)
  case Nil
  show ?case using coalesce_id[OF coalesce_nfp] by simp
next
  case (Cons a L1)
  then show ?case by (cases a) simp
qed

lemma coalesce_freed:
  assumes L1: "no_free_pair False L1" and L2: "no_free_pair False L2"
  shows "coalesce (L1 @ (b, False) # L2) =
    (if lastf False L1 then L1 @ drop_free L2 else L1 @ (b, False) # drop_free L2)"
proof -
  let ?D = "drop_free L2"
  have D: "no_free_pair True ?D" using L2 by (cases L2 rule: drop_free.cases) auto
  have c: "coalesce ((b, False) # L2) = (b, False) # ?D"
    using coalesce_id[OF L2] by (cases L2 rule: drop_free.cases) auto
  show ?thesis
  proof (cases "lastf False L1")
    case False
    then have "no_free_pair False (L1 @ (b, False) # ?D)" using L1 D by (simp add: no_free_pair_append)
    then show ?thesis using False coalesce_append[of L1 "(b, False) # L2"] c coalesce_id by simp
  next
    case True
    then obtain K a where K: "L1 = K @ [(a, False)]"
      by (cases L1 rule: rev_cases) (auto simp: lastf_append)
    have k: "coalesce ((a, False) # (b, False) # L2) = (a, False) # ?D"
      using c by (simp del: coalesce.simps add: coalesce.simps(2)[of a])
    have "no_free_pair False (K @ (a, False) # ?D)" using L1 D K by (simp add: no_free_pair_append)
    then show ?thesis
      using True K coalesce_append[of K "(a, False) # (b, False) # L2"] k coalesce_id by simp
  qed
qed

lemma lay_distinct: "lay h p L e \<Longrightarrow> distinct (map fst L)"
proof (induction L arbitrary: p)
  case (Cons a L)
  obtain b u where a: "a = (b, u)" by (cases a)
  have "b \<notin> fst ` set L" using Cons.prems a lay_mem[of h b L e] by fastforce
  then show ?case using Cons a by auto
qed simp

lemma map_mark:
  assumes "lay h p (L1 @ (b, True) # L2) e"
  shows "map (\<lambda>(c, u). (c, u \<and> c \<noteq> b)) (L1 @ (b, True) # L2) = L1 @ (b, False) # L2"
proof -
  have "b \<notin> fst ` set L1" "b \<notin> fst ` set L2" using lay_distinct[OF assms] by auto
  then have "map (\<lambda>(c, u). (c, u \<and> c \<noteq> b)) L1 = L1" "map (\<lambda>(c, u). (c, u \<and> c \<noteq> b)) L2 = L2"
    by (force intro!: map_idI)+
  then show ?thesis by simp
qed

lemma int_mod4: "b mod 4 = 0 \<Longrightarrow> (int b + 8) mod 4 = 0"
proof -
  assume "b mod 4 = 0"
  then obtain k where "b = 4 * k" by (auto simp: mod_eq_0_iff_dvd)
  then have "int b + 8 = 4 * (int k + 2)" by simp
  then show ?thesis by (simp only: mod_mult_self1_is_0)
qed

lemma lay_last_hdr:
  "lay h p L e \<Longrightarrow> L \<noteq> [] \<Longrightarrow> \<exists>m. h (lastb p L) = Some m \<and> mnext m = e"
proof (induction L arbitrary: p)
  case (Cons a L)
  then show ?case by (cases a, cases "L = []") auto
qed simp

lemma link_valid_wf:
  assumes wf: "heap_wf s (L1 @ (b, u) # L2)"
  shows "mem_link_valid b s = Some True"
proof -
  note at = heap_wf_at[OF wf refl]
  have p: "lastb 0 L1 \<le> MEM_SIZE_ALIGNED"
    using lay_lastb[OF at(5)] at by (cases "L1 = []") auto
  have p0: "L1 = [] \<Longrightarrow> lastb 0 L1 = b" using at(7) by simp
  have n: "st L2 MEM_SIZE_ALIGNED \<noteq> MEM_SIZE_ALIGNED \<Longrightarrow>
      \<exists>m. hdrs s (st L2 MEM_SIZE_ALIGNED) = Some m \<and> mprev m = b"
    using at(6) by (cases L2) auto
  show ?thesis using at p p0 n lay_last_hdr[OF at(5)]
    by (cases "L1 = []") (auto simp: mem_link_valid_def)
qed

lemma free_lay:
  assumes wf: "heap_wf s (L1 @ (b, True) # L2)"
  shows "\<exists>s'. mem_free (Some (int b + 8)) s = Some s' \<and> heap_wf s' (a_free b (L1 @ (b, True) # L2))"
proof -
  note at = heap_wf_at[OF wf refl] and w = heap_wfD[OF wf]
  let ?n = "st L2 MEM_SIZE_ALIGNED"
  let ?lf = "if b < lfree s then b else lfree s"
  let ?s = "s\<lparr>hdrs := (hdrs s)(b \<mapsto> \<lparr>mnext = ?n, mprev = lastb 0 L1, mused = False\<rparr>), lfree := ?lf\<rparr>"
  have "?lf = st (dropWhile snd L1) b"
    using at(8) dropWhile_st_less[OF at(5), of b] dropWhile_st_const[of L1 b "st (dropWhile snd L2) MEM_SIZE_ALIGNED"]
      first_ge[OF at(6)] at(2)
    by (cases "\<forall>x\<in>set L1. snd x") (auto simp: dropWhile_used)
  then have "heap_pre ?s (L1 @ (b, False) # L2)"
    using lay_use[OF w(2) refl, of False] w(1,3) at
    by (auto simp: heap_pre_def st_append dropWhile_st_append)
  from plug_holes_pre[OF this] obtain s' where s': "plug_holes b ?s = Some s'"
    "heap_pre s' (if lastf False L1 then L1 @ drop_free L2 else L1 @ (b, False) # drop_free L2)" by blast
  have nf: "no_free_pair False L1" "no_free_pair False L2" using at(9,10) by auto
  have "a_free b (L1 @ (b, True) # L2) = coalesce (L1 @ (b, False) # L2)"
    using map_mark[OF w(2)] by (simp add: a_free_def)
  then have wf': "heap_wf s' (a_free b (L1 @ (b, True) # L2))"
    using s'(2) coalesce_freed[OF nf, of b] coalesce_nfp[of "L1 @ (b, False) # L2"]
    by (simp add: heap_wf_pre)
  have "(int b + 8) mod 4 = 0" using int_mod4[OF at(4)] .
  moreover have "nat (int b + 8 - int SIZEOF_STRUCT_MEM) = b" by (simp add: SIZEOF_STRUCT_MEM_def)
  moreover have "int b + 8 + int MIN_SIZE_ALIGNED \<le> int MEM_SIZE_ALIGNED" "0 \<le> int b + 8 - int SIZEOF_STRUCT_MEM"
    using at by (auto simp: mem_consts)
  ultimately have "mem_free (Some (int b + 8)) s = plug_holes b ?s"
    using at(1) link_valid_wf[OF wf] by (auto simp: mem_free_def set_used_def Let_def)
  then show ?thesis using s' wf' by simp
qed

section \<open>Shrinking\<close>

lemma a_trim_at:
  assumes "lay h p (L1 @ (b, u) # L2) e"
  shows "a_trim b sz (L1 @ (b, u) # L2) = L1 @ a_trim b sz ((b, u) # L2)"
proof -
  have "b \<notin> fst ` set L1" using lay_distinct[OF assms] by auto
  then show ?thesis by (induction L1) auto
qed

lemma blk_end_at:
  assumes "lay h p (L1 @ (b, u) # L2) e"
  shows "blk_end b (L1 @ (b, u) # L2) e = st L2 e"
proof -
  have "b \<notin> fst ` set L1" using lay_distinct[OF assms] by auto
  then show ?thesis by (induction L1) auto
qed

text \<open>
  The block of the remainder, moved or new: in both cases the headers are those of a split
  at the new size, in front of the blocks \<open>M\<close>.
\<close>

lemma trim_wf:
  assumes wf: "heap_wf s (L1 @ (b, True) # K @ M)" and K: "K = [] \<or> (\<exists>c. K = [(c, False)])"
    and n: "n = st M MEM_SIZE_ALIGNED" and nf: "no_free_pair True M"
    and sz: "12 \<le> sz" "sz mod 4 = 0" "b + 8 + sz < st (K @ M) MEM_SIZE_ALIGNED" "b + 8 + sz + 20 \<le> n"
    and lf: "lf = (if K = [] then min (b + 8 + sz) (lfree s)
      else if lfree s = st K n then b + 8 + sz else lfree s)"
  shows "heap_wf (s\<lparr>lfree := lf, hdrs := split_hdrs (lastb 0 L1) b (b + 8 + sz) n (hdrs s)\<rparr>)
    (L1 @ (b, True) # (b + 8 + sz, False) # M)"
proof -
  note at = heap_wf_at[OF wf refl] and w = heap_wfD[OF wf]
  let ?b2 = "b + 8 + sz"
  have b2: "?b2 mod 4 = 0" using at(4) sz(2) by (auto simp: mod4)
  obtain q where m: "lay (hdrs s) q M MEM_SIZE_ALIGNED" using at(6) by (auto simp: lay_append)
  have lay: "lay (split_hdrs (lastb 0 L1) b ?b2 n (hdrs s)) 0 (L1 @ (b, True) # (?b2, False) # M) MEM_SIZE_ALIGNED"
    using at b2 sz by (intro lay_split[OF at(5) m n]) auto
  have nM: "n \<le> MEM_SIZE_ALIGNED" using lay_le[OF m] n by simp
  have "split_hdrs (lastb 0 L1) b ?b2 n (hdrs s) MEM_SIZE_ALIGNED = hdrs s MEM_SIZE_ALIGNED"
    using at sz nM by (auto simp: split_hdrs_def)
  moreover have "lf = st (dropWhile snd L1) ?b2"
  proof (cases "\<forall>x\<in>set L1. snd x")
    case True
    then have "lfree s = st (dropWhile snd (K @ M)) MEM_SIZE_ALIGNED" using at(8) by (simp add: dropWhile_used)
    moreover have "?b2 < st (dropWhile snd M) MEM_SIZE_ALIGNED" using first_ge[OF m] n sz by simp
    ultimately show ?thesis using True K lf by (auto simp: dropWhile_used)
  next
    case False
    have lt: "lfree s < b" using at(8) dropWhile_st_less[OF at(5) False] by auto
    have eq: "lfree s = st (dropWhile snd L1) ?b2" using at(8) dropWhile_st_const[OF False] by auto
    have "b < st (K @ M) MEM_SIZE_ALIGNED" using at(2) by simp
    then show ?thesis using lt eq K lf by auto
  qed
  moreover have "no_free_pair False (L1 @ (b, True) # (?b2, False) # M)"
    using at(9,10) nf by (simp add: no_free_pair_append)
  ultimately show ?thesis using lay w(3) at(7)
    by (auto simp: heap_wf_def st_append dropWhile_st_append)
qed

lemma trim_size:
  assumes "b + 20 \<le> n" "n \<le> MEM_SIZE_ALIGNED"
  shows "usub (usub n b) SIZEOF_STRUCT_MEM mod 65536 = n - b - 8"
proof -
  have "usub n b = n - b" using assms by (intro usub_le) (auto simp: MEM_SIZE_ALIGNED_def)
  moreover have "usub (n - b) 8 = n - b - 8"
    using assms by (intro usub_le) (auto simp: MEM_SIZE_ALIGNED_def)
  ultimately show ?thesis using assms by (simp add: mem_consts)
qed

text \<open>The two branches of \<open>mem_trim\<close> that write to the heap write the same headers.\<close>

lemma trim_writes:
  assumes h: "hdrs s b = Some \<lparr>mnext = k, mprev = p, mused = True\<rparr>"
    and m: "lay (hdrs s) q M MEM_SIZE_ALIGNED" and n: "n = st M MEM_SIZE_ALIGNED"
    and b2: "b < b2" "b2 < n"
  shows "trim_insert b b2 n s = Some (s\<lparr>hdrs := split_hdrs p b b2 n (hdrs s)\<rparr>)"
proof -
  let ?g = "(hdrs s)(b2 \<mapsto> \<lparr>mnext = n, mprev = b, mused = False\<rparr>, b \<mapsto> \<lparr>mnext = b2, mprev = p, mused = True\<rparr>)"
  have "lay ?g q M MEM_SIZE_ALIGNED" using b2 n by (intro lay_upd m) auto
  note prev = set_prev_relink[where s = "s\<lparr>hdrs := ?g\<rparr>", simplified, OF this n, of b2]
  show ?thesis using h b2 prev by (simp add: trim_insert_def set_next_def Let_def split_hdrs_def)
qed

lemma trim_start:
  assumes h: "hdrs s b = Some \<lparr>mnext = n, mprev = p, mused = True\<rparr>" and n: "b + 20 \<le> n" "n \<le> MEM_SIZE_ALIGNED"
    and good: "\<not> size_bad k" and fits: "b2 \<le> n" and b2: "b2 = b + 8 + mem_size k"
  shows "mem_trim (int b + 8) k s =
    (if b2 = n then Some (Some (int b + 8), s)
     else do {
       mem2 \<leftarrow> hdrs s n;
       if \<not> mused mem2 then
         if n = MEM_SIZE_ALIGNED then None
         else map_option (Pair (Some (int b + 8)))
           (trim_insert b b2 (mnext mem2) (s\<lparr>lfree := if lfree s = n then b2 else lfree s\<rparr>))
       else if b2 + 20 \<le> n then
         if n = MEM_SIZE_ALIGNED then None
         else map_option (Pair (Some (int b + 8))) (trim_insert b b2 n (s\<lparr>lfree := min b2 (lfree s)\<rparr>))
       else Some (Some (int b + 8), s)
     })"
proof -
  let ?z = "mem_size k"
  have ptr: "nat (int b + 8 - int SIZEOF_STRUCT_MEM) = b"
    "\<not> (int b + 8 < 0 \<or> int b + 8 \<ge> int MEM_SIZE_ALIGNED \<or> int b + 8 < int SIZEOF_STRUCT_MEM)"
    "\<not> (?z > MEM_SIZE_ALIGNED \<or> ?z < k)" "(b + SIZEOF_STRUCT_MEM + ?z) mod 65536 = b2"
    using n fits good b2 by (auto simp: mem_consts size_bad_def)
  have cmp: "\<not> ?z > n - b - 8" "(?z = n - b - 8) = (b2 = n)"
    "(?z + SIZEOF_STRUCT_MEM + MIN_SIZE_ALIGNED \<le> n - b - 8) = (b2 + 20 \<le> n)"
    using n fits b2 by (auto simp: mem_consts)
  have lf: "(if b2 < lfree s then s\<lparr>lfree := b2\<rparr> else s) = s\<lparr>lfree := min b2 (lfree s)\<rparr>"
    "(if lfree s = n then s\<lparr>lfree := b2\<rparr> else s) = s\<lparr>lfree := if lfree s = n then b2 else lfree s\<rparr>"
    by auto
  have pair: "x \<bind> (\<lambda>s. Some (r, s)) = map_option (Pair r) x" for x :: "lwmem option" and r :: "int option"
    by (cases x) auto
  show ?thesis
    by (simp only: mem_trim_def Let_def ptr if_False if_True h Option.bind.simps pair trim_size[OF n]
      hdr.select_convs cmp lf)
qed

lemma trim_lay:
  assumes wf: "heap_wf s (L1 @ (b, True) # L2)" and n: "n = st L2 MEM_SIZE_ALIGNED"
    and good: "\<not> size_bad k" and fits: "b + 8 + mem_size k \<le> n"
    and last: "n = MEM_SIZE_ALIGNED \<Longrightarrow> n < b + 8 + mem_size k + 20"
  shows "\<exists>s'. mem_trim (int b + 8) k s = Some (Some (int b + 8), s') \<and>
    heap_wf s' (a_trim b (mem_size k) (L1 @ (b, True) # L2))"
proof -
  note at = heap_wf_at[OF wf n] and w = heap_wfD[OF wf]
  let ?z = "mem_size k" and ?b2 = "b + 8 + mem_size k"
  note start = trim_start[OF at(1-3) good fits refl]
  note eq = a_trim_at[OF w(2), of ?z]
  consider (same) "?b2 = n \<or> L2 = []" | (moved) c M where "?b2 \<noteq> n" "L2 = (c, False) # M"
    | (new) c M where "?b2 \<noteq> n" "L2 = (c, True) # M"
    by (cases L2 rule: drop_free.cases) auto
  then show ?thesis
  proof cases
    case same
    have "a_trim b ?z ((b, True) # L2) = (b, True) # L2" using same n by (cases L2) auto
    moreover have "mem_trim (int b + 8) k s = Some (Some (int b + 8), s)"
      using same start n last w(3) by auto
    ultimately show ?thesis using wf eq by simp
  next
    case moved
    then have h: "hdrs s c = Some \<lparr>mnext = st M MEM_SIZE_ALIGNED, mprev = b, mused = False\<rparr>"
      and m: "lay (hdrs s) c M MEM_SIZE_ALIGNED" and c: "n = c" "c + 20 \<le> st M MEM_SIZE_ALIGNED"
      and nf: "no_free_pair True M" and ce: "c \<noteq> MEM_SIZE_ALIGNED"
      using at n by (auto dest!: lay_le)
    let ?s = "s\<lparr>lfree := if lfree s = n then ?b2 else lfree s\<rparr>"
    have "mem_trim (int b + 8) k s = Some (Some (int b + 8),
        ?s\<lparr>hdrs := split_hdrs (lastb 0 L1) b ?b2 (st M MEM_SIZE_ALIGNED) (hdrs s)\<rparr>)"
      using start moved h c ce fits at(1) trim_writes[of ?s b n "lastb 0 L1" c M _ ?b2] m by auto
    moreover have "heap_wf (?s\<lparr>hdrs := split_hdrs (lastb 0 L1) b ?b2 (st M MEM_SIZE_ALIGNED) (hdrs s)\<rparr>)
        (L1 @ (b, True) # (?b2, False) # M)"
      using moved c fits by (intro trim_wf[where K = "[(c, False)]"] wf[unfolded moved, simplified] nf mem_size_props)
        (auto simp: wf[unfolded moved, simplified])
    ultimately show ?thesis using eq moved c by auto
  next
    case new
    then have h: "hdrs s c = Some \<lparr>mnext = st M MEM_SIZE_ALIGNED, mprev = b, mused = True\<rparr>"
      and c: "n = c" "c + 20 \<le> st M MEM_SIZE_ALIGNED" and nf: "no_free_pair True ((c, True) # M)"
      and ce: "c \<noteq> MEM_SIZE_ALIGNED"
      using at n by (auto dest!: lay_le)
    show ?thesis
    proof (cases "?b2 + 20 \<le> n")
      case False
      then have "mem_trim (int b + 8) k s = Some (Some (int b + 8), s)" using start h c new by auto
      moreover have "a_trim b ?z (L1 @ (b, True) # L2) = L1 @ (b, True) # L2" using eq new c False by simp
      ultimately show ?thesis using wf by simp
    next
      case True
      let ?s = "s\<lparr>lfree := min ?b2 (lfree s)\<rparr>"
      have "mem_trim (int b + 8) k s = Some (Some (int b + 8),
          ?s\<lparr>hdrs := split_hdrs (lastb 0 L1) b ?b2 n (hdrs s)\<rparr>)"
        using start new h c ce True at(1,6) n trim_writes[of ?s b n "lastb 0 L1" b L2 n ?b2] by auto
      moreover have "heap_wf (?s\<lparr>hdrs := split_hdrs (lastb 0 L1) b ?b2 n (hdrs s)\<rparr>)
          (L1 @ (b, True) # (?b2, False) # (c, True) # M)"
        using new c True by (intro trim_wf[where K = "[]"] nf mem_size_props) (auto simp: wf[unfolded new, simplified])
      ultimately show ?thesis using eq new c True by auto
    qed
  qed
qed

section \<open>The heap implements the list of blocks\<close>

lemma walk_lay:
  "lay h p L MEM_SIZE_ALIGNED \<Longrightarrow> length L \<le> k \<Longrightarrow> walk k h (st L MEM_SIZE_ALIGNED) = L"
proof (induction L arbitrary: p k)
  case Nil
  then show ?case by (cases k) auto
next
  case (Cons a L)
  obtain b u where a: "a = (b, u)" by (cases a)
  obtain j where k: "k = Suc j" using Cons.prems(2) by (cases k) auto
  have "b \<noteq> MEM_SIZE_ALIGNED" using Cons.prems(1) a by (auto dest: lay_le)
  then show ?case using Cons a k by auto
qed

definition heap_inv :: "lwmem \<Rightarrow> bool" where
  "heap_inv s \<longleftrightarrow> heap_wf s (heap_blocks s)"

lemma heap_blocks_wf: "heap_wf s L \<Longrightarrow> heap_blocks s = L"
proof -
  assume wf: "heap_wf s L"
  have "length L \<le> 800"
    using lay_length[OF heap_wfD(2)[OF wf]] by (simp add: MEM_SIZE_ALIGNED_def)
  then show ?thesis using walk_lay[OF heap_wfD(2)[OF wf], of 800] heap_wfD(1)[OF wf]
    by (simp add: heap_blocks_def)
qed

lemma heap_invI: "heap_wf s L \<Longrightarrow> heap_inv s"
  using heap_blocks_wf by (auto simp: heap_inv_def)

lemma init_wf: "heap_wf mem_init [(0, False)]"
  by (simp add: heap_wf_def mem_init_def mem_consts)

lemma allocatedD:
  assumes "allocated r L"
  shows "\<exists>b L1 L2. r = int b + 8 \<and> L = L1 @ (b, True) # L2"
proof -
  obtain L1 L2 where "L = L1 @ (nat (r - 8), True) # L2" "8 \<le> r"
    using assms by (auto simp: allocated_def dest: split_list)
  then show ?thesis by (intro exI[of _ "nat (r - 8)"] exI[of _ L1] exI[of _ L2]) simp
qed

lemma mem_step_simulation:
  assumes inv: "heap_inv s" and ok: "mem_ok op (heap_blocks s)"
  shows "\<exists>s'. mem_step op s = Some (fst (mem_astep op (heap_blocks s)), s') \<and>
    heap_blocks s' = snd (mem_astep op (heap_blocks s)) \<and> heap_inv s'"
proof (cases op)
  case (Malloc n)
  then show ?thesis using malloc_lay[OF inv[unfolded heap_inv_def], of n] heap_blocks_wf heap_invI
    by fastforce
next
  case (Free r)
  show ?thesis
  proof (cases r)
    case None
    then show ?thesis using Free inv by (simp add: mem_free_def)
  next
    case (Some r')
    obtain b L1 L2 where b: "r' = int b + 8" "heap_blocks s = L1 @ (b, True) # L2"
      using allocatedD ok Free Some by fastforce
    show ?thesis using free_lay[OF inv[unfolded heap_inv_def b(2)]] Free Some b heap_blocks_wf heap_invI
      by fastforce
  qed
next
  case (Trim r k)
  show ?thesis
  proof (cases "size_bad k")
    case True
    then show ?thesis using Trim inv by (auto simp: mem_trim_def size_bad_def Let_def)
  next
    case False
    obtain b L1 L2 where b: "r = int b + 8" "heap_blocks s = L1 @ (b, True) # L2"
      using allocatedD ok Trim False by fastforce
    note wf = inv[unfolded heap_inv_def b(2)]
    have "b + 8 + mem_size k \<le> st L2 MEM_SIZE_ALIGNED"
      "st L2 MEM_SIZE_ALIGNED = MEM_SIZE_ALIGNED \<Longrightarrow> st L2 MEM_SIZE_ALIGNED < b + 8 + mem_size k + 20"
      using ok Trim False b blk_end_at[OF heap_wfD(2)[OF wf]] heap_wf_at(2)[OF wf refl]
      by (auto simp: Let_def nat_add_distrib)
    from trim_lay[OF wf refl False this] show ?thesis
      using Trim False b heap_blocks_wf heap_invI by fastforce
  qed
qed

interpretation rmem: refinement heap_inv heap_blocks mem_ok mem_step mem_astep
  by unfold_locales (rule mem_step_simulation)

text \<open>
  C22: Every sequence of calls of \<open>mem_malloc\<close>, \<open>mem_free\<close> and \<open>mem_trim\<close> on a fresh heap runs to
  its end, returns what first-fit allocation and coalescing release on the list of blocks
  return, and leaves the headers of exactly those blocks, well linked, without two free blocks
  in a row and with \<open>lfree\<close> at the first free one. The sequence has to be in order on the list of
  blocks: only pointers to allocated blocks are freed and trimmed, a trim does not enlarge its
  block, and the last block of the heap is not trimmed by 20 bytes or more.
\<close>

theorem mem_refines_blocks:
  assumes "rmem.ok_run ops [(0, False)]"
  shows "\<exists>s'. rmem.run ops mem_init = Some (fst (rmem.arun ops [(0, False)]), s') \<and>
    heap_blocks s' = snd (rmem.arun ops [(0, False)]) \<and> heap_inv s'"
  using rmem.run_simulation[OF heap_invI[OF init_wf]] assms heap_blocks_wf[OF init_wf] by simp

lemma walk_numeral [simp]:
  "walk (numeral v) h p =
     (if p = MEM_SIZE_ALIGNED then []
      else case h p of None \<Rightarrow> [] | Some m \<Rightarrow> (p, mused m) # walk (pred_numeral v) h (mnext m))"
  by (simp add: numeral_eq_Suc)

lemmas eval_heap = mem_init_def mem_malloc_def mem_free_def mem_trim_def mem_size_def size_bad_def
  malloc_loop.simps malloc_take_def malloc_split_def malloc_adjust_def lfree_loop.simps usub_def
  plug_holes_def plug_forward_def plug_backward_def mem_link_valid_def trim_insert_def
  set_next_def set_prev_def set_used_def allocated_def heap_blocks_def mem_consts

theorem mem_refines_blocks_witness:
  "\<exists>s'. rmem.run [Malloc 10, Malloc 100, Free (Some 8), Trim 28 40, Malloc 1] mem_init =
       Some ([Some 8, Some 28, None, Some 28, Some 8], s') \<and>
     heap_blocks s' = [(0, True), (20, True), (68, False)] \<and> heap_inv s'"
proof -
  let ?ops = "[Malloc 10, Malloc 100, Free (Some 8), Trim 28 40, Malloc 1]"
  have "rmem.ok_run ?ops [(0, False)]"
    by (simp add: size_bad_def mem_size_def mem_consts a_free_def allocated_def)
  from mem_refines_blocks[OF this] show ?thesis
    by (simp add: size_bad_def mem_size_def mem_consts a_free_def)
qed

section \<open>Safety and completeness of allocation\<close>

lemma blk_end_append:
  "blk_end c (L1 @ X) e = (if c \<in> fst ` set L1 then blk_end c L1 (st X e) else blk_end c X e)"
  by (induction L1) (force simp: st_append)+

lemma blk_end_bounds: "lay h p L e \<Longrightarrow> (b, u) \<in> set L \<Longrightarrow> b + 20 \<le> blk_end b L e \<and> blk_end b L e \<le> e"
proof (induction L arbitrary: p)
  case (Cons a L)
  obtain c v where a: "a = (c, v)" by (cases a)
  show ?case
  proof (cases "b = c")
    case True
    then show ?thesis using Cons.prems a lay_le[of h c L e] by auto
  next
    case False
    then show ?thesis using Cons a by auto
  qed
qed simp

lemma blk_end_disjoint:
  "lay h p L e \<Longrightarrow> (b, u) \<in> set L \<Longrightarrow> (c, v) \<in> set L \<Longrightarrow> b < c \<Longrightarrow> blk_end b L e \<le> c"
proof (induction L arbitrary: p)
  case (Cons a L)
  obtain d w where a: "a = (d, w)" by (cases a)
  have l: "lay h d L e" "d < st L e" using Cons.prems(1) a by auto
  show ?case
  proof (cases "b = d")
    case True
    then show ?thesis using Cons.prems a lay_mem[OF l(1)] by auto
  next
    case False
    then have "(b, u) \<in> set L" using Cons.prems a by auto
    moreover have "c \<noteq> d" using Cons.prems(4) lay_mem[OF l(1) calculation] l(2) by auto
    ultimately show ?thesis using False Cons.IH[OF l(1)] Cons.prems a by auto
  qed
qed simp

text \<open>The bytes of the block behind a pointer, its header included, as offsets into \<open>ram\<close>.\<close>

definition footprint :: "int \<Rightarrow> lwmem \<Rightarrow> int set" where
  "footprint r s = {r - 8 ..< int (blk_end (nat (r - 8)) (heap_blocks s) MEM_SIZE_ALIGNED)}"

lemma footprint_disjoint:
  assumes wf: "heap_wf s L" and "(b, u) \<in> set L" "(c, v) \<in> set L" "b \<noteq> c"
  shows "footprint (int b + 8) s \<inter> footprint (int c + 8) s = {}"
  using blk_end_disjoint[OF heap_wfD(2)[OF wf] assms(2,3)] blk_end_disjoint[OF heap_wfD(2)[OF wf] assms(3,2)]
    assms(4) heap_blocks_wf[OF wf]
  by (cases "b < c") (fastforce simp: footprint_def)+

lemma malloc_SomeD:
  assumes inv: "heap_inv s" and r: "mem_malloc n s = Some (Some r, s')"
  shows "\<exists>b M. r = int b + 8 \<and> \<not> size_bad n \<and> heap_wf s' M \<and>
    a_alloc (mem_size n) (heap_blocks s) MEM_SIZE_ALIGNED = Some (b, M)"
  using malloc_lay[OF inv[unfolded heap_inv_def], of n] r
  by (auto split: if_splits option.splits)

lemma a_alloc_keeps:
  assumes al: "a_alloc sz L e = Some (b, M)" and lay: "lay h p L e" and c: "(c, True) \<in> set L"
  shows "(c, True) \<in> set M \<and> blk_end c M e = blk_end c L e \<and> c \<noteq> b"
proof -
  from a_alloc_SomeD[OF al] obtain L1 L2 where L: "L = L1 @ (b, False) # L2"
    "M = L1 @ (if b + 8 + sz + 20 \<le> st L2 e then (b, True) # (b + 8 + sz, False) # L2 else (b, True) # L2)"
    by blast
  have b: "b \<notin> fst ` set L1" "b \<notin> fst ` set L2" using lay_distinct[OF lay] L(1) by auto
  have c12: "(c, True) \<in> set L1 \<or> (c, True) \<in> set L2" using c L(1) by auto
  then have cb: "c \<noteq> b" using b by force
  have l2: "lay h b L2 e" using lay L(1) by (simp add: lay_append)
  show ?thesis
  proof (cases "c \<in> fst ` set L1")
    case True
    then show ?thesis using c12 cb L by (auto simp: blk_end_append)
  next
    case False
    then have "(c, True) \<in> set L2" using c12 by force
    then have "st L2 e \<le> c" using lay_mem[OF l2] by blast
    then show ?thesis using False c12 cb L by (auto simp: blk_end_append)
  qed
qed

lemma a_alloc_room:
  assumes al: "a_alloc sz L e = Some (b, M)" and lay: "lay h p L e"
  shows "(b, True) \<in> set M \<and> (b, True) \<notin> set L \<and> b + 8 + sz \<le> blk_end b M e"
proof -
  from a_alloc_SomeD[OF al] obtain L1 L2 where L: "L = L1 @ (b, False) # L2" "b + 8 + sz \<le> st L2 e"
    "M = L1 @ (if b + 8 + sz + 20 \<le> st L2 e then (b, True) # (b + 8 + sz, False) # L2 else (b, True) # L2)"
    by blast
  have b: "b \<notin> fst ` set L1" "b \<notin> fst ` set L2" using lay_distinct[OF lay] L(1) by auto
  then have "(b, True) \<notin> set L" using L(1) by force
  then show ?thesis using b L by (auto simp: blk_end_append)
qed

text \<open>
  C23: A block that \<open>mem_malloc\<close> returns is aligned, lies inside the heap and has room for the
  bytes asked for; it was not allocated before. Every block that was allocated stays allocated
  with the same bytes, and the new block shares no byte with it.
\<close>

theorem malloc_safe:
  assumes inv: "heap_inv s" and r: "mem_malloc n s = Some (Some r, s')"
  shows "heap_inv s' \<and> r mod 4 = 0 \<and> \<not> allocated r (heap_blocks s) \<and> allocated r (heap_blocks s') \<and>
    {r ..< r + int n} \<subseteq> footprint r s' \<and> footprint r s' \<subseteq> {0 ..< int MEM_SIZE_ALIGNED} \<and>
    (\<forall>q. allocated q (heap_blocks s) \<longrightarrow>
       allocated q (heap_blocks s') \<and> footprint q s' = footprint q s \<and> footprint q s \<inter> footprint r s' = {})"
proof -
  obtain b M where b: "r = int b + 8" "\<not> size_bad n" and wf': "heap_wf s' M"
    and al: "a_alloc (mem_size n) (heap_blocks s) MEM_SIZE_ALIGNED = Some (b, M)"
    using malloc_SomeD[OF inv r] by blast
  note lay = heap_wfD(2)[OF inv[unfolded heap_inv_def]] and lay' = heap_wfD(2)[OF wf']
  note M = heap_blocks_wf[OF wf'] and room = a_alloc_room[OF al lay]
  have bnd: "b mod 4 = 0" "blk_end b M MEM_SIZE_ALIGNED \<le> MEM_SIZE_ALIGNED"
    using room lay_mem[OF lay'] blk_end_bounds[OF lay'] by blast+
  have "r mod 4 = 0" using int_mod4[OF bnd(1)] b by simp
  moreover have "\<not> allocated r (heap_blocks s)" "allocated r (heap_blocks s')"
    using room b M by (auto simp: allocated_def)
  moreover have "{r ..< r + int n} \<subseteq> footprint r s'" "footprint r s' \<subseteq> {0 ..< int MEM_SIZE_ALIGNED}"
    using room b M bnd by (auto simp: footprint_def size_bad_def)
  moreover have "allocated q (heap_blocks s') \<and> footprint q s' = footprint q s \<and> footprint q s \<inter> footprint r s' = {}"
    if q: "allocated q (heap_blocks s)" for q
  proof -
    obtain c where c: "q = int c + 8" "(c, True) \<in> set (heap_blocks s)" using q allocatedD by fastforce
    note k = a_alloc_keeps[OF al lay c(2)]
    have "footprint q s' = footprint q s" using k c M by (simp add: footprint_def)
    moreover have "footprint q s' \<inter> footprint r s' = {}"
      using footprint_disjoint[OF wf'] k room b c by blast
    ultimately show ?thesis using k c M by (simp add: allocated_def)
  qed
  ultimately show ?thesis using heap_invI[OF wf'] by blast
qed

theorem malloc_safe_witness:
  "\<exists>s'. mem_malloc 100 mem_init = Some (Some 8, s') \<and> heap_inv s' \<and> {8 ..< 108} \<subseteq> footprint 8 s'"
proof -
  obtain s' where s': "mem_malloc 100 mem_init = Some (Some 8, s')" by (simp add: eval_heap)
  from malloc_safe[OF heap_invI[OF init_wf] s'] s' show ?thesis by simp
qed

lemma a_alloc_find:
  assumes "lay h p L e"
  shows "map_option fst (a_alloc sz L e) = map_option fst (find (\<lambda>(b, u). \<not> u \<and> b + 8 + sz \<le> blk_end b L e) L)"
  using assms
proof (induction L arbitrary: p)
  case (Cons a L)
  obtain c v where a: "a = (c, v)" by (cases a)
  have l: "lay h c L e" and nin: "c \<notin> fst ` set L" using Cons.prems a lay_distinct[OF Cons.prems] by auto
  define P where "P = (\<lambda>L (b, u). \<not> u \<and> b + 8 + sz \<le> blk_end b L e)"
  have "find (P (a # L)) L = find (P L) L"
    using a nin by (intro find_cong) (force simp: P_def)+
  moreover have "map_option fst (a_alloc sz L e) = map_option fst (find (P L) L)"
    using Cons.IH[OF l] by (simp add: P_def)
  moreover have "P (a # L) a \<longleftrightarrow> \<not> v \<and> c + 8 + sz \<le> st L e" using a by (simp add: P_def)
  ultimately have "map_option fst (a_alloc sz (a # L) e) = map_option fst (find (P (a # L)) (a # L))"
    using a by (simp add: option.map_comp comp_def case_prod_beta)
  then show ?case by (simp only: P_def)
qed simp

text \<open>
  C24: \<open>mem_malloc\<close> always returns on a well-formed heap, and it answers with the null pointer
  only if it must: for zero bytes, for a size whose rounding leaves 16 bits or exceeds the heap,
  and if every free block is too small for the rounded size; the heap is then unchanged. In all
  other cases it answers with a pointer to one of the free blocks that are large enough, the
  first one.
\<close>

theorem malloc_complete:
  assumes inv: "heap_inv s"
  shows "\<exists>r s'. mem_malloc n s = Some (r, s') \<and> heap_inv s' \<and>
    (if n = 0 \<or> size_bad n then r = None \<and> s' = s
     else case find (\<lambda>(b, u). \<not> u \<and> b + 8 + mem_size n \<le> blk_end b (heap_blocks s) MEM_SIZE_ALIGNED) (heap_blocks s) of
         None \<Rightarrow> r = None \<and> s' = s
       | Some (b, u) \<Rightarrow> r = Some (int b + 8))"
proof -
  note wf = inv[unfolded heap_inv_def]
  obtain s' where s': "mem_malloc n s = Some (fst (mem_astep (Malloc n) (heap_blocks s)), s')" "heap_inv s'"
    using malloc_lay[OF wf, of n] heap_invI by blast
  have "s' = s" if "n = 0 \<or> size_bad n"
    using s' that by (auto simp: mem_malloc_def size_bad_def Let_def split: if_splits)
  moreover have "s' = s" if "\<not> (n = 0 \<or> size_bad n)" "a_alloc (mem_size n) (heap_blocks s) MEM_SIZE_ALIGNED = None"
    using s' that malloc_start[OF wf, of n] by simp
  ultimately show ?thesis using s' a_alloc_find[OF heap_wfD(2)[OF wf], of "mem_size n"]
    by (auto split: option.splits prod.splits)
qed

theorem malloc_complete_witness:
  "mem_malloc 15993 mem_init = Some (None, mem_init) \<and> (\<exists>s. mem_malloc 15992 mem_init = Some (Some 8, s))"
proof -
  have b: "heap_blocks mem_init = [(0, False)]" by (rule heap_blocks_wf[OF init_wf])
  show ?thesis
    using malloc_complete[OF heap_invI[OF init_wf], of 15993] malloc_complete[OF heap_invI[OF init_wf], of 15992]
    by (auto simp: b size_bad_def mem_size_def mem_consts)
qed

text \<open>
  C25: Trimming the last block of the heap by 20 bytes or more never returns: the new free block
  would end at the end of the heap, and the code asserts that the trimmed block is not the last.
\<close>

theorem trim_last_hangs:
  assumes inv: "heap_inv s" and r: "allocated r (heap_blocks s)"
    and last: "footprint r s = {r - 8 ..< int MEM_SIZE_ALIGNED}"
    and k: "r + int (mem_size k) + 20 \<le> int MEM_SIZE_ALIGNED" "\<not> size_bad k"
  shows "mem_trim r k s = None"
proof -
  obtain b L1 L2 where b: "r = int b + 8" "heap_blocks s = L1 @ (b, True) # L2"
    using allocatedD[OF r] by blast
  note wf = inv[unfolded heap_inv_def b(2)]
  note at = heap_wf_at[OF wf refl] and w = heap_wfD[OF wf]
  have "{int b ..< int (st L2 MEM_SIZE_ALIGNED)} = {int b ..< int MEM_SIZE_ALIGNED}"
    using last b blk_end_at[OF w(2)] by (simp add: footprint_def)
  then have n: "st L2 MEM_SIZE_ALIGNED = MEM_SIZE_ALIGNED"
    using at(2,3) by (simp add: atLeastLessThan_eq_iff)
  show ?thesis
    using trim_start[OF at(1-3) k(2) _ refl] n w(3) k(1) b by simp
qed

theorem trim_last_hangs_witness:
  "\<exists>s. mem_malloc 15992 mem_init = Some (Some 8, s) \<and> mem_trim 8 100 s = None"
proof -
  obtain s where s: "mem_malloc 15992 mem_init = Some (Some 8, s)" "heap_blocks s = [(0, True)]"
    using malloc_lay[OF init_wf, of 15992] heap_blocks_wf
    by (fastforce simp: size_bad_def mem_size_def mem_consts)
  have "heap_inv s" using malloc_lay[OF init_wf, of 15992] s(1) heap_invI by auto
  from trim_last_hangs[OF this, of 8 100] s show ?thesis
    by (simp add: allocated_def footprint_def size_bad_def mem_size_def mem_consts)
qed

end
