(* ===== verification/Digest.thy ===== *)
theory Digest
  imports Prelude
begin

text \<open>
  What the three hash functions of \<open>src/src/lwip/netif/ppp/polarssl\<close> share. \<open>md4.c\<close>, \<open>md5.c\<close>
  and \<open>sha1.c\<close> have the same context, the same buffering in their \<open>update\<close> functions and the
  same padding in their \<open>finish\<close> functions; they differ in the compression function and in
  the byte order. \<open>hash_update\<close> and \<open>hash_finish\<close> take the compression function as an
  argument, the theories \<open>Md4\<close>, \<open>Md5\<close> and \<open>Sha1\<close> supply it.

  The reference is the padded message cut into 64-byte blocks and folded through the
  compression function (\<open>hash_ref\<close>); the locale \<open>md_hash\<close> shows that feeding a message in
  pieces of any sizes computes it. \<open>unsigned long\<close> has 32 bits on the target.
\<close>

section \<open>The context and the buffering\<close>

record hash_ctx =
  total0 :: u32
  total1 :: u32
  hstate :: "u32 list"
  hbuffer :: bytes

text \<open>The rotation macro \<open>S(x,n)\<close> and the macros that read and write words.\<close>

definition S_rot :: "u32 \<Rightarrow> nat \<Rightarrow> u32" where
  "S_rot x n = push_bit n x OR drop_bit (32 - n) (x AND 0xFFFFFFFF)"

definition GET_ULONG_LE :: "bytes \<Rightarrow> nat \<Rightarrow> u32" where
  "GET_ULONG_LE b i = ucast (b ! i) OR push_bit 8 (ucast (b ! (i + 1))) OR
     push_bit 16 (ucast (b ! (i + 2))) OR push_bit 24 (ucast (b ! (i + 3)))"

definition PUT_ULONG_LE :: "u32 \<Rightarrow> bytes" where
  "PUT_ULONG_LE n = [ucast n, ucast (drop_bit 8 n), ucast (drop_bit 16 n), ucast (drop_bit 24 n)]"

definition GET_ULONG_BE :: "bytes \<Rightarrow> nat \<Rightarrow> u32" where
  "GET_ULONG_BE b i = push_bit 24 (ucast (b ! i)) OR push_bit 16 (ucast (b ! (i + 1))) OR
     push_bit 8 (ucast (b ! (i + 2))) OR ucast (b ! (i + 3))"

definition PUT_ULONG_BE :: "u32 \<Rightarrow> bytes" where
  "PUT_ULONG_BE n = [ucast (drop_bit 24 n), ucast (drop_bit 16 n), ucast (drop_bit 8 n), ucast n]"

text \<open>\<open>MEMCPY\<close> of \<open>xs\<close> to offset \<open>i\<close> of a buffer.\<close>

definition overwrite :: "bytes \<Rightarrow> nat \<Rightarrow> bytes \<Rightarrow> bytes" where
  "overwrite buf i xs = take i buf @ xs @ drop (i + length xs) buf"

text \<open>The loop over whole blocks of the input.\<close>

function process_blocks :: "(u32 list \<Rightarrow> bytes \<Rightarrow> u32 list) \<Rightarrow> u32 list \<Rightarrow> bytes \<Rightarrow> u32 list \<times> bytes" where
  "process_blocks proc st input =
     (if 64 \<le> length input then process_blocks proc (proc st (take 64 input)) (drop 64 input)
      else (st, input))"
  by auto
termination by (relation "measure (\<lambda>(_, _, input). length input)") auto

declare process_blocks.simps [simp del]

text \<open>The count of bytes, and the bytes given to the buffer and the compression function.\<close>

definition hash_count :: "hash_ctx \<Rightarrow> int \<Rightarrow> hash_ctx" where
  "hash_count ctx ilen =
     (let t0 = total0 ctx + word_of_int ilen in
      ctx\<lparr>total0 := t0, total1 := if t0 < word_of_int ilen then total1 ctx + 1 else total1 ctx\<rparr>)"

definition hash_absorb :: "(u32 list \<Rightarrow> bytes \<Rightarrow> u32 list) \<Rightarrow> nat \<Rightarrow> bytes \<Rightarrow> hash_ctx \<Rightarrow> hash_ctx" where
  "hash_absorb proc left input ctx =
     (let fill = 64 - left;
          (ctx, input, left) =
            (if left \<noteq> 0 \<and> fill \<le> length input
             then let buf = overwrite (hbuffer ctx) left (take fill input) in
               (ctx\<lparr>hbuffer := buf, hstate := proc (hstate ctx) buf\<rparr>, drop fill input, 0)
             else (ctx, input, left));
          (st, input) = process_blocks proc (hstate ctx) input;
          ctx = ctx\<lparr>hstate := st\<rparr>
      in if input \<noteq> [] then ctx\<lparr>hbuffer := overwrite (hbuffer ctx) left input\<rparr> else ctx)"

text \<open>\<open>None\<close> when fewer than \<open>ilen\<close> bytes are behind the pointer.\<close>

definition hash_update :: "(u32 list \<Rightarrow> bytes \<Rightarrow> u32 list) \<Rightarrow> hash_ctx \<Rightarrow> bytes \<Rightarrow> int \<Rightarrow> hash_ctx option" where
  "hash_update proc ctx input ilen =
     (if ilen \<le> 0 then Some ctx
      else if int (length input) < ilen then None
      else Some (hash_absorb proc (unat (total0 ctx AND 0x3F)) (take (nat ilen) input) (hash_count ctx ilen)))"

definition hash_padding :: bytes where
  "hash_padding = 0x80 # replicate 63 0"

definition hash_finish ::
  "(u32 list \<Rightarrow> bytes \<Rightarrow> u32 list) \<Rightarrow> (u32 \<Rightarrow> u32 \<Rightarrow> bytes) \<Rightarrow> hash_ctx \<Rightarrow> hash_ctx option" where
  "hash_finish proc msglen ctx = do {
     let high = drop_bit 29 (total0 ctx) OR push_bit 3 (total1 ctx);
     let low = push_bit 3 (total0 ctx);
     let last = total0 ctx AND 0x3F;
     let padn = (if last < 56 then 56 - last else 120 - last);
     ctx \<leftarrow> hash_update proc ctx hash_padding (uint padn);
     hash_update proc ctx (msglen high low) 8
   }"

section \<open>The reference\<close>

function chunks :: "bytes \<Rightarrow> bytes list" where
  "chunks xs = (if 64 \<le> length xs then take 64 xs # chunks (drop 64 xs) else [])"
  by auto
termination by (relation "measure length") auto

function rest :: "bytes \<Rightarrow> bytes" where
  "rest xs = (if 64 \<le> length xs then rest (drop 64 xs) else xs)"
  by auto
termination by (relation "measure length") auto

declare chunks.simps [simp del] rest.simps [simp del]

text \<open>
  The padding: a one bit, zeroes up to eight bytes before the end of a block, and the length
  of the message in bits as a 64-bit number, given as its upper and lower word.
\<close>

definition hash_pad :: "(u32 \<Rightarrow> u32 \<Rightarrow> bytes) \<Rightarrow> nat \<Rightarrow> bytes" where
  "hash_pad msglen n = 0x80 # replicate (if n mod 64 < 56 then 55 - n mod 64 else 119 - n mod 64) 0 @
     msglen (of_nat (8 * n div 2 ^ 32)) (of_nat (8 * n))"

definition hash_ref ::
  "(u32 list \<Rightarrow> bytes \<Rightarrow> u32 list) \<Rightarrow> (u32 \<Rightarrow> u32 \<Rightarrow> bytes) \<Rightarrow> u32 list \<Rightarrow> bytes \<Rightarrow> u32 list" where
  "hash_ref proc msglen iv msg = foldl proc iv (chunks (msg @ hash_pad msglen (length msg)))"

lemma chunks_short [simp]: "length xs < 64 \<Longrightarrow> chunks xs = []"
  by (subst chunks.simps) simp

lemma rest_short [simp]: "length xs < 64 \<Longrightarrow> rest xs = xs"
  by (subst rest.simps) simp

lemma process_blocks_eq: "process_blocks proc st xs = (foldl proc st (chunks xs), rest xs)"
proof (induction xs arbitrary: st rule: chunks.induct)
  case (1 xs)
  then show ?case
    by (subst process_blocks.simps, subst chunks.simps, subst rest.simps) simp
qed

lemma length_rest: "length (rest xs) = length xs mod 64"
proof (induction xs rule: rest.induct)
  case (1 xs)
  then show ?case by (subst rest.simps) (simp add: le_mod_geq)
qed

lemma chunks_append: "chunks (m @ x) = chunks m @ chunks (rest m @ x)"
proof (induction m rule: chunks.induct)
  case (1 m)
  show ?case
  proof (cases "64 \<le> length m")
    case True
    have "chunks (m @ x) = take 64 m # chunks (drop 64 m @ x)"
      using True by (subst chunks.simps) simp
    also have "\<dots> = take 64 m # chunks (drop 64 m) @ chunks (rest (drop 64 m) @ x)"
      using 1 True by simp
    also have "rest (drop 64 m) = rest m" using True by (subst (2) rest.simps) simp
    also have "take 64 m # chunks (drop 64 m) @ chunks (rest m @ x) = chunks m @ chunks (rest m @ x)"
      using True by (subst (3) chunks.simps) simp
    finally show ?thesis .
  qed simp
qed

lemma rest_append: "rest (m @ x) = rest (rest m @ x)"
proof (induction m rule: rest.induct)
  case (1 m)
  show ?case
  proof (cases "64 \<le> length m")
    case True
    have "rest (m @ x) = rest (drop 64 m @ x)" using True by (subst rest.simps) simp
    also have "\<dots> = rest (rest (drop 64 m) @ x)" using 1 True by simp
    also have "rest (drop 64 m) = rest m" using True by (subst (2) rest.simps) simp
    finally show ?thesis .
  qed simp
qed

section \<open>Feeding a message in pieces\<close>

text \<open>The context represents the message \<open>m\<close> that has been fed so far.\<close>

definition hash_rep :: "(u32 list \<Rightarrow> bytes \<Rightarrow> u32 list) \<Rightarrow> u32 list \<Rightarrow> hash_ctx \<Rightarrow> bytes \<Rightarrow> bool" where
  "hash_rep proc iv ctx m \<longleftrightarrow> hstate ctx = foldl proc iv (chunks m) \<and> length (hbuffer ctx) = 64 \<and>
     take (length m mod 64) (hbuffer ctx) = rest m \<and>
     total0 ctx = of_nat (length m) \<and> total1 ctx = of_nat (length m div 2 ^ 32)"

lemma unat_and_3f: "unat (of_nat n AND 0x3F :: u32) = n mod 64"
proof -
  have "(of_nat n AND 0x3F :: u32) = take_bit 6 (of_nat n)"
    by (simp add: take_bit_eq_mask mask_eq_decr_exp)
  then have "unat (of_nat n AND 0x3F :: u32) = take_bit 6 (unat (of_nat n :: u32))"
    by (simp add: unsigned_take_bit_eq)
  also have "\<dots> = take_bit 6 n" by (simp add: unsigned_of_nat take_bit_take_bit)
  finally show ?thesis by (simp add: take_bit_eq_mod)
qed

lemma unat_of_nat_u32: "unat (of_nat n :: u32) = n mod 2 ^ 32"
  by (simp add: unsigned_of_nat take_bit_eq_mod)

lemma add_carry_nat:
  fixes k n :: nat
  assumes "n < 2 ^ 32"
  shows "((k + n) mod 2 ^ 32 < n) = (2 ^ 32 \<le> k mod 2 ^ 32 + n)"
    "(k + n) div 2 ^ 32 = k div 2 ^ 32 + (if 2 ^ 32 \<le> k mod 2 ^ 32 + n then 1 else 0)"
proof -
  define q r where "q = k div 2 ^ 32" and "r = k mod 2 ^ 32"
  have k: "k = 2 ^ 32 * q + r" and r: "r < 2 ^ 32" by (simp_all add: q_def r_def)
  have kn: "k + n = (r + n) + 2 ^ 32 * q" using k by simp
  have "(k + n) mod 2 ^ 32 = (r + n) mod 2 ^ 32" "(k + n) div 2 ^ 32 = q + (r + n) div 2 ^ 32"
    by (simp_all only: kn mod_mult_self2 div_mult_self2 power_not_zero zero_neq_numeral[symmetric] not_False_eq_True add.commute)
  moreover have "(r + n) div 2 ^ 32 = (if 2 ^ 32 \<le> r + n then 1 else 0)"
    "(r + n) mod 2 ^ 32 = (if 2 ^ 32 \<le> r + n then r + n - 2 ^ 32 else r + n)"
    using r assms by (auto simp: div_if mod_if)
  ultimately show "((k + n) mod 2 ^ 32 < n) = (2 ^ 32 \<le> k mod 2 ^ 32 + n)"
    "(k + n) div 2 ^ 32 = k div 2 ^ 32 + (if 2 ^ 32 \<le> k mod 2 ^ 32 + n then 1 else 0)"
    unfolding q_def[symmetric] r_def[symmetric] using r assms by auto
qed

lemma carry_total:
  assumes "n < 2 ^ 32"
  shows "(if (of_nat k + of_nat n :: u32) < of_nat n then of_nat (k div 2 ^ 32) + 1 else of_nat (k div 2 ^ 32)) =
    (of_nat ((k + n) div 2 ^ 32) :: u32)"
proof -
  have "((of_nat k + of_nat n :: u32) < of_nat n) = ((k + n) mod 2 ^ 32 < n)"
    using assms by (simp add: word_less_nat_alt unat_of_nat_u32 flip: of_nat_add)
  then show ?thesis using add_carry_nat[OF assms, of k] by simp
qed

lemma overwrite_end: "take (i + length xs) (overwrite b i xs) = take i b @ xs" if "i \<le> length b"
  using that by (simp add: overwrite_def)

lemma length_overwrite [simp]: "i + length xs \<le> length b \<Longrightarrow> length (overwrite b i xs) = length b"
  by (simp add: overwrite_def)

lemma chunks_full:
  "length a = 64 \<Longrightarrow> chunks (a @ x) = a # chunks x"
  "length a = 64 \<Longrightarrow> rest (a @ x) = rest x"
  by (subst chunks.simps, simp) (subst rest.simps, simp)

lemma hash_absorb_totals [simp]:
  "total0 (hash_absorb proc left x ctx) = total0 ctx" "total1 (hash_absorb proc left x ctx) = total1 ctx"
  by (simp_all add: hash_absorb_def process_blocks_eq Let_def)

lemma hash_absorb_data:
  assumes r: "take left (hbuffer ctx) = r" "length (hbuffer ctx) = 64" "left < 64"
  shows "hstate (hash_absorb proc left x ctx) = foldl proc (hstate ctx) (chunks (r @ x)) \<and>
    length (hbuffer (hash_absorb proc left x ctx)) = 64 \<and>
    take (length (rest (r @ x))) (hbuffer (hash_absorb proc left x ctx)) = rest (r @ x)"
proof -
  have lr: "length r = left" using r by auto
  have put: "length (overwrite b 0 (rest z)) = 64 \<and> take (length (rest z)) (overwrite b 0 (rest z)) = rest z"
    if "length b = 64" for b z
  proof -
    have "length (rest z) \<le> 64" by (simp add: length_rest)
    then show ?thesis using that overwrite_end[of 0 b "rest z"] by simp
  qed
  consider (fill) "left \<noteq> 0" "64 - left \<le> length x" | (whole) "left = 0" | (short) "left \<noteq> 0" "length x < 64 - left"
    by linarith
  then show ?thesis
  proof cases
    case fill
    define a z where "a = r @ take (64 - left) x" and "z = drop (64 - left) x"
    have ax: "r @ x = a @ z" and la: "length a = 64" using fill lr r(3) by (simp_all add: a_def z_def)
    have buf: "overwrite (hbuffer ctx) left (take (64 - left) x) = a"
      using fill r by (simp add: overwrite_def a_def)
    show ?thesis
      using fill buf la put[OF la, of z] chunks_full[OF la, of z]
      by (simp add: hash_absorb_def process_blocks_eq Let_def ax z_def)
  next
    case whole
    then have "r = []" using lr by simp
    then show ?thesis using whole put[OF r(2), of x] r(2)
      by (auto simp: hash_absorb_def process_blocks_eq Let_def)
  next
    case short
    then have sx: "length x < 64" "length (r @ x) < 64" using lr r(3) by auto
    have "take (left + length x) (overwrite (hbuffer ctx) left x) = r @ x"
      using overwrite_end[of left "hbuffer ctx" x] r by simp
    moreover have "length (overwrite (hbuffer ctx) left x) = 64" using sx(2) lr r(2) by simp
    ultimately show ?thesis using short sx lr r
      by (auto simp: hash_absorb_def process_blocks_eq Let_def)
  qed
qed

lemma hash_update_rep:
  assumes rep: "hash_rep proc iv ctx m" and x: "length x < 2 ^ 31"
  shows "\<exists>ctx'. hash_update proc ctx (x @ y) (int (length x)) = Some ctx' \<and> hash_rep proc iv ctx' (m @ x)"
proof (cases "x = []")
  case True
  then show ?thesis using rep by (simp add: hash_update_def)
next
  case False
  define left where "left = length m mod 64"
  let ?c = "hash_count ctx (int (length x))"
  let ?c' = "hash_absorb proc left x ?c"
  have R: "hstate ctx = foldl proc iv (chunks m)" "length (hbuffer ctx) = 64" "take left (hbuffer ctx) = rest m"
    "total0 ctx = of_nat (length m)" "total1 ctx = of_nat (length m div 2 ^ 32)"
    using rep by (auto simp: hash_rep_def left_def)
  have "unat (total0 ctx AND 0x3F) = left" using R(4) unat_and_3f by (simp add: left_def)
  then have up: "hash_update proc ctx (x @ y) (int (length x)) = Some ?c'"
    using False by (simp add: hash_update_def)
  have "total1 ?c = (if total0 ctx + of_nat (length x) < of_nat (length x) then total1 ctx + 1 else total1 ctx)"
    by (simp add: hash_count_def Let_def)
  also have "\<dots> = of_nat ((length m + length x) div 2 ^ 32)"
    unfolding R(4,5) by (rule carry_total) (use x in simp)
  finally have c: "total1 ?c = of_nat (length (m @ x) div 2 ^ 32)" "total0 ?c = of_nat (length (m @ x))"
    "hstate ?c = hstate ctx" "hbuffer ?c = hbuffer ctx"
    using R(4) by (simp_all add: hash_count_def Let_def)
  have left: "left < 64" by (simp add: left_def)
  have "length (rest (rest m @ x)) = length (m @ x) mod 64"
    using length_rest[of "m @ x"] rest_append[of m x] by simp
  then have "hash_rep proc iv ?c' (m @ x)"
    using hash_absorb_data[of left ?c "rest m" proc x, OF _ _ left] c R
    by (simp add: hash_rep_def chunks_append[of m x] rest_append[of m x])
  then show ?thesis using up by blast
qed

fun hash_updates :: "(u32 list \<Rightarrow> bytes \<Rightarrow> u32 list) \<Rightarrow> hash_ctx \<Rightarrow> bytes list \<Rightarrow> hash_ctx option" where
  "hash_updates proc ctx [] = Some ctx"
| "hash_updates proc ctx (x # xs) = hash_update proc ctx x (int (length x)) \<bind> (\<lambda>ctx. hash_updates proc ctx xs)"

lemma hash_updates_rep:
  assumes "hash_rep proc iv ctx m" "\<forall>x\<in>set xs. length x < 2 ^ 31"
  shows "\<exists>ctx'. hash_updates proc ctx xs = Some ctx' \<and> hash_rep proc iv ctx' (m @ concat xs)"
  using assms
proof (induction xs arbitrary: ctx m)
  case (Cons x xs)
  obtain c where "hash_update proc ctx x (int (length x)) = Some c" "hash_rep proc iv c (m @ x)"
    using hash_update_rep[OF Cons.prems(1), of x "[]"] Cons.prems(2) by auto
  with Cons.IH[of c "m @ x"] Cons.prems(2) show ?case by auto
qed simp

lemma length_bits:
  "drop_bit 29 (of_nat n) OR push_bit 3 (of_nat (n div 2 ^ 32)) = (of_nat (8 * n div 2 ^ 32) :: u32)"
  "push_bit 3 (of_nat n) = (of_nat (8 * n) :: u32)"
proof -
  have n8: "8 * n = push_bit 3 n" by (simp add: push_bit_eq_mult)
  have d: "n div 2 ^ 32 = drop_bit 32 n" "8 * n div 2 ^ 32 = drop_bit 32 (push_bit 3 n)"
    by (simp_all add: drop_bit_eq_div push_bit_eq_mult)
  show "drop_bit 29 (of_nat n) OR push_bit 3 (of_nat (n div 2 ^ 32)) = (of_nat (8 * n div 2 ^ 32) :: u32)"
  proof (rule bit_word_eqI)
    fix i assume "i < LENGTH(32)"
    then have i: "i < 32" by simp
    show "bit (drop_bit 29 (of_nat n) OR push_bit 3 (of_nat (n div 2 ^ 32)) :: u32) i =
      bit (of_nat (8 * n div 2 ^ 32) :: u32) i"
    proof (cases "i < 3")
      case True
      then show ?thesis unfolding d
        by (simp add: bit_or_iff bit_drop_bit_eq bit_push_bit_iff bit_of_nat_iff add.commute)
    next
      case False
      then have "32 + (i - 3) = 29 + i" by simp
      then show ?thesis unfolding d using False i
        by (auto simp: bit_or_iff bit_drop_bit_eq bit_push_bit_iff bit_of_nat_iff add.commute)
    qed
  qed
  show "push_bit 3 (of_nat n) = (of_nat (8 * n) :: u32)" by (simp add: push_bit_eq_mult)
qed

lemma hash_finish_rep:
  assumes rep: "hash_rep proc iv ctx m" and len: "\<And>h l. length (msglen h l) = 8"
  shows "\<exists>ctx'. hash_finish proc msglen ctx = Some ctx' \<and> hstate ctx' = hash_ref proc msglen iv m"
proof -
  define l where "l = length m mod 64"
  define z where "z = (if l < 56 then 55 - l else 119 - l)"
  have T: "total0 ctx = of_nat (length m)" "total1 ctx = of_nat (length m div 2 ^ 32)"
    using rep by (auto simp: hash_rep_def)
  let ?last = "total0 ctx AND 0x3F" and ?pad = "0x80 # replicate z (0 :: u8)"
  have last: "unat ?last = l" and l: "l < 64" using T unat_and_3f by (simp_all add: l_def)
  have z63: "z \<le> 63" using l by (auto simp: z_def)
  have "unat (if ?last < 56 then 56 - ?last else 120 - ?last) = Suc z"
    using last l by (auto simp: z_def word_less_nat_alt unat_sub word_le_nat_alt)
  then have padn: "uint (if ?last < 56 then 56 - ?last else 120 - ?last) = int (length ?pad)"
    by (simp only: uint_nat) simp
  have pad: "hash_padding = ?pad @ replicate (63 - z) 0"
    using l by (simp add: hash_padding_def z_def flip: replicate_add)
  obtain c1 where c1: "hash_update proc ctx hash_padding (int (length ?pad)) = Some c1" "hash_rep proc iv c1 (m @ ?pad)"
    using hash_update_rep[OF rep, of ?pad "replicate (63 - z) 0"] pad z63 by auto
  let ?len = "msglen (of_nat (8 * length m div 2 ^ 32)) (of_nat (8 * length m))"
  obtain c2 where c2: "hash_update proc c1 ?len 8 = Some c2" "hash_rep proc iv c2 ((m @ ?pad) @ ?len)"
    using hash_update_rep[OF c1(2), of ?len "[]"] len by auto
  have "hash_finish proc msglen ctx = Some c2"
    unfolding hash_finish_def Let_def unfolding padn unfolding c1(1) T length_bits(1) unfolding length_bits(2)
    using c2(1) by simp
  moreover have "hstate c2 = hash_ref proc msglen iv m"
    using c2(2) by (simp add: hash_rep_def hash_ref_def hash_pad_def l_def z_def)
  ultimately show ?thesis by blast
qed

text \<open>
  What a hash function has to provide: a compression function, its initial state, and an
  encoding of the bit length in eight bytes. A message fed in pieces of any sizes then gives
  the reference value, and so do two ways of cutting the same message.
\<close>

locale md_hash =
  fixes proc :: "u32 list \<Rightarrow> bytes \<Rightarrow> u32 list"
    and msglen :: "u32 \<Rightarrow> u32 \<Rightarrow> bytes"
    and iv :: "u32 list"
  assumes length_msglen: "length (msglen h l) = 8"
begin

definition start :: "hash_ctx \<Rightarrow> hash_ctx" where
  "start ctx = ctx\<lparr>total0 := 0, total1 := 0, hstate := iv\<rparr>"

lemma stream:
  assumes "length (hbuffer ctx) = 64" "\<forall>x\<in>set xs. length x < 2 ^ 31"
  shows "\<exists>ctx'. hash_updates proc (start ctx) xs \<bind> hash_finish proc msglen = Some ctx' \<and>
    hstate ctx' = hash_ref proc msglen iv (concat xs)"
proof -
  have "hash_rep proc iv (start ctx) []" using assms(1) by (simp add: start_def hash_rep_def)
  from hash_updates_rep[OF this assms(2)]
  obtain c where c: "hash_updates proc (start ctx) xs = Some c" "hash_rep proc iv c (concat xs)" by auto
  from hash_finish_rep[OF c(2) length_msglen] c(1) show ?thesis by auto
qed

end

end
