(* ===== verification/Md4.thy ===== *)
theory Md4
  imports Digest
begin

text \<open>
  MD4, \<open>src/src/lwip/netif/ppp/polarssl/md4.c\<close>: the tables of the three rounds, the compression function and
  the functions over it, which share their buffering with the other hashes (\<open>Digest\<close>).
\<close>

section \<open>The hash function\<close>

definition md4_ops1 :: "(nat \<times> nat) list" where
  "md4_ops1 = [(0, 3), (1, 7), (2, 11), (3, 19), (4, 3), (5, 7), (6, 11), (7, 19),
     (8, 3), (9, 7), (10, 11), (11, 19), (12, 3), (13, 7), (14, 11), (15, 19)]"

definition md4_ops2 :: "(nat \<times> nat) list" where
  "md4_ops2 = [(0, 3), (4, 5), (8, 9), (12, 13), (1, 3), (5, 5), (9, 9), (13, 13),
     (2, 3), (6, 5), (10, 9), (14, 13), (3, 3), (7, 5), (11, 9), (15, 13)]"

definition md4_ops3 :: "(nat \<times> nat) list" where
  "md4_ops3 = [(0, 3), (8, 9), (4, 11), (12, 15), (2, 3), (10, 9), (6, 11), (14, 15),
     (1, 3), (9, 9), (5, 11), (13, 15), (3, 3), (11, 9), (7, 11), (15, 15)]"

definition md4_F :: "u32 \<Rightarrow> u32 \<Rightarrow> u32 \<Rightarrow> u32" where "md4_F x y z = (x AND y) OR (NOT x AND z)"
definition md4_G :: "u32 \<Rightarrow> u32 \<Rightarrow> u32 \<Rightarrow> u32" where "md4_G x y z = (x AND y) OR (x AND z) OR (y AND z)"
definition md4_H :: "u32 \<Rightarrow> u32 \<Rightarrow> u32 \<Rightarrow> u32" where "md4_H x y z = x XOR y XOR z"

text \<open>
  The macro \<open>P(a,b,c,d,x,s)\<close> with the constant of the round, none in the first. Each use
  names the registers shifted by one place, so the result is returned in the order of the
  next use.
\<close>

definition md4_P :: "(u32 \<Rightarrow> u32 \<Rightarrow> u32 \<Rightarrow> u32) \<Rightarrow> u32 \<Rightarrow> u32 list \<Rightarrow> nat \<times> nat \<Rightarrow>
    u32 \<times> u32 \<times> u32 \<times> u32 \<Rightarrow> u32 \<times> u32 \<times> u32 \<times> u32" where
  "md4_P f K X = (\<lambda>(k, s) (a, b, c, d). (d, S_rot (a + (f b c d + X ! k + K)) s, b, c))"

definition md4_process :: "u32 list \<Rightarrow> bytes \<Rightarrow> u32 list" where
  "md4_process st data =
     (let X = map (\<lambda>i. GET_ULONG_LE data (4 * i)) [0..<16];
          r = (st ! 0, st ! 1, st ! 2, st ! 3);
          r = fold (md4_P md4_F 0 X) md4_ops1 r;
          r = fold (md4_P md4_G 0x5A827999 X) md4_ops2 r;
          (a, b, c, d) = fold (md4_P md4_H 0x6ED9EBA1 X) md4_ops3 r
      in [st ! 0 + a, st ! 1 + b, st ! 2 + c, st ! 3 + d])"

definition md4_iv :: "u32 list" where
  "md4_iv = [0x67452301, 0xEFCDAB89, 0x98BADCFE, 0x10325476]"

definition md4_starts :: "hash_ctx \<Rightarrow> hash_ctx" where
  "md4_starts ctx = ctx\<lparr>total0 := 0, total1 := 0, hstate := md4_iv\<rparr>"

definition md4_update :: "hash_ctx \<Rightarrow> bytes \<Rightarrow> int \<Rightarrow> hash_ctx option" where
  "md4_update = hash_update md4_process"

definition md4_padding :: bytes where
  "md4_padding = hash_padding"

text \<open>The byte order of the length.\<close>

definition md4_msglen :: "u32 \<Rightarrow> u32 \<Rightarrow> bytes" where
  "md4_msglen high low = PUT_ULONG_LE low @ PUT_ULONG_LE high"

definition md4_finish :: "hash_ctx \<Rightarrow> bytes option" where
  "md4_finish ctx =
     map_option (\<lambda>ctx. concat (map PUT_ULONG_LE (hstate ctx))) (hash_finish md4_process md4_msglen ctx)"

definition md4 :: "hash_ctx \<Rightarrow> bytes \<Rightarrow> int \<Rightarrow> bytes option" where
  "md4 ctx input ilen = do {
     let ctx = md4_starts ctx;
     ctx \<leftarrow> md4_update ctx input ilen;
     md4_finish ctx
   }"

section \<open>Correctness\<close>

text \<open>The digest of a message: the blocks of the padded message folded through the compression.\<close>

definition md4_ref :: "bytes \<Rightarrow> bytes" where
  "md4_ref msg = concat (map PUT_ULONG_LE (hash_ref md4_process md4_msglen md4_iv msg))"

lemma length_md4_msglen [simp]: "length (md4_msglen h l) = 8"
  by (simp add: md4_msglen_def PUT_ULONG_LE_def)

interpretation md4h: md_hash md4_process md4_msglen md4_iv
  by unfold_locales simp

text \<open>A sequence of calls of \<open>md4_update\<close>.\<close>

fun md4_updates :: "bytes list \<Rightarrow> hash_ctx \<Rightarrow> hash_ctx option" where
  "md4_updates [] ctx = Some ctx"
| "md4_updates (x # xs) ctx = md4_update ctx x (int (length x)) \<bind> md4_updates xs"

lemma md4_updates_eq: "md4_updates xs ctx = hash_updates md4_process ctx xs"
  by (induction xs arbitrary: ctx) (auto simp: md4_update_def intro: Option.bind_cong)

text \<open>
  C28: Feeding a message to \<open>md4_update\<close> in pieces of any number and any sizes below 2 GiB and
  then calling \<open>md4_finish\<close> gives the digest of the whole message: the message with its padding
  and its bit length, cut into blocks and folded through the compression function. The digest
  of "abc" is the one of RFC 1320.
\<close>

theorem md4_stream:
  assumes "length (hbuffer ctx) = 64" "\<forall>x\<in>set xs. length x < 2 ^ 31"
  shows "md4_updates xs (md4_starts ctx) \<bind> md4_finish = Some (md4_ref (concat xs))"
proof -
  have "md4_starts ctx = md4h.start ctx" by (simp add: md4_starts_def md4h.start_def)
  then obtain c c' where "md4_updates xs (md4_starts ctx) = Some c"
    "hash_finish md4_process md4_msglen c = Some c'"
    "hstate c' = hash_ref md4_process md4_msglen md4_iv (concat xs)"
    using md4h.stream[OF assms] by (auto simp: md4_updates_eq Option.bind_eq_Some_conv)
  then show ?thesis by (simp add: md4_finish_def md4_ref_def)
qed

theorem md4_stream_witness:
  "md4_ref (ascii ''abc'') =
     [0xa4, 0x48, 0x01, 0x7a, 0xaf, 0x21, 0xd8, 0x52, 0x5f, 0xc1,
      0x0a, 0xe8, 0x7a, 0xa6, 0x72, 0x9d]"
proof -
  let ?c = "\<lparr>total0 = 7, total1 = 0, hstate = [], hbuffer = replicate 64 9\<rparr>"
  have "md4_updates [ascii ''a'', [], ascii ''bc''] (md4_starts ?c) \<bind> md4_finish =
    Some [0xa4, 0x48, 0x01, 0x7a, 0xaf, 0x21, 0xd8, 0x52, 0x5f, 0xc1,
      0x0a, 0xe8, 0x7a, 0xa6, 0x72, 0x9d]"
    by code_simp
  then show ?thesis using md4_stream[of ?c "[ascii ''a'', [], ascii ''bc'']"] by (simp add: ascii_def)
qed

end
