(* ===== verification/Md5.thy ===== *)
theory Md5
  imports Digest
begin

text \<open>
  MD5, \<open>src/src/lwip/netif/ppp/polarssl/md5.c\<close>: the tables of the four rounds, the compression function and the
  functions over it, which share their buffering with the other hashes (\<open>Digest\<close>).
\<close>

section \<open>The hash function\<close>

definition md5_ops1 :: "(nat \<times> nat \<times> u32) list" where
  "md5_ops1 = [(0, 7, 0xD76AA478), (1, 12, 0xE8C7B756), (2, 17, 0x242070DB), (3, 22, 0xC1BDCEEE),
     (4, 7, 0xF57C0FAF), (5, 12, 0x4787C62A), (6, 17, 0xA8304613), (7, 22, 0xFD469501),
     (8, 7, 0x698098D8), (9, 12, 0x8B44F7AF), (10, 17, 0xFFFF5BB1), (11, 22, 0x895CD7BE),
     (12, 7, 0x6B901122), (13, 12, 0xFD987193), (14, 17, 0xA679438E), (15, 22, 0x49B40821)]"

definition md5_ops2 :: "(nat \<times> nat \<times> u32) list" where
  "md5_ops2 = [(1, 5, 0xF61E2562), (6, 9, 0xC040B340), (11, 14, 0x265E5A51), (0, 20, 0xE9B6C7AA),
     (5, 5, 0xD62F105D), (10, 9, 0x02441453), (15, 14, 0xD8A1E681), (4, 20, 0xE7D3FBC8),
     (9, 5, 0x21E1CDE6), (14, 9, 0xC33707D6), (3, 14, 0xF4D50D87), (8, 20, 0x455A14ED),
     (13, 5, 0xA9E3E905), (2, 9, 0xFCEFA3F8), (7, 14, 0x676F02D9), (12, 20, 0x8D2A4C8A)]"

definition md5_ops3 :: "(nat \<times> nat \<times> u32) list" where
  "md5_ops3 = [(5, 4, 0xFFFA3942), (8, 11, 0x8771F681), (11, 16, 0x6D9D6122), (14, 23, 0xFDE5380C),
     (1, 4, 0xA4BEEA44), (4, 11, 0x4BDECFA9), (7, 16, 0xF6BB4B60), (10, 23, 0xBEBFBC70),
     (13, 4, 0x289B7EC6), (0, 11, 0xEAA127FA), (3, 16, 0xD4EF3085), (6, 23, 0x04881D05),
     (9, 4, 0xD9D4D039), (12, 11, 0xE6DB99E5), (15, 16, 0x1FA27CF8), (2, 23, 0xC4AC5665)]"

definition md5_ops4 :: "(nat \<times> nat \<times> u32) list" where
  "md5_ops4 = [(0, 6, 0xF4292244), (7, 10, 0x432AFF97), (14, 15, 0xAB9423A7), (5, 21, 0xFC93A039),
     (12, 6, 0x655B59C3), (3, 10, 0x8F0CCC92), (10, 15, 0xFFEFF47D), (1, 21, 0x85845DD1),
     (8, 6, 0x6FA87E4F), (15, 10, 0xFE2CE6E0), (6, 15, 0xA3014314), (13, 21, 0x4E0811A1),
     (4, 6, 0xF7537E82), (11, 10, 0xBD3AF235), (2, 15, 0x2AD7D2BB), (9, 21, 0xEB86D391)]"

definition md5_F :: "u32 \<Rightarrow> u32 \<Rightarrow> u32 \<Rightarrow> u32" where "md5_F x y z = z XOR (x AND (y XOR z))"
definition md5_G :: "u32 \<Rightarrow> u32 \<Rightarrow> u32 \<Rightarrow> u32" where "md5_G x y z = y XOR (z AND (x XOR y))"
definition md5_H :: "u32 \<Rightarrow> u32 \<Rightarrow> u32 \<Rightarrow> u32" where "md5_H x y z = x XOR y XOR z"
definition md5_I :: "u32 \<Rightarrow> u32 \<Rightarrow> u32 \<Rightarrow> u32" where "md5_I x y z = y XOR (x OR NOT z)"

text \<open>
  The macro \<open>P(a,b,c,d,k,s,t)\<close>. Each use names the registers shifted by one place, so the
  result is returned in the order of the next use.
\<close>

definition md5_P :: "(u32 \<Rightarrow> u32 \<Rightarrow> u32 \<Rightarrow> u32) \<Rightarrow> u32 list \<Rightarrow> nat \<times> nat \<times> u32 \<Rightarrow>
    u32 \<times> u32 \<times> u32 \<times> u32 \<Rightarrow> u32 \<times> u32 \<times> u32 \<times> u32" where
  "md5_P f X = (\<lambda>(k, s, t) (a, b, c, d). (d, S_rot (a + (f b c d + X ! k + t)) s + b, b, c))"

definition md5_process :: "u32 list \<Rightarrow> bytes \<Rightarrow> u32 list" where
  "md5_process st data =
     (let X = map (\<lambda>i. GET_ULONG_LE data (4 * i)) [0..<16];
          r = (st ! 0, st ! 1, st ! 2, st ! 3);
          r = fold (md5_P md5_F X) md5_ops1 r;
          r = fold (md5_P md5_G X) md5_ops2 r;
          r = fold (md5_P md5_H X) md5_ops3 r;
          (a, b, c, d) = fold (md5_P md5_I X) md5_ops4 r
      in [st ! 0 + a, st ! 1 + b, st ! 2 + c, st ! 3 + d])"

definition md5_iv :: "u32 list" where
  "md5_iv = [0x67452301, 0xEFCDAB89, 0x98BADCFE, 0x10325476]"

definition md5_starts :: "hash_ctx \<Rightarrow> hash_ctx" where
  "md5_starts ctx = ctx\<lparr>total0 := 0, total1 := 0, hstate := md5_iv\<rparr>"

definition md5_update :: "hash_ctx \<Rightarrow> bytes \<Rightarrow> int \<Rightarrow> hash_ctx option" where
  "md5_update = hash_update md5_process"

definition md5_padding :: bytes where
  "md5_padding = hash_padding"

text \<open>The byte order of the length.\<close>

definition md5_msglen :: "u32 \<Rightarrow> u32 \<Rightarrow> bytes" where
  "md5_msglen high low = PUT_ULONG_LE low @ PUT_ULONG_LE high"

definition md5_finish :: "hash_ctx \<Rightarrow> bytes option" where
  "md5_finish ctx =
     map_option (\<lambda>ctx. concat (map PUT_ULONG_LE (hstate ctx))) (hash_finish md5_process md5_msglen ctx)"

definition md5 :: "hash_ctx \<Rightarrow> bytes \<Rightarrow> int \<Rightarrow> bytes option" where
  "md5 ctx input ilen = do {
     let ctx = md5_starts ctx;
     ctx \<leftarrow> md5_update ctx input ilen;
     md5_finish ctx
   }"

section \<open>Correctness\<close>

text \<open>The digest of a message: the blocks of the padded message folded through the compression.\<close>

definition md5_ref :: "bytes \<Rightarrow> bytes" where
  "md5_ref msg = concat (map PUT_ULONG_LE (hash_ref md5_process md5_msglen md5_iv msg))"

lemma length_md5_msglen [simp]: "length (md5_msglen h l) = 8"
  by (simp add: md5_msglen_def PUT_ULONG_LE_def)

interpretation md5h: md_hash md5_process md5_msglen md5_iv
  by unfold_locales simp

text \<open>A sequence of calls of \<open>md5_update\<close>.\<close>

fun md5_updates :: "bytes list \<Rightarrow> hash_ctx \<Rightarrow> hash_ctx option" where
  "md5_updates [] ctx = Some ctx"
| "md5_updates (x # xs) ctx = md5_update ctx x (int (length x)) \<bind> md5_updates xs"

lemma md5_updates_eq: "md5_updates xs ctx = hash_updates md5_process ctx xs"
  by (induction xs arbitrary: ctx) (auto simp: md5_update_def intro: Option.bind_cong)

text \<open>
  C26: Feeding a message to \<open>md5_update\<close> in pieces of any number and any sizes below 2 GiB and
  then calling \<open>md5_finish\<close> gives the digest of the whole message: the message with its padding
  and its bit length, cut into blocks and folded through the compression function. The digest
  of "abc" is the one of RFC 1321.
\<close>

theorem md5_stream:
  assumes "length (hbuffer ctx) = 64" "\<forall>x\<in>set xs. length x < 2 ^ 31"
  shows "md5_updates xs (md5_starts ctx) \<bind> md5_finish = Some (md5_ref (concat xs))"
proof -
  have "md5_starts ctx = md5h.start ctx" by (simp add: md5_starts_def md5h.start_def)
  then obtain c c' where "md5_updates xs (md5_starts ctx) = Some c"
    "hash_finish md5_process md5_msglen c = Some c'"
    "hstate c' = hash_ref md5_process md5_msglen md5_iv (concat xs)"
    using md5h.stream[OF assms] by (auto simp: md5_updates_eq Option.bind_eq_Some_conv)
  then show ?thesis by (simp add: md5_finish_def md5_ref_def)
qed

theorem md5_stream_witness:
  "md5_ref (ascii ''abc'') =
     [0x90, 0x01, 0x50, 0x98, 0x3c, 0xd2, 0x4f, 0xb0, 0xd6, 0x96,
      0x3f, 0x7d, 0x28, 0xe1, 0x7f, 0x72]"
proof -
  let ?c = "\<lparr>total0 = 7, total1 = 0, hstate = [], hbuffer = replicate 64 9\<rparr>"
  have "md5_updates [ascii ''a'', [], ascii ''bc''] (md5_starts ?c) \<bind> md5_finish =
    Some [0x90, 0x01, 0x50, 0x98, 0x3c, 0xd2, 0x4f, 0xb0, 0xd6, 0x96,
      0x3f, 0x7d, 0x28, 0xe1, 0x7f, 0x72]"
    by code_simp
  then show ?thesis using md5_stream[of ?c "[ascii ''a'', [], ascii ''bc'']"] by (simp add: ascii_def)
qed

end
