(* ===== verification/Sha1.thy ===== *)
theory Sha1
  imports Digest
begin

text \<open>
  SHA-1, \<open>src/src/lwip/netif/ppp/polarssl/sha1.c\<close>: the message schedule, the compression function and the
  functions over it, which share their buffering with the other hashes (\<open>Digest\<close>).
\<close>

section \<open>The hash function\<close>

definition sha1_F1 :: "u32 \<Rightarrow> u32 \<Rightarrow> u32 \<Rightarrow> u32" where "sha1_F1 x y z = z XOR (x AND (y XOR z))"
definition sha1_F2 :: "u32 \<Rightarrow> u32 \<Rightarrow> u32 \<Rightarrow> u32" where "sha1_F2 x y z = x XOR y XOR z"
definition sha1_F3 :: "u32 \<Rightarrow> u32 \<Rightarrow> u32 \<Rightarrow> u32" where "sha1_F3 x y z = (x AND y) OR (z AND (x OR y))"

text \<open>The macro \<open>R(t)\<close> extends the message schedule in place.\<close>

definition sha1_R :: "int \<Rightarrow> u32 list \<Rightarrow> u32 list" where
  "sha1_R t W =
     (let temp = W ! nat ((t - 3) AND 0x0F) XOR W ! nat ((t - 8) AND 0x0F) XOR
        W ! nat ((t - 14) AND 0x0F) XOR W ! nat (t AND 0x0F)
      in W[nat (t AND 0x0F) := S_rot temp 1])"

text \<open>
  The macro \<open>P(a,b,c,d,e,x)\<close> with \<open>W[t]\<close> or \<open>R(t)\<close> as its last argument. Each use names the
  registers shifted by one place, so the result is returned in the order of the next use.
\<close>

definition sha1_P :: "(u32 \<Rightarrow> u32 \<Rightarrow> u32 \<Rightarrow> u32) \<Rightarrow> u32 \<Rightarrow> int \<Rightarrow>
    u32 list \<times> u32 \<times> u32 \<times> u32 \<times> u32 \<times> u32 \<Rightarrow> u32 list \<times> u32 \<times> u32 \<times> u32 \<times> u32 \<times> u32" where
  "sha1_P f K t = (\<lambda>(W, a, b, c, d, e).
     let W = (if t < 16 then W else sha1_R t W)
     in (W, e + (S_rot a 5 + f b c d + K + W ! nat (t AND 0x0F)), a, S_rot b 30, c, d))"

definition sha1_process :: "u32 list \<Rightarrow> bytes \<Rightarrow> u32 list" where
  "sha1_process st data =
     (let r = (map (\<lambda>i. GET_ULONG_BE data (4 * i)) [0..<16], st ! 0, st ! 1, st ! 2, st ! 3, st ! 4);
          r = fold (sha1_P sha1_F1 0x5A827999) [0..19] r;
          r = fold (sha1_P sha1_F2 0x6ED9EBA1) [20..39] r;
          r = fold (sha1_P sha1_F3 0x8F1BBCDC) [40..59] r;
          (W, a, b, c, d, e) = fold (sha1_P sha1_F2 0xCA62C1D6) [60..79] r
      in [st ! 0 + a, st ! 1 + b, st ! 2 + c, st ! 3 + d, st ! 4 + e])"

definition sha1_iv :: "u32 list" where
  "sha1_iv = [0x67452301, 0xEFCDAB89, 0x98BADCFE, 0x10325476, 0xC3D2E1F0]"

definition sha1_starts :: "hash_ctx \<Rightarrow> hash_ctx" where
  "sha1_starts ctx = ctx\<lparr>total0 := 0, total1 := 0, hstate := sha1_iv\<rparr>"

definition sha1_update :: "hash_ctx \<Rightarrow> bytes \<Rightarrow> int \<Rightarrow> hash_ctx option" where
  "sha1_update = hash_update sha1_process"

definition sha1_padding :: bytes where
  "sha1_padding = hash_padding"

text \<open>The byte order of the length.\<close>

definition sha1_msglen :: "u32 \<Rightarrow> u32 \<Rightarrow> bytes" where
  "sha1_msglen high low = PUT_ULONG_BE high @ PUT_ULONG_BE low"

definition sha1_finish :: "hash_ctx \<Rightarrow> bytes option" where
  "sha1_finish ctx =
     map_option (\<lambda>ctx. concat (map PUT_ULONG_BE (hstate ctx))) (hash_finish sha1_process sha1_msglen ctx)"

definition sha1 :: "hash_ctx \<Rightarrow> bytes \<Rightarrow> int \<Rightarrow> bytes option" where
  "sha1 ctx input ilen = do {
     let ctx = sha1_starts ctx;
     ctx \<leftarrow> sha1_update ctx input ilen;
     sha1_finish ctx
   }"

section \<open>Correctness\<close>

text \<open>The digest of a message: the blocks of the padded message folded through the compression.\<close>

definition sha1_ref :: "bytes \<Rightarrow> bytes" where
  "sha1_ref msg = concat (map PUT_ULONG_BE (hash_ref sha1_process sha1_msglen sha1_iv msg))"

lemma length_sha1_msglen [simp]: "length (sha1_msglen h l) = 8"
  by (simp add: sha1_msglen_def PUT_ULONG_BE_def)

interpretation sha1h: md_hash sha1_process sha1_msglen sha1_iv
  by unfold_locales simp

text \<open>A sequence of calls of \<open>sha1_update\<close>.\<close>

fun sha1_updates :: "bytes list \<Rightarrow> hash_ctx \<Rightarrow> hash_ctx option" where
  "sha1_updates [] ctx = Some ctx"
| "sha1_updates (x # xs) ctx = sha1_update ctx x (int (length x)) \<bind> sha1_updates xs"

lemma sha1_updates_eq: "sha1_updates xs ctx = hash_updates sha1_process ctx xs"
  by (induction xs arbitrary: ctx) (auto simp: sha1_update_def intro: Option.bind_cong)

text \<open>The compression of the block of "abc", a round at a time.\<close>

lemmas sha1_eval = sha1_P_def sha1_R_def S_rot_def sha1_F1_def sha1_F2_def sha1_F3_def Let_def upto.simps[of 0] upto.simps[of 1]

lemma sha1_abc1:
  "fold (sha1_P sha1_F1 0x5A827999) [0..19]
    ([0x61626380, 0x0, 0x0, 0x0, 0x0, 0x0, 0x0, 0x0,
      0x0, 0x0, 0x0, 0x0, 0x0, 0x0, 0x0, 0x18],
     0x67452301, 0xEFCDAB89, 0x98BADCFE, 0x10325476, 0xC3D2E1F0) =
    ([0xC2C4C700, 0x0, 0x30, 0x85898E01, 0x0, 0x0, 0x0, 0x0,
      0x0, 0x0, 0x0, 0x0, 0x0, 0x0, 0x0, 0x18],
     0xFD9E1D7D, 0xDC64901D, 0x20AA99CA, 0xD3A49608, 0xC82F758B)"
  by (simp add: sha1_eval)

lemma sha1_abc2:
  "fold (sha1_P sha1_F2 0x6ED9EBA1) [20..39]
    ([0xC2C4C700, 0x0, 0x30, 0x85898E01, 0x0, 0x0, 0x0, 0x0,
      0x0, 0x0, 0x0, 0x0, 0x0, 0x0, 0x0, 0x18],
     0xFD9E1D7D, 0xDC64901D, 0x20AA99CA, 0xD3A49608, 0xC82F758B) =
    ([0x8E9A9202, 0x600, 0xB131C0F0, 0x16263BC6, 0x4EBED41E, 0x626380A1, 0x16263806, 0x18C0,
      0x85898EC1, 0x16263806, 0x0, 0x180, 0x2C4C700C, 0xF0, 0x93AFB507, 0x5898E048],
     0x32DE1CBA, 0x4C986405, 0xF718E5CF, 0x3D447F6, 0xF72EEC32)"
  by (simp add: sha1_eval)

lemma sha1_abc3:
  "fold (sha1_P sha1_F3 0x8F1BBCDC) [40..59]
    ([0x8E9A9202, 0x600, 0xB131C0F0, 0x16263BC6, 0x4EBED41E, 0x626380A1, 0x16263806, 0x18C0,
      0x85898EC1, 0x16263806, 0x0, 0x180, 0x2C4C700C, 0xF0, 0x93AFB507, 0x5898E048],
     0x32DE1CBA, 0x4C986405, 0xF718E5CF, 0x3D447F6, 0xF72EEC32) =
    ([0xDA9415ED, 0x26380A16, 0x626383A1, 0x4EBF54DE, 0x3835B44B, 0xF600, 0x1E84C7A3, 0x98E04D98,
      0x651D16A0, 0x62658CA1, 0x458544D6, 0x44584CB7, 0xE2BA3C2B, 0x60C0, 0x53A37CD, 0x74458547],
     0x3F52DE5A, 0x9D785FD, 0x3498BFD4, 0xF211824F, 0xD79915AB)"
  by (simp add: sha1_eval)

lemma sha1_abc4:
  "fold (sha1_P sha1_F2 0xCA62C1D6) [60..79]
    ([0xDA9415ED, 0x26380A16, 0x626383A1, 0x4EBF54DE, 0x3835B44B, 0xF600, 0x1E84C7A3, 0x98E04D98,
      0x651D16A0, 0x62658CA1, 0x458544D6, 0x44584CB7, 0xE2BA3C2B, 0x60C0, 0x53A37CD, 0x74458547],
     0x3F52DE5A, 0x9D785FD, 0x3498BFD4, 0xF211824F, 0xD79915AB) =
    ([0x7CD45C9D, 0xF0000, 0xFB50753A, 0xEC6765E8, 0xBA3C2BE2, 0x60C000, 0x3A37CD05, 0x458546F4,
      0xB8599DD6, 0x380A1A26, 0x1E02203, 0xE7CC3456, 0xE6E60B69, 0xF60A00, 0x5795EF4F, 0x822E0879],
     0x42541B35, 0x5738D5E1, 0x21834873, 0x681E6DF6, 0xD8FDF6AD)"
  by (simp add: sha1_eval)

lemma sha1_nth:
  "[a, b, c, d, e] ! 0 = a" "[a, b, c, d, e] ! 1 = b" "[a, b, c, d, e] ! 2 = c"
  "[a, b, c, d, e] ! 3 = d" "[a, b, c, d, e] ! 4 = e"
  by simp_all

lemma sha1_abc:
  "sha1_process sha1_iv (ascii ''abc'' @ 0x80 # replicate 52 0 @ [0, 0, 0, 0, 0, 0, 0, 24]) =
    [0xA9993E36, 0x4706816A, 0xBA3E2571, 0x7850C26C, 0x9CD0D89D]"
proof -
  let ?data = "ascii ''abc'' @ 0x80 # replicate 52 0 @ [0, 0, 0, 0, 0, 0, 0, 24]"
  have "map (\<lambda>i. GET_ULONG_BE ?data (4 * i)) [0..<16] =
    [0x61626380, 0x0, 0x0, 0x0, 0x0, 0x0, 0x0, 0x0, 0x0, 0x0, 0x0, 0x0, 0x0, 0x0, 0x0, 0x18]"
    by code_simp
  then show ?thesis
    by (simp only: sha1_process_def sha1_iv_def Let_def sha1_nth
      sha1_abc1 sha1_abc2 sha1_abc3 sha1_abc4 prod.case) simp
qed

text \<open>
  C27: Feeding a message to \<open>sha1_update\<close> in pieces of any number and any sizes below 2 GiB and
  then calling \<open>sha1_finish\<close> gives the digest of the whole message: the message with its padding
  and its bit length, cut into blocks and folded through the compression function. The digest
  of "abc" is the one of FIPS 180-1.
\<close>

theorem sha1_stream:
  assumes "length (hbuffer ctx) = 64" "\<forall>x\<in>set xs. length x < 2 ^ 31"
  shows "sha1_updates xs (sha1_starts ctx) \<bind> sha1_finish = Some (sha1_ref (concat xs))"
proof -
  have "sha1_starts ctx = sha1h.start ctx" by (simp add: sha1_starts_def sha1h.start_def)
  then obtain c c' where "sha1_updates xs (sha1_starts ctx) = Some c"
    "hash_finish sha1_process sha1_msglen c = Some c'"
    "hstate c' = hash_ref sha1_process sha1_msglen sha1_iv (concat xs)"
    using sha1h.stream[OF assms] by (auto simp: sha1_updates_eq Option.bind_eq_Some_conv)
  then show ?thesis by (simp add: sha1_finish_def sha1_ref_def)
qed

theorem sha1_stream_witness:
  "sha1_updates [ascii ''a'', [], ascii ''bc'']
     (sha1_starts \<lparr>total0 = 7, total1 = 0, hstate = [], hbuffer = replicate 64 9\<rparr>) \<bind> sha1_finish =
   Some [0xa9, 0x99, 0x3e, 0x36, 0x47, 0x06, 0x81, 0x6a, 0xba, 0x3e,
      0x25, 0x71, 0x78, 0x50, 0xc2, 0x6c, 0x9c, 0xd0, 0xd8, 0x9d]"
proof -
  let ?c = "\<lparr>total0 = 7, total1 = 0, hstate = [], hbuffer = replicate 64 9\<rparr>"
  let ?block = "ascii ''abc'' @ 0x80 # replicate 52 0 @ [0, 0, 0, 0, 0, 0, 0, 24]"
  have "ascii ''abc'' @ hash_pad sha1_msglen 3 = ?block"
    by (simp add: hash_pad_def sha1_msglen_def PUT_ULONG_BE_def)
  moreover have "chunks ?block = [?block]" using chunks_full(1)[of ?block "[]"] by simp
  ultimately have "hash_ref sha1_process sha1_msglen sha1_iv (ascii ''abc'') =
      sha1_process sha1_iv ?block"
    by (simp only: hash_ref_def length_ascii) (simp add: eval_nat_numeral)
  then have "sha1_ref (ascii ''abc'') = [0xa9, 0x99, 0x3e, 0x36, 0x47, 0x06, 0x81, 0x6a, 0xba, 0x3e,
      0x25, 0x71, 0x78, 0x50, 0xc2, 0x6c, 0x9c, 0xd0, 0xd8, 0x9d]"
    by (simp only: sha1_ref_def sha1_abc) (simp add: PUT_ULONG_BE_def)
  then show ?thesis using sha1_stream[of ?c "[ascii ''a'', [], ascii ''bc'']"] by (simp add: ascii_def)
qed

end
