(* ===== verification/Arc4.thy ===== *)
theory Arc4
  imports Prelude "HOL-Library.Multiset"
begin

text \<open>
  The stream cipher of \<open>src/src/lwip/netif/ppp/polarssl/arc4.c\<close>. The state is a table of 256
  bytes with two indices; \<open>None\<close> is an access outside the table, the key or the buffer.
  The table is always a permutation of the bytes (\<open>arc4_ok\<close>), no access leaves it, and
  since the key stream does not depend on the data, applying the cipher twice from the same
  state gives the data back.
\<close>

record arc4_context =
  ax :: nat
  ay :: nat
  am :: bytes

text \<open>The first loop of \<open>arc4_setup\<close> writes the identity, the second one shuffles.\<close>

fun arc4_fill :: "nat \<Rightarrow> bytes \<Rightarrow> bytes option" where
  "arc4_fill 0 m = Some m"
| "arc4_fill (Suc n) m = do { m \<leftarrow> aset m (256 - Suc n) (of_nat (256 - Suc n)); arc4_fill n m }"

fun arc4_mix :: "nat \<Rightarrow> bytes \<Rightarrow> int \<Rightarrow> nat \<Rightarrow> nat \<Rightarrow> bytes \<Rightarrow> bytes option" where
  "arc4_mix 0 key keylen j k m = Some m"
| "arc4_mix (Suc n) key keylen j k m = do {
     let i = 256 - Suc n;
     let k = (if int k \<ge> keylen then 0 else k);
     a \<leftarrow> aget m i;
     c \<leftarrow> aget key k;
     let j = (j + unat a + unat c) mod 256;
     b \<leftarrow> aget m j;
     m \<leftarrow> aset m i b;
     m \<leftarrow> aset m j a;
     arc4_mix n key keylen j (k + 1) m
   }"

definition arc4_setup :: "bytes \<Rightarrow> int \<Rightarrow> arc4_context \<Rightarrow> arc4_context option" where
  "arc4_setup key keylen ctx = do {
     m \<leftarrow> arc4_fill 256 (am ctx);
     m \<leftarrow> arc4_mix 256 key keylen 0 0 m;
     Some (ctx\<lparr>ax := 0, ay := 0, am := m\<rparr>)
   }"

text \<open>One pass of the loop of \<open>arc4_crypt\<close> without the store: the byte of the key stream.\<close>

definition arc4_next :: "arc4_context \<Rightarrow> (u8 \<times> arc4_context) option" where
  "arc4_next ctx = do {
     let x = (ax ctx + 1) mod 256;
     a \<leftarrow> aget (am ctx) x;
     let y = (ay ctx + unat a) mod 256;
     b \<leftarrow> aget (am ctx) y;
     m \<leftarrow> aset (am ctx) x b;
     m \<leftarrow> aset m y a;
     c \<leftarrow> aget m (unat (a + b));
     Some (c, \<lparr>ax = x, ay = y, am = m\<rparr>)
   }"

fun arc4_loop :: "nat \<Rightarrow> nat \<Rightarrow> arc4_context \<Rightarrow> bytes \<Rightarrow> (arc4_context \<times> bytes) option" where
  "arc4_loop 0 i ctx buf = Some (ctx, buf)"
| "arc4_loop (Suc n) i ctx buf = do {
     (c, ctx) \<leftarrow> arc4_next ctx;
     v \<leftarrow> aget buf i;
     buf \<leftarrow> aset buf i (v XOR c);
     arc4_loop n (i + 1) ctx buf
   }"

definition arc4_crypt :: "arc4_context \<Rightarrow> bytes \<Rightarrow> int \<Rightarrow> (arc4_context \<times> bytes) option" where
  "arc4_crypt ctx buf buflen = arc4_loop (nat buflen) 0 ctx buf"

section \<open>The table is a permutation\<close>

definition all_bytes :: bytes where
  "all_bytes = map of_nat [0..<256]"

definition is_perm :: "bytes \<Rightarrow> bool" where
  "is_perm m \<longleftrightarrow> mset m = mset all_bytes"

definition arc4_ok :: "arc4_context \<Rightarrow> bool" where
  "arc4_ok ctx \<longleftrightarrow> ax ctx < 256 \<and> ay ctx < 256 \<and> is_perm (am ctx)"

lemma is_perm_length: "is_perm m \<Longrightarrow> length m = 256"
  using mset_eq_length[of m all_bytes] by (simp add: is_perm_def all_bytes_def)

lemma is_perm_distinct: "is_perm m \<Longrightarrow> distinct m"
proof -
  have "inj_on (of_nat :: nat \<Rightarrow> u8) {0..<256}"
  proof (rule inj_onI)
    fix i j :: nat assume ij: "i \<in> {0..<256}" "j \<in> {0..<256}" "(of_nat i :: u8) = of_nat j"
    then have "unat (of_nat i :: u8) = unat (of_nat j :: u8)" by simp
    then show "i = j" using ij(1,2) by (simp add: unsigned_of_nat take_bit_eq_mod)
  qed
  then have "distinct all_bytes" by (simp add: all_bytes_def distinct_map)
  moreover assume "is_perm m"
  ultimately show ?thesis using mset_eq_imp_distinct_iff unfolding is_perm_def by blast
qed

lemma is_perm_all: "is_perm m \<Longrightarrow> set m = UNIV"
proof -
  assume "is_perm m"
  then have "set m = set all_bytes" using mset_eq_setD by (auto simp: is_perm_def)
  moreover have "w \<in> set all_bytes" for w
    using unat_u8_lt[of w] by (auto simp: all_bytes_def intro: image_eqI[of _ _ "unat w"])
  ultimately show ?thesis by auto
qed

text \<open>Both the key schedule and the cipher change the table by exchanging two entries.\<close>

definition swap :: "nat \<Rightarrow> nat \<Rightarrow> bytes \<Rightarrow> bytes" where
  "swap i j m = m[i := m ! j, j := m ! i]"

lemma swap_perm: "i < length m \<Longrightarrow> j < length m \<Longrightarrow> is_perm (swap i j m) = is_perm m"
  by (simp add: is_perm_def swap_def mset_swap)

lemma length_swap [simp]: "length (swap i j m) = length m"
  by (simp add: swap_def)

lemma arc4_fill_eq:
  "n \<le> 256 \<Longrightarrow> length m = 256 \<Longrightarrow> arc4_fill n m = Some (take (256 - n) m @ drop (256 - n) all_bytes)"
proof (induction n arbitrary: m)
  case 0
  then show ?case by (simp add: all_bytes_def)
next
  case (Suc n)
  define i where "i = 256 - Suc n"
  have i: "256 - n = Suc i" "i < 256" using Suc.prems by (auto simp: i_def)
  have b: "drop i all_bytes = of_nat i # drop (Suc i) all_bytes"
    using upt_conv_Cons[OF i(2)] by (simp add: all_bytes_def drop_map)
  have "arc4_fill (Suc n) m = arc4_fill n (m[i := of_nat i])"
    using i Suc.prems by (simp only: arc4_fill.simps i_def[symmetric]) simp
  also have "\<dots> = Some (take (Suc i) (m[i := of_nat i]) @ drop (Suc i) all_bytes)"
    using Suc.IH[of "m[i := of_nat i]"] Suc.prems i by simp
  finally show ?case using b i Suc.prems(2) unfolding i_def[symmetric] by (simp add: take_Suc_update)
qed

lemma arc4_mix_perm:
  assumes "n \<le> 256" "is_perm m" "keylen \<le> int (length key)" "key \<noteq> []" "j < 256"
  shows "\<exists>m'. arc4_mix n key keylen j k m = Some m' \<and> is_perm m'"
  using assms
proof (induction n arbitrary: j k m)
  case (Suc n)
  note len = is_perm_length[OF Suc.prems(2)]
  define k' where "k' = (if int k \<ge> keylen then 0 else k)"
  define j' where "j' = (j + unat (m ! (255 - n)) + unat (key ! k')) mod 256"
  have k: "k' < length key" using Suc.prems by (auto simp: k'_def)
  have j: "j' < 256" by (simp add: j'_def)
  have "is_perm (swap (255 - n) j' m)" using swap_perm[of "255 - n" m j'] Suc.prems len j by simp
  from Suc.IH[OF _ this Suc.prems(3,4) j] Suc.prems(1)
  obtain m' where "arc4_mix n key keylen j' (k' + 1) (swap (255 - n) j' m) = Some m'" "is_perm m'"
    by auto
  then show ?case using len k j
    by (simp add: Let_def k'_def[symmetric] j'_def[symmetric] swap_def)
qed simp

lemma arc4_setup_ok:
  assumes "length (am ctx) = 256" "keylen \<le> int (length key)" "key \<noteq> []"
  shows "\<exists>ctx'. arc4_setup key keylen ctx = Some ctx' \<and> arc4_ok ctx'"
proof -
  have "arc4_fill 256 (am ctx) = Some all_bytes" using arc4_fill_eq[of 256 "am ctx"] assms(1) by simp
  moreover have "is_perm all_bytes" by (simp add: is_perm_def)
  ultimately show ?thesis
    using arc4_mix_perm[of 256 all_bytes keylen key 0 0] assms(2,3)
    by (auto simp: arc4_setup_def arc4_ok_def)
qed

lemma arc4_next_ok:
  assumes "arc4_ok ctx"
  shows "\<exists>c ctx'. arc4_next ctx = Some (c, ctx') \<and> arc4_ok ctx'"
proof -
  let ?m = "am ctx"
  define x where "x = Suc (ax ctx) mod 256"
  define y where "y = (ay ctx + unat (?m ! x)) mod 256"
  have m: "is_perm ?m" "length ?m = 256" using assms is_perm_length by (auto simp: arc4_ok_def)
  have xy: "x < 256" "y < 256" by (simp_all add: x_def y_def)
  have "arc4_next ctx = Some (swap x y ?m ! unat (?m ! x + ?m ! y), \<lparr>ax = x, ay = y, am = swap x y ?m\<rparr>)"
    using m xy unat_u8_lt
    by (simp add: arc4_next_def Let_def x_def[symmetric] y_def[symmetric] swap_def)
  then show ?thesis using xy m swap_perm[of x ?m y] by (simp add: arc4_ok_def)
qed

section \<open>The key stream\<close>

fun keystream :: "nat \<Rightarrow> arc4_context \<Rightarrow> (bytes \<times> arc4_context) option" where
  "keystream 0 ctx = Some ([], ctx)"
| "keystream (Suc n) ctx = do {
     (c, ctx) \<leftarrow> arc4_next ctx;
     (cs, ctx) \<leftarrow> keystream n ctx;
     Some (c # cs, ctx)
   }"

definition xor_bytes :: "bytes \<Rightarrow> bytes \<Rightarrow> bytes" where
  "xor_bytes xs ys = map2 (XOR) xs ys"

lemma keystream_ok:
  "arc4_ok ctx \<Longrightarrow> \<exists>ks ctx'. keystream n ctx = Some (ks, ctx') \<and> length ks = n \<and> arc4_ok ctx'"
proof (induction n arbitrary: ctx)
  case (Suc n)
  obtain c ctx1 where "arc4_next ctx = Some (c, ctx1)" "arc4_ok ctx1" using arc4_next_ok[OF Suc.prems] by blast
  with Suc.IH[of ctx1] show ?case by fastforce
qed simp

lemma arc4_loop_eq:
  assumes "keystream n ctx = Some (ks, ctx')" "i + n \<le> length buf"
  shows "arc4_loop n i ctx buf =
    Some (ctx', take i buf @ xor_bytes (take n (drop i buf)) ks @ drop (i + n) buf)"
  using assms
proof (induction n arbitrary: i ctx buf ks)
  case 0
  then show ?case by (simp add: xor_bytes_def)
next
  case (Suc n)
  then obtain c ctx1 cs where c: "arc4_next ctx = Some (c, ctx1)" "keystream n ctx1 = Some (cs, ctx')" "ks = c # cs"
    by (auto split: bind_splits)
  have i: "i < length buf" "drop i buf = buf ! i # drop (Suc i) buf"
    using Suc.prems(2) by (auto simp: Cons_nth_drop_Suc)
  have "arc4_loop n (i + 1) ctx1 (buf[i := buf ! i XOR c]) =
    Some (ctx', take (i + 1) (buf[i := buf ! i XOR c]) @
      xor_bytes (take n (drop (i + 1) buf)) cs @ drop (i + 1 + n) buf)"
    using Suc.IH[OF c(2), of "i + 1" "buf[i := buf ! i XOR c]"] Suc.prems(2) by simp
  then show ?case using c i by (simp add: take_Suc_update xor_bytes_def)
qed

lemma arc4_crypt_eq:
  assumes "keystream (length buf) ctx = Some (ks, ctx')"
  shows "arc4_crypt ctx buf (int (length buf)) = Some (ctx', xor_bytes buf ks)"
  using arc4_loop_eq[OF assms, of 0 buf] by (simp add: arc4_crypt_def)

lemma xor_bytes_twice: "length ks = length buf \<Longrightarrow> xor_bytes (xor_bytes buf ks) ks = buf"
  by (induction ks buf rule: list_induct2) (simp_all add: xor_bytes_def xor.assoc)

lemma length_xor_bytes [simp]: "length ks = length buf \<Longrightarrow> length (xor_bytes buf ks) = length buf"
  by (simp add: xor_bytes_def)

text \<open>
  C30: The table of the cipher is a permutation of the 256 bytes after \<open>arc4_setup\<close> with any key
  and stays one under every \<open>arc4_crypt\<close>; both return, without an access outside the table, the
  key or the buffer.
\<close>

theorem arc4_table_permutation:
  assumes "length (am ctx) = 256" "key \<noteq> []"
  shows "\<exists>ctx1. arc4_setup key (int (length key)) ctx = Some ctx1 \<and> arc4_ok ctx1 \<and>
    (\<forall>ctx2 buf. arc4_ok ctx2 \<longrightarrow>
       (\<exists>ctx3 out. arc4_crypt ctx2 buf (int (length buf)) = Some (ctx3, out) \<and> arc4_ok ctx3))"
proof -
  have "\<exists>ctx3 out. arc4_crypt ctx2 buf (int (length buf)) = Some (ctx3, out) \<and> arc4_ok ctx3"
    if "arc4_ok ctx2" for ctx2 buf
    using keystream_ok[OF that, of "length buf"] arc4_crypt_eq by blast
  then show ?thesis using arc4_setup_ok[of ctx "int (length key)" key] assms by auto
qed

theorem arc4_table_permutation_witness:
  "\<exists>ctx1. arc4_setup [1, 2, 3] 3 \<lparr>ax = 9, ay = 9, am = replicate 256 0\<rparr> = Some ctx1 \<and> arc4_ok ctx1"
  using arc4_table_permutation[of "\<lparr>ax = 9, ay = 9, am = replicate 256 0\<rparr>" "[1, 2, 3]"] by auto

text \<open>
  C31: Decryption undoes encryption: two contexts set up with the same key, the first used to
  encrypt a buffer, the second to decrypt the result, give the buffer back, and end in the same
  state, so that the next buffer decrypts as well.
\<close>

theorem arc4_decrypts:
  assumes "length (am ctx) = 256" "length (am ctx') = 256" "key \<noteq> []"
  shows "\<exists>c c' c1 out. arc4_setup key (int (length key)) ctx = Some c \<and>
    arc4_setup key (int (length key)) ctx' = Some c' \<and>
    arc4_crypt c buf (int (length buf)) = Some (c1, out) \<and>
    arc4_crypt c' out (int (length out)) = Some (c1, buf)"
proof -
  obtain c where c: "arc4_setup key (int (length key)) ctx = Some c" "arc4_ok c"
    using arc4_setup_ok[of ctx "int (length key)" key] assms by auto
  have "arc4_setup key (int (length key)) ctx' = Some c"
    using c(1) arc4_fill_eq[of 256 "am ctx"] arc4_fill_eq[of 256 "am ctx'"] assms(1,2)
    by (cases ctx; cases ctx') (simp add: arc4_setup_def split: bind_splits)
  moreover obtain ks c1 where ks: "keystream (length buf) c = Some (ks, c1)" "length ks = length buf"
    using keystream_ok[OF c(2), of "length buf"] by blast
  moreover have "arc4_crypt c (xor_bytes buf ks) (int (length (xor_bytes buf ks))) = Some (c1, buf)"
    using arc4_crypt_eq[of "xor_bytes buf ks" c ks c1] ks xor_bytes_twice[OF ks(2)] by simp
  ultimately show ?thesis using c(1) arc4_crypt_eq[OF ks(1)] by blast
qed

theorem arc4_decrypts_witness:
  "\<exists>c c' c1 out. arc4_setup [7] 1 \<lparr>ax = 0, ay = 0, am = replicate 256 0\<rparr> = Some c \<and>
    arc4_setup [7] 1 \<lparr>ax = 3, ay = 4, am = replicate 256 5\<rparr> = Some c' \<and>
    arc4_crypt c [10, 20] 2 = Some (c1, out) \<and> arc4_crypt c' out (int (length out)) = Some (c1, [10, 20])"
  using arc4_decrypts[of "\<lparr>ax = 0, ay = 0, am = replicate 256 0\<rparr>"
    "\<lparr>ax = 3, ay = 4, am = replicate 256 5\<rparr>" "[7]" "[10, 20]"] by simp

end
