(* ===== verification/Des.thy ===== *)
theory Des
  imports Digest
begin

text \<open>
  The block cipher of \<open>src/src/lwip/netif/ppp/polarssl/des.c\<close> and the key expansion of
  \<open>src/src/lwip/netif/ppp/pppcrypt.c\<close>. The macros \<open>DES_IP\<close>, \<open>DES_FP\<close> and \<open>DES_ROUND\<close> are
  functions on the two halves; the pointer \<open>SK\<close> into the subkeys is the list of the subkeys
  that are left. The words are read and written with the macros of \<open>Digest\<close>.

  Every exchange of bits in the two permutations is its own inverse, and so is a round with
  its subkeys; hence decryption with the reversed key schedule undoes encryption.
\<close>

section \<open>The cipher\<close>

definition SB1 :: "u32 list" where
  "SB1 = [0x01010400, 0x00000000, 0x00010000, 0x01010404,
     0x01010004, 0x00010404, 0x00000004, 0x00010000,
     0x00000400, 0x01010400, 0x01010404, 0x00000400,
     0x01000404, 0x01010004, 0x01000000, 0x00000004,
     0x00000404, 0x01000400, 0x01000400, 0x00010400,
     0x00010400, 0x01010000, 0x01010000, 0x01000404,
     0x00010004, 0x01000004, 0x01000004, 0x00010004,
     0x00000000, 0x00000404, 0x00010404, 0x01000000,
     0x00010000, 0x01010404, 0x00000004, 0x01010000,
     0x01010400, 0x01000000, 0x01000000, 0x00000400,
     0x01010004, 0x00010000, 0x00010400, 0x01000004,
     0x00000400, 0x00000004, 0x01000404, 0x00010404,
     0x01010404, 0x00010004, 0x01010000, 0x01000404,
     0x01000004, 0x00000404, 0x00010404, 0x01010400,
     0x00000404, 0x01000400, 0x01000400, 0x00000000,
     0x00010004, 0x00010400, 0x00000000, 0x01010004]"

definition SB2 :: "u32 list" where
  "SB2 = [0x80108020, 0x80008000, 0x00008000, 0x00108020,
     0x00100000, 0x00000020, 0x80100020, 0x80008020,
     0x80000020, 0x80108020, 0x80108000, 0x80000000,
     0x80008000, 0x00100000, 0x00000020, 0x80100020,
     0x00108000, 0x00100020, 0x80008020, 0x00000000,
     0x80000000, 0x00008000, 0x00108020, 0x80100000,
     0x00100020, 0x80000020, 0x00000000, 0x00108000,
     0x00008020, 0x80108000, 0x80100000, 0x00008020,
     0x00000000, 0x00108020, 0x80100020, 0x00100000,
     0x80008020, 0x80100000, 0x80108000, 0x00008000,
     0x80100000, 0x80008000, 0x00000020, 0x80108020,
     0x00108020, 0x00000020, 0x00008000, 0x80000000,
     0x00008020, 0x80108000, 0x00100000, 0x80000020,
     0x00100020, 0x80008020, 0x80000020, 0x00100020,
     0x00108000, 0x00000000, 0x80008000, 0x00008020,
     0x80000000, 0x80100020, 0x80108020, 0x00108000]"

definition SB3 :: "u32 list" where
  "SB3 = [0x00000208, 0x08020200, 0x00000000, 0x08020008,
     0x08000200, 0x00000000, 0x00020208, 0x08000200,
     0x00020008, 0x08000008, 0x08000008, 0x00020000,
     0x08020208, 0x00020008, 0x08020000, 0x00000208,
     0x08000000, 0x00000008, 0x08020200, 0x00000200,
     0x00020200, 0x08020000, 0x08020008, 0x00020208,
     0x08000208, 0x00020200, 0x00020000, 0x08000208,
     0x00000008, 0x08020208, 0x00000200, 0x08000000,
     0x08020200, 0x08000000, 0x00020008, 0x00000208,
     0x00020000, 0x08020200, 0x08000200, 0x00000000,
     0x00000200, 0x00020008, 0x08020208, 0x08000200,
     0x08000008, 0x00000200, 0x00000000, 0x08020008,
     0x08000208, 0x00020000, 0x08000000, 0x08020208,
     0x00000008, 0x00020208, 0x00020200, 0x08000008,
     0x08020000, 0x08000208, 0x00000208, 0x08020000,
     0x00020208, 0x00000008, 0x08020008, 0x00020200]"

definition SB4 :: "u32 list" where
  "SB4 = [0x00802001, 0x00002081, 0x00002081, 0x00000080,
     0x00802080, 0x00800081, 0x00800001, 0x00002001,
     0x00000000, 0x00802000, 0x00802000, 0x00802081,
     0x00000081, 0x00000000, 0x00800080, 0x00800001,
     0x00000001, 0x00002000, 0x00800000, 0x00802001,
     0x00000080, 0x00800000, 0x00002001, 0x00002080,
     0x00800081, 0x00000001, 0x00002080, 0x00800080,
     0x00002000, 0x00802080, 0x00802081, 0x00000081,
     0x00800080, 0x00800001, 0x00802000, 0x00802081,
     0x00000081, 0x00000000, 0x00000000, 0x00802000,
     0x00002080, 0x00800080, 0x00800081, 0x00000001,
     0x00802001, 0x00002081, 0x00002081, 0x00000080,
     0x00802081, 0x00000081, 0x00000001, 0x00002000,
     0x00800001, 0x00002001, 0x00802080, 0x00800081,
     0x00002001, 0x00002080, 0x00800000, 0x00802001,
     0x00000080, 0x00800000, 0x00002000, 0x00802080]"

definition SB5 :: "u32 list" where
  "SB5 = [0x00000100, 0x02080100, 0x02080000, 0x42000100,
     0x00080000, 0x00000100, 0x40000000, 0x02080000,
     0x40080100, 0x00080000, 0x02000100, 0x40080100,
     0x42000100, 0x42080000, 0x00080100, 0x40000000,
     0x02000000, 0x40080000, 0x40080000, 0x00000000,
     0x40000100, 0x42080100, 0x42080100, 0x02000100,
     0x42080000, 0x40000100, 0x00000000, 0x42000000,
     0x02080100, 0x02000000, 0x42000000, 0x00080100,
     0x00080000, 0x42000100, 0x00000100, 0x02000000,
     0x40000000, 0x02080000, 0x42000100, 0x40080100,
     0x02000100, 0x40000000, 0x42080000, 0x02080100,
     0x40080100, 0x00000100, 0x02000000, 0x42080000,
     0x42080100, 0x00080100, 0x42000000, 0x42080100,
     0x02080000, 0x00000000, 0x40080000, 0x42000000,
     0x00080100, 0x02000100, 0x40000100, 0x00080000,
     0x00000000, 0x40080000, 0x02080100, 0x40000100]"

definition SB6 :: "u32 list" where
  "SB6 = [0x20000010, 0x20400000, 0x00004000, 0x20404010,
     0x20400000, 0x00000010, 0x20404010, 0x00400000,
     0x20004000, 0x00404010, 0x00400000, 0x20000010,
     0x00400010, 0x20004000, 0x20000000, 0x00004010,
     0x00000000, 0x00400010, 0x20004010, 0x00004000,
     0x00404000, 0x20004010, 0x00000010, 0x20400010,
     0x20400010, 0x00000000, 0x00404010, 0x20404000,
     0x00004010, 0x00404000, 0x20404000, 0x20000000,
     0x20004000, 0x00000010, 0x20400010, 0x00404000,
     0x20404010, 0x00400000, 0x00004010, 0x20000010,
     0x00400000, 0x20004000, 0x20000000, 0x00004010,
     0x20000010, 0x20404010, 0x00404000, 0x20400000,
     0x00404010, 0x20404000, 0x00000000, 0x20400010,
     0x00000010, 0x00004000, 0x20400000, 0x00404010,
     0x00004000, 0x00400010, 0x20004010, 0x00000000,
     0x20404000, 0x20000000, 0x00400010, 0x20004010]"

definition SB7 :: "u32 list" where
  "SB7 = [0x00200000, 0x04200002, 0x04000802, 0x00000000,
     0x00000800, 0x04000802, 0x00200802, 0x04200800,
     0x04200802, 0x00200000, 0x00000000, 0x04000002,
     0x00000002, 0x04000000, 0x04200002, 0x00000802,
     0x04000800, 0x00200802, 0x00200002, 0x04000800,
     0x04000002, 0x04200000, 0x04200800, 0x00200002,
     0x04200000, 0x00000800, 0x00000802, 0x04200802,
     0x00200800, 0x00000002, 0x04000000, 0x00200800,
     0x04000000, 0x00200800, 0x00200000, 0x04000802,
     0x04000802, 0x04200002, 0x04200002, 0x00000002,
     0x00200002, 0x04000000, 0x04000800, 0x00200000,
     0x04200800, 0x00000802, 0x00200802, 0x04200800,
     0x00000802, 0x04000002, 0x04200802, 0x04200000,
     0x00200800, 0x00000000, 0x00000002, 0x04200802,
     0x00000000, 0x00200802, 0x04200000, 0x00000800,
     0x04000002, 0x04000800, 0x00000800, 0x00200002]"

definition SB8 :: "u32 list" where
  "SB8 = [0x10001040, 0x00001000, 0x00040000, 0x10041040,
     0x10000000, 0x10001040, 0x00000040, 0x10000000,
     0x00040040, 0x10040000, 0x10041040, 0x00041000,
     0x10041000, 0x00041040, 0x00001000, 0x00000040,
     0x10040000, 0x10000040, 0x10001000, 0x00001040,
     0x00041000, 0x00040040, 0x10040040, 0x10041000,
     0x00001040, 0x00000000, 0x00000000, 0x10040040,
     0x10000040, 0x10001000, 0x00041040, 0x00040000,
     0x00041040, 0x00040000, 0x10041000, 0x00001000,
     0x00000040, 0x10040040, 0x00001000, 0x00041040,
     0x10001000, 0x00000040, 0x10000040, 0x10040000,
     0x10040040, 0x10000000, 0x00040000, 0x10001040,
     0x00000000, 0x10041040, 0x00040040, 0x10000040,
     0x10040000, 0x10001000, 0x10001040, 0x00000000,
     0x10041040, 0x00041000, 0x00041000, 0x00001040,
     0x00001040, 0x00040040, 0x10000000, 0x10041000]"

definition LHs :: "u32 list" where
  "LHs = [0x00000000, 0x00000001, 0x00000100, 0x00000101,
     0x00010000, 0x00010001, 0x00010100, 0x00010101,
     0x01000000, 0x01000001, 0x01000100, 0x01000101,
     0x01010000, 0x01010001, 0x01010100, 0x01010101]"

definition RHs :: "u32 list" where
  "RHs = [0x00000000, 0x01000000, 0x00010000, 0x01010000,
     0x00000100, 0x01000100, 0x00010100, 0x01010100,
     0x00000001, 0x01000001, 0x00010001, 0x01010001,
     0x00000101, 0x01000101, 0x00010101, 0x01010101]"

text \<open>Assignments \<open>T = ((X >> n) ^ Y) & m; Y ^= T; X ^= T << n\<close>, returning the new \<open>X\<close> and \<open>Y\<close>.\<close>

definition bit_swap :: "nat \<Rightarrow> u32 \<Rightarrow> u32 \<Rightarrow> u32 \<Rightarrow> u32 \<times> u32" where
  "bit_swap n msk X Y = (let T = (drop_bit n X XOR Y) AND msk in (X XOR push_bit n T, Y XOR T))"

definition DES_IP :: "u32 \<Rightarrow> u32 \<Rightarrow> u32 \<times> u32" where
  "DES_IP X Y =
     (let (X, Y) = bit_swap 4 0x0F0F0F0F X Y;
          (X, Y) = bit_swap 16 0x0000FFFF X Y;
          (Y, X) = bit_swap 2 0x33333333 Y X;
          (Y, X) = bit_swap 8 0x00FF00FF Y X;
          Y = (push_bit 1 Y OR drop_bit 31 Y) AND 0xFFFFFFFF;
          (X, Y) = bit_swap 0 0xAAAAAAAA X Y;
          X = (push_bit 1 X OR drop_bit 31 X) AND 0xFFFFFFFF
      in (X, Y))"

definition DES_FP :: "u32 \<Rightarrow> u32 \<Rightarrow> u32 \<times> u32" where
  "DES_FP X Y =
     (let X = (push_bit 31 X OR drop_bit 1 X) AND 0xFFFFFFFF;
          (X, Y) = bit_swap 0 0xAAAAAAAA X Y;
          Y = (push_bit 31 Y OR drop_bit 1 Y) AND 0xFFFFFFFF;
          (Y, X) = bit_swap 8 0x00FF00FF Y X;
          (Y, X) = bit_swap 2 0x33333333 Y X;
          (X, Y) = bit_swap 16 0x0000FFFF X Y;
          (X, Y) = bit_swap 4 0x0F0F0F0F X Y
      in (X, Y))"

text \<open>A look-up \<open>SB[(T >> n) & 0x3F]\<close>.\<close>

definition sbox :: "u32 list \<Rightarrow> nat \<Rightarrow> u32 \<Rightarrow> u32" where
  "sbox SB n T = SB ! unat (drop_bit n T AND 0x3F)"

text \<open>\<open>DES_ROUND(X,Y)\<close> with the two subkeys it takes from \<open>SK\<close>; the result is the new \<open>Y\<close>.\<close>

definition DES_ROUND :: "u32 \<Rightarrow> u32 \<Rightarrow> u32 \<Rightarrow> u32 \<Rightarrow> u32" where
  "DES_ROUND k1 k2 X Y =
     (let T = k1 XOR X;
          Y = Y XOR (sbox SB8 0 T XOR sbox SB6 8 T XOR sbox SB4 16 T XOR sbox SB2 24 T);
          T = k2 XOR (push_bit 28 X OR drop_bit 4 X)
      in Y XOR (sbox SB7 0 T XOR sbox SB5 8 T XOR sbox SB3 16 T XOR sbox SB1 24 T))"

text \<open>Permuted choice 1: the two exchanges, and the look-ups for each half.\<close>

definition pc1_left :: "u32 \<Rightarrow> u32" where
  "pc1_left X = (let L = (\<lambda>n. LHs ! unat (drop_bit n X AND 0xF)) in
     push_bit 3 (L 0) OR push_bit 2 (L 8) OR push_bit 1 (L 16) OR L 24 OR
     push_bit 7 (L 5) OR push_bit 6 (L 13) OR push_bit 5 (L 21) OR push_bit 4 (L 29))"

definition pc1_right :: "u32 \<Rightarrow> u32" where
  "pc1_right Y = (let R = (\<lambda>n. RHs ! unat (drop_bit n Y AND 0xF)) in
     push_bit 3 (R 1) OR push_bit 2 (R 9) OR push_bit 1 (R 17) OR R 25 OR
     push_bit 7 (R 4) OR push_bit 6 (R 12) OR push_bit 5 (R 20) OR push_bit 4 (R 28))"

text \<open>The two subkeys of a pass of the key schedule.\<close>

definition subkey1 :: "u32 \<Rightarrow> u32 \<Rightarrow> u32" where
  "subkey1 X Y =
     (push_bit 4 X AND 0x24000000) OR (push_bit 28 X AND 0x10000000) OR
     (push_bit 14 X AND 0x08000000) OR (push_bit 18 X AND 0x02080000) OR
     (push_bit 6 X AND 0x01000000) OR (push_bit 9 X AND 0x00200000) OR
     (drop_bit 1 X AND 0x00100000) OR (push_bit 10 X AND 0x00040000) OR
     (push_bit 2 X AND 0x00020000) OR (drop_bit 10 X AND 0x00010000) OR
     (drop_bit 13 Y AND 0x00002000) OR (drop_bit 4 Y AND 0x00001000) OR
     (push_bit 6 Y AND 0x00000800) OR (drop_bit 1 Y AND 0x00000400) OR
     (drop_bit 14 Y AND 0x00000200) OR (Y AND 0x00000100) OR
     (drop_bit 5 Y AND 0x00000020) OR (drop_bit 10 Y AND 0x00000010) OR
     (drop_bit 3 Y AND 0x00000008) OR (drop_bit 18 Y AND 0x00000004) OR
     (drop_bit 26 Y AND 0x00000002) OR (drop_bit 24 Y AND 0x00000001)"

definition subkey2 :: "u32 \<Rightarrow> u32 \<Rightarrow> u32" where
  "subkey2 X Y =
     (push_bit 15 X AND 0x20000000) OR (push_bit 17 X AND 0x10000000) OR
     (push_bit 10 X AND 0x08000000) OR (push_bit 22 X AND 0x04000000) OR
     (drop_bit 2 X AND 0x02000000) OR (push_bit 1 X AND 0x01000000) OR
     (push_bit 16 X AND 0x00200000) OR (push_bit 11 X AND 0x00100000) OR
     (push_bit 3 X AND 0x00080000) OR (drop_bit 6 X AND 0x00040000) OR
     (push_bit 15 X AND 0x00020000) OR (drop_bit 4 X AND 0x00010000) OR
     (drop_bit 2 Y AND 0x00002000) OR (push_bit 8 Y AND 0x00001000) OR
     (drop_bit 14 Y AND 0x00000808) OR (drop_bit 9 Y AND 0x00000400) OR
     (Y AND 0x00000200) OR (push_bit 7 Y AND 0x00000100) OR
     (drop_bit 7 Y AND 0x00000020) OR (drop_bit 3 Y AND 0x00000011) OR
     (push_bit 2 Y AND 0x00000004) OR (drop_bit 21 Y AND 0x00000002)"

definition rotate28 :: "nat \<Rightarrow> u32 \<Rightarrow> u32" where
  "rotate28 n X = (push_bit n X OR drop_bit (28 - n) X) AND 0x0FFFFFFF"

text \<open>The loop over \<open>i\<close>, \<open>n\<close> passes before its end.\<close>

fun subkeys :: "nat \<Rightarrow> u32 \<Rightarrow> u32 \<Rightarrow> u32 list" where
  "subkeys 0 X Y = []"
| "subkeys (Suc n) X Y =
     (let i = 16 - Suc n;
          k = (if i < 2 \<or> i = 8 \<or> i = 15 then 1 else 2);
          X = rotate28 k X;
          Y = rotate28 k Y
      in subkey1 X Y # subkey2 X Y # subkeys n X Y)"

definition des_setkey :: "bytes \<Rightarrow> u32 list" where
  "des_setkey key =
     (let X = GET_ULONG_BE key 0;
          Y = GET_ULONG_BE key 4;
          (Y, X) = bit_swap 4 0x0F0F0F0F Y X;
          (Y, X) = bit_swap 0 0x10101010 Y X;
          X = pc1_left X AND 0x0FFFFFFF;
          Y = pc1_right Y AND 0x0FFFFFFF
      in subkeys 16 X Y)"

definition des_setkey_enc :: "bytes \<Rightarrow> u32 list" where
  "des_setkey_enc key = des_setkey key"

definition SWAP :: "nat \<Rightarrow> nat \<Rightarrow> u32 list \<Rightarrow> u32 list" where
  "SWAP a b sk = sk[a := sk ! b, b := sk ! a]"

definition des_setkey_dec :: "bytes \<Rightarrow> u32 list" where
  "des_setkey_dec key = fold (\<lambda>i sk. SWAP (i + 1) (31 - i) (SWAP i (30 - i) sk))
     [0, 2, 4, 6, 8, 10, 12, 14] (des_setkey key)"

text \<open>The loop of eight double rounds; \<open>None\<close> when the subkeys run out.\<close>

fun des_rounds :: "nat \<Rightarrow> u32 list \<Rightarrow> u32 \<Rightarrow> u32 \<Rightarrow> (u32 \<times> u32) option" where
  "des_rounds 0 SK X Y = Some (X, Y)"
| "des_rounds (Suc n) (k1 # k2 # k3 # k4 # SK) X Y =
     (let X = DES_ROUND k1 k2 Y X;
          Y = DES_ROUND k3 k4 X Y
      in des_rounds n SK X Y)"
| "des_rounds (Suc n) SK X Y = None"

definition des_crypt_ecb :: "u32 list \<Rightarrow> bytes \<Rightarrow> bytes option" where
  "des_crypt_ecb sk input = do {
     let X = GET_ULONG_BE input 0;
     let Y = GET_ULONG_BE input 4;
     let (X, Y) = DES_IP X Y;
     (X, Y) \<leftarrow> des_rounds 8 sk X Y;
     let (Y, X) = DES_FP Y X;
     Some (PUT_ULONG_BE Y @ PUT_ULONG_BE X)
   }"

section \<open>The permutations\<close>

lemma bit_swap_inverse:
  assumes "take_bit (32 - n) msk = msk" "n \<le> 32"
  shows "(case bit_swap n msk X Y of (X', Y') \<Rightarrow> bit_swap n msk X' Y') = (X, Y)"
proof -
  define T where "T = (drop_bit n X XOR Y) AND msk"
  have "drop_bit n (push_bit n T) = take_bit (32 - n) T"
    using assms(2) by (intro bit_word_eqI) (auto simp: bit_simps)
  also have "\<dots> = T"
  proof (rule bit_word_eqI)
    fix i assume "i < LENGTH(32)"
    have "bit msk i \<longleftrightarrow> i < 32 - n \<and> bit msk i" by (subst assms(1)[symmetric]) (simp add: bit_simps)
    then show "bit (take_bit (32 - n) T) i = bit T i" by (auto simp: T_def bit_simps)
  qed
  finally have dp: "drop_bit n (push_bit n T) = T" .
  have "(drop_bit n (X XOR push_bit n T) XOR (Y XOR T)) AND msk = T"
    unfolding drop_bit_xor dp by (simp add: T_def xor.assoc xor.commute xor.left_commute)
  then show ?thesis
    unfolding bit_swap_def Let_def prod.case T_def[symmetric] by (simp only: xor.assoc xor_self_eq xor.right_neutral)
qed

lemma rotate_inverse:
  fixes X :: u32
  assumes "n + m = 32"
  shows "(push_bit m ((push_bit n X OR drop_bit m X) AND 0xFFFFFFFF) OR
    drop_bit n ((push_bit n X OR drop_bit m X) AND 0xFFFFFFFF)) AND 0xFFFFFFFF = X"
proof -
  have full: "w AND 0xFFFFFFFF = w" for w :: u32
  proof -
    have "(0xFFFFFFFF :: u32) = - 1" by simp
    then show ?thesis by (simp only: and.right_neutral)
  qed
  show ?thesis
    unfolding full
  proof (rule bit_word_eqI)
    fix i assume "i < LENGTH(32)"
    then show "bit (push_bit m (push_bit n X OR drop_bit m X) OR drop_bit n (push_bit n X OR drop_bit m X)) i = bit X i"
      using assms bit_imp_le_length[of X "m + (n + i)"] by (auto simp: bit_simps)
  qed
qed

lemma sum32: "1 + 31 = (32 :: nat)" "31 + 1 = (32 :: nat)"
  by simp_all

lemmas rotate_inverses = sum32[THEN rotate_inverse]

lemma swap_back:
  "bit_swap n msk X Y = (X', Y') \<Longrightarrow> take_bit (32 - n) msk = msk \<Longrightarrow> n \<le> 32 \<Longrightarrow> bit_swap n msk X' Y' = (X, Y)"
  using bit_swap_inverse[of n msk X Y] by simp

lemma FP_IP: "(case DES_IP X Y of (X', Y') \<Rightarrow> DES_FP X' Y') = (X, Y)"
proof -
  obtain X1 Y1 where 1: "bit_swap 4 0x0F0F0F0F X Y = (X1, Y1)" by fastforce
  obtain X2 Y2 where 2: "bit_swap 16 0x0000FFFF X1 Y1 = (X2, Y2)" by fastforce
  obtain Y3 X3 where 3: "bit_swap 2 0x33333333 Y2 X2 = (Y3, X3)" by fastforce
  obtain Y4 X4 where 4: "bit_swap 8 0x00FF00FF Y3 X3 = (Y4, X4)" by fastforce
  define Y5 where "Y5 = (push_bit 1 Y4 OR drop_bit 31 Y4) AND 0xFFFFFFFF"
  obtain X6 Y6 where 6: "bit_swap 0 0xAAAAAAAA X4 Y5 = (X6, Y6)" by fastforce
  define X7 where "X7 = (push_bit 1 X6 OR drop_bit 31 X6) AND 0xFFFFFFFF"
  have r: "(push_bit 31 Y5 OR drop_bit 1 Y5) AND 0xFFFFFFFF = Y4" "(push_bit 31 X7 OR drop_bit 1 X7) AND 0xFFFFFFFF = X6"
    unfolding Y5_def X7_def by (rule rotate_inverses)+
  have ip: "DES_IP X Y = (X7, Y6)"
    unfolding DES_IP_def Let_def 1 2 3 4 6 prod.case Y5_def[symmetric] X7_def[symmetric] ..
  note b = 1[THEN swap_back] 2[THEN swap_back] 3[THEN swap_back] 4[THEN swap_back] 6[THEN swap_back]
  show ?thesis
    unfolding ip prod.case DES_FP_def Let_def r
    using b r by simp
qed

text \<open>On a finite type a left inverse is a right inverse.\<close>

lemma IP_FP: "(case DES_FP X Y of (X', Y') \<Rightarrow> DES_IP X' Y') = (X, Y)"
proof -
  let ?ip = "case_prod DES_IP" and ?fp = "case_prod DES_FP"
  have inv: "?fp (?ip p) = p" for p using FP_IP by (cases p) (simp add: case_prod_beta)
  then have "inj ?ip" by (metis injI)
  then have "surj ?ip" by (rule finite_UNIV_inj_surj[OF finite])
  then obtain p where "?ip p = (X, Y)" by (metis surjD)
  then have "?ip (?fp (X, Y)) = (X, Y)" using inv[of p] by simp
  then show ?thesis by (simp add: case_prod_beta)
qed

section \<open>The rounds\<close>

lemma round_involution: "DES_ROUND k1 k2 X (DES_ROUND k1 k2 X Y) = Y"
  by (simp add: DES_ROUND_def Let_def xor.assoc xor.left_commute)

text \<open>The subkeys as pairs, one pair a round; a double round with both pairs.\<close>

fun pairs :: "u32 list \<Rightarrow> (u32 \<times> u32) list" where
  "pairs (a # b # sk) = (a, b) # pairs sk"
| "pairs sk = []"

text \<open>A round that exchanges the halves.\<close>

definition feistel :: "u32 \<times> u32 \<Rightarrow> u32 \<times> u32 \<Rightarrow> u32 \<times> u32" where
  "feistel k h = (snd h, DES_ROUND (fst k) (snd k) (snd h) (fst h))"

lemma feistel_back: "prod.swap (feistel k (prod.swap (feistel k h))) = h"
  by (simp add: feistel_def round_involution)

lemma fold_feistel_back:
  "prod.swap (fold feistel (rev ks) (prod.swap (fold feistel ks h))) = h"
proof (induction ks arbitrary: h)
  case (Cons k ks)
  have "fold feistel (rev (k # ks)) (prod.swap (fold feistel (k # ks) h)) =
      feistel k (fold feistel (rev ks) (prod.swap (fold feistel ks (feistel k h))))"
    by simp
  also have "\<dots> = feistel k (prod.swap (feistel k h))"
    using Cons.IH[of "feistel k h"] by (metis swap_swap)
  finally show ?case using feistel_back by simp
qed simp

lemma des_rounds_feistel:
  "length SK = 4 * n \<Longrightarrow> des_rounds n SK X Y = Some (fold feistel (pairs SK) (X, Y))"
proof (induction n arbitrary: SK X Y)
  case (Suc n)
  then have "length SK = Suc (Suc (Suc (Suc (4 * n))))" by simp
  then obtain a b c d SK' where SK: "SK = a # b # c # d # SK'" by (auto simp: length_Suc_conv)
  show ?case using Suc unfolding SK by (simp add: feistel_def Let_def)
qed simp

lemma length_subkeys [simp]: "length (subkeys n X Y) = 2 * n"
  by (induction n arbitrary: X Y) (simp_all add: Let_def)

lemma length_des_setkey [simp]: "length (des_setkey key) = 32"
  by (simp add: des_setkey_def Let_def split: prod.split)

lemma setkey_dec_pairs: "pairs (des_setkey_dec key) = rev (pairs (des_setkey_enc key))"
proof -
  define f where "f = (!) (des_setkey key)"
  have "des_setkey key = map f [0..<32]" using map_nth[of "des_setkey key"] by (simp add: f_def)
  also have "[0..<32] = [0, 1, 2, 3, 4, 5, 6, 7, 8, 9, 10, 11, 12, 13, 14, 15, 16, 17, 18, 19, 20, 21, 22,
      23, 24, 25, 26, 27, 28, 29, 30, 31]" by (simp add: upt_rec)
  finally have sk: "des_setkey key = map f [0, 1, 2, 3, 4, 5, 6, 7, 8, 9, 10, 11, 12, 13, 14, 15, 16, 17,
      18, 19, 20, 21, 22, 23, 24, 25, 26, 27, 28, 29, 30, 31]" .
  show ?thesis unfolding des_setkey_dec_def des_setkey_enc_def SWAP_def sk by simp
qed

text \<open>The cipher on the two halves, and the blocks as halves.\<close>

definition des_halves :: "u32 list \<Rightarrow> u32 \<times> u32 \<Rightarrow> u32 \<times> u32" where
  "des_halves sk h = case_prod DES_FP (prod.swap (fold feistel (pairs sk) (case_prod DES_IP h)))"

definition get_halves :: "bytes \<Rightarrow> u32 \<times> u32" where
  "get_halves b = (GET_ULONG_BE b 0, GET_ULONG_BE b 4)"

definition put_halves :: "u32 \<times> u32 \<Rightarrow> bytes" where
  "put_halves h = PUT_ULONG_BE (fst h) @ PUT_ULONG_BE (snd h)"

lemma des_crypt_halves:
  "length sk = 32 \<Longrightarrow> des_crypt_ecb sk input = Some (put_halves (des_halves sk (get_halves input)))"
  by (simp add: des_crypt_ecb_def des_halves_def get_halves_def put_halves_def des_rounds_feistel
    Let_def case_prod_beta prod.swap_def)

lemma des_halves_inverse:
  assumes "pairs sk' = rev (pairs sk)"
  shows "des_halves sk' (des_halves sk h) = h"
proof -
  define e where "e = fold feistel (pairs sk) (case_prod DES_IP h)"
  have "case_prod DES_IP (case_prod DES_FP (prod.swap e)) = prod.swap e"
    using IP_FP[of "snd e" "fst e"] by (simp add: case_prod_beta prod.swap_def)
  then have "des_halves sk' (des_halves sk h) = case_prod DES_FP (prod.swap (fold feistel (rev (pairs sk)) (prod.swap e)))"
    by (simp add: des_halves_def e_def assms)
  also have "\<dots> = case_prod DES_FP (case_prod DES_IP h)"
    using fold_feistel_back[of "pairs sk"] by (simp add: e_def)
  also have "\<dots> = h" using FP_IP[of "fst h" "snd h"] by (simp add: case_prod_beta)
  finally show ?thesis .
qed

lemma GET_BE_le32: "GET_ULONG_BE b i = le32 (b ! (i + 3)) (b ! (i + 2)) (b ! (i + 1)) (b ! i)"
  by (simp add: GET_ULONG_BE_def le32_def or.assoc or.commute or.left_commute)

lemma PUT_BE_bytes: "PUT_ULONG_BE w = [byte_at 3 w, byte_at 2 w, byte_at 1 w, byte_at 0 w]"
  by (simp add: PUT_ULONG_BE_def byte_at_def)

lemma PUT_GET_BE: "PUT_ULONG_BE (GET_ULONG_BE b i) = [b ! i, b ! (i + 1), b ! (i + 2), b ! (i + 3)]"
  by (simp add: GET_BE_le32 PUT_BE_bytes)

lemma GET_PUT_BE: "GET_ULONG_BE (PUT_ULONG_BE w @ x) 0 = w"
  using le32_byte_at[of w] by (simp add: GET_BE_le32 PUT_BE_bytes numeral_eq_Suc)

lemma get_put_halves: "get_halves (put_halves h) = h"
proof -
  have "GET_ULONG_BE (PUT_ULONG_BE v @ x) 4 = GET_ULONG_BE x 0" for v x
    by (simp add: GET_ULONG_BE_def PUT_ULONG_BE_def nth_append numeral_eq_Suc)
  then show ?thesis using GET_PUT_BE[of _ "[]"] GET_PUT_BE by (simp add: get_halves_def put_halves_def)
qed

lemma put_get_halves: "length b = 8 \<Longrightarrow> put_halves (get_halves b) = b"
proof -
  assume b: "length b = 8"
  have "[b ! 0, b ! 1, b ! 2, b ! 3] @ [b ! 4, b ! 5, b ! 6, b ! 7] = map ((!) b) [0..<8]"
    by (simp add: upt_rec eval_nat_numeral)
  also have "\<dots> = b" using map_nth[of b] b by simp
  finally show ?thesis by (simp add: put_halves_def get_halves_def PUT_GET_BE eval_nat_numeral)
qed

lemma length_put_halves [simp]: "length (put_halves h) = 8"
  by (simp add: put_halves_def PUT_ULONG_BE_def)

lemma length_setkey_dec [simp]: "length (des_setkey_dec key) = 32"
  by (simp add: des_setkey_dec_def SWAP_def)

text \<open>
  C29: Decryption with DES undoes encryption: for every key and every block of eight bytes,
  \<open>des_crypt_ecb\<close> with the subkeys of \<open>des_setkey_enc\<close> returns a block, and \<open>des_crypt_ecb\<close>
  with the subkeys of \<open>des_setkey_dec\<close> turns it back into the first.
\<close>

theorem des_decrypts:
  assumes "length key = 8" "length input = 8"
  shows "\<exists>out. des_crypt_ecb (des_setkey_enc key) input = Some out \<and> length out = 8 \<and>
    des_crypt_ecb (des_setkey_dec key) out = Some input"
  using assms(2) des_halves_inverse[OF setkey_dec_pairs]
  by (simp add: des_crypt_halves des_setkey_enc_def get_put_halves put_get_halves)

theorem des_decrypts_witness:
  "\<exists>out. des_crypt_ecb (des_setkey_enc [1, 2, 3, 4, 5, 6, 7, 8]) (ascii ''KGS!@#$%'') = Some out \<and> length out = 8 \<and>
    des_crypt_ecb (des_setkey_dec [1, 2, 3, 4, 5, 6, 7, 8]) out = Some (ascii ''KGS!@#$%'')"
  by (rule des_decrypts) simp_all

end
