(* ===== verification/PppCrypt.thy ===== *)
theory PppCrypt
  imports Des
begin

text \<open>
  The expansion of a 56-bit key to the eight bytes that DES takes,
  \<open>src/src/lwip/netif/ppp/pppcrypt.c\<close>. The eight bytes carry the 56 bits in order, seven in
  each, the lowest bit clear; but the last byte is cut out of a pair of bytes whose second is
  the eighth, so a key of seven bytes is read past its end.
\<close>

definition pppcrypt_get_7bits :: "bytes \<Rightarrow> nat \<Rightarrow> u8 option" where
  "pppcrypt_get_7bits input startBit = do {
     a \<leftarrow> aget input (startBit div 8);
     b \<leftarrow> aget input (startBit div 8 + 1);
     let word = (push_bit 8 (ucast a) OR ucast b :: u32);
     let word = drop_bit (15 - (startBit mod 8 + 7)) word;
     Some (ucast (word AND 0xFE))
   }"

definition pppcrypt_56_to_64_bit_key :: "bytes \<Rightarrow> bytes \<Rightarrow> bytes option" where
  "pppcrypt_56_to_64_bit_key key des_key = do {
     v \<leftarrow> pppcrypt_get_7bits key 0; des_key \<leftarrow> aset des_key 0 v;
     v \<leftarrow> pppcrypt_get_7bits key 7; des_key \<leftarrow> aset des_key 1 v;
     v \<leftarrow> pppcrypt_get_7bits key 14; des_key \<leftarrow> aset des_key 2 v;
     v \<leftarrow> pppcrypt_get_7bits key 21; des_key \<leftarrow> aset des_key 3 v;
     v \<leftarrow> pppcrypt_get_7bits key 28; des_key \<leftarrow> aset des_key 4 v;
     v \<leftarrow> pppcrypt_get_7bits key 35; des_key \<leftarrow> aset des_key 5 v;
     v \<leftarrow> pppcrypt_get_7bits key 42; des_key \<leftarrow> aset des_key 6 v;
     v \<leftarrow> pppcrypt_get_7bits key 49; des_key \<leftarrow> aset des_key 7 v;
     Some des_key
   }"

text \<open>Bit \<open>k\<close> of a byte string, counted from the first byte's highest bit.\<close>

definition stream_bit :: "bytes \<Rightarrow> nat \<Rightarrow> bool" where
  "stream_bit b k = bit (b ! (k div 8)) (7 - k mod 8)"

lemma get_7bits_bit:
  assumes s: "s div 8 + 1 < length key" and j: "j < 8"
  shows "\<exists>v. pppcrypt_get_7bits key s = Some v \<and> (bit v (7 - j) \<longleftrightarrow> j < 7 \<and> stream_bit key (s + j))"
proof -
  define q r where "q = s div 8" and "r = s mod 8"
  have sq: "s = 8 * q + r" and r: "r < 8" by (simp_all add: q_def r_def)
  let ?a = "key ! q" and ?b = "key ! (q + 1)"
  let ?w = "push_bit 8 (ucast ?a) OR ucast ?b :: u32"
  have v: "pppcrypt_get_7bits key s = Some (ucast (drop_bit (15 - (r + 7)) ?w AND 0xFE))"
    using s by (simp add: pppcrypt_get_7bits_def q_def r_def Let_def)
  have fe: "bit (0xFE :: u32) (7 - j) \<longleftrightarrow> j < 7"
  proof -
    have "(0xFE :: u32) = push_bit 1 (mask 7)" by (simp add: mask_eq_decr_exp)
    then have "bit (0xFE :: u32) (7 - j) = bit (push_bit 1 (mask 7) :: u32) (7 - j)" by (rule arg_cong)
    also have "\<dots> = (j < 7)" using j by (simp only: bit_push_bit_iff bit_mask_iff) auto
    finally show ?thesis .
  qed
  have pos: "(15 - (r + 7)) + (7 - j) = 15 - (r + j)" using r j by simp
  have "bit (ucast (drop_bit (15 - (r + 7)) ?w AND 0xFE) :: u8) (7 - j) \<longleftrightarrow> j < 7 \<and> bit ?w (15 - (r + j))"
    using fe pos j by (auto simp: bit_simps simp del: One_nat_def)
  also have "(j < 7 \<and> bit ?w (15 - (r + j))) \<longleftrightarrow> j < 7 \<and> stream_bit key (s + j)"
  proof (cases "r + j < 8")
    case True
    have "s + j = (r + j) + 8 * q" using sq by simp
    then have "(s + j) div 8 = q" "(s + j) mod 8 = r + j"
      using True by (simp_all only: div_mult_self2 mod_mult_self2) simp_all
    moreover have "15 - (r + j) = 8 + (7 - (r + j))" using True by simp
    ultimately show ?thesis using True by (auto simp: stream_bit_def bit_simps)
  next
    case False
    define t where "t = r + j - 8"
    have t: "s + j = t + 8 * (q + 1)" "r + j = t + 8" "t < 8" using False sq r j by (auto simp: t_def)
    have "(s + j) div 8 = q + 1" "(s + j) mod 8 = t"
      using t(3) by (simp_all only: t(1) div_mult_self2 mod_mult_self2) simp_all
    then show ?thesis using t by (auto simp: stream_bit_def bit_simps)
  qed
  finally show ?thesis using v by blast
qed

lemma expand_eq:
  assumes "8 \<le> length key" "length des_key = 8"
  shows "\<exists>out. pppcrypt_56_to_64_bit_key key des_key = Some out \<and> length out = 8 \<and>
    (\<forall>i<8. pppcrypt_get_7bits key (7 * i) = Some (out ! i))"
proof -
  have "\<exists>v. pppcrypt_get_7bits key s = Some v" if "s \<le> 49" for s
    using that assms(1) by (intro exI) (simp add: pppcrypt_get_7bits_def Let_def)
  then obtain f where f: "s \<le> 49 \<Longrightarrow> pppcrypt_get_7bits key s = Some (f s)" for s by metis
  let ?out = "[f 0, f 7, f 14, f 21, f 28, f 35, f 42, f 49]"
  have d: "des_key = map ((!) des_key) [0, 1, 2, 3, 4, 5, 6, 7]"
    using map_nth[of des_key] assms(2) by (simp add: upt_rec eval_nat_numeral)
  have "pppcrypt_56_to_64_bit_key key des_key = Some ?out"
    unfolding pppcrypt_56_to_64_bit_key_def by (subst d) (simp add: f)
  moreover have "\<forall>i<8. pppcrypt_get_7bits key (7 * i) = Some (?out ! i)"
    by (simp add: f less_Suc_eq numeral_eq_Suc)
  ultimately show ?thesis by (intro exI[of _ ?out]) simp
qed

text \<open>
  C32: If at least one byte follows the seven bytes of the key, so that eight bytes can be read,
  the key expansion returns and keeps all 56 bits in order: the byte \<open>i\<close> of the expanded key
  carries the bits \<open>7 * i\<close> to \<open>7 * i + 6\<close> of the key from its highest bit down. Its lowest bit is
  clear: no parity bit is added, which the comment on the function says it does.
\<close>

theorem expanded_key_bits:
  assumes "8 \<le> length key" "length des_key = 8"
  shows "\<exists>out. pppcrypt_56_to_64_bit_key key des_key = Some out \<and> length out = 8 \<and>
    (\<forall>i<8. \<forall>j<8. bit (out ! i) (7 - j) \<longleftrightarrow> j < 7 \<and> stream_bit key (7 * i + j))"
proof -
  obtain out where out: "pppcrypt_56_to_64_bit_key key des_key = Some out" "length out = 8"
    "\<forall>i<8. pppcrypt_get_7bits key (7 * i) = Some (out ! i)"
    using expand_eq[OF assms] by blast
  have "bit (out ! i) (7 - j) \<longleftrightarrow> j < 7 \<and> stream_bit key (7 * i + j)" if "i < 8" "j < 8" for i j
  proof -
    have "7 * i div 8 + 1 < length key" using that(1) assms(1) by auto
    from get_7bits_bit[OF this that(2)] out(3) that(1) show ?thesis by auto
  qed
  then show ?thesis using out(1,2) by blast
qed

theorem expanded_key_bits_witness:
  "\<exists>out. pppcrypt_56_to_64_bit_key [1, 2, 3, 4, 5, 6, 7, 0] (replicate 8 0) = Some out \<and> length out = 8 \<and>
    (\<forall>i<8. \<forall>j<8. bit (out ! i) (7 - j) \<longleftrightarrow> j < 7 \<and> stream_bit [1, 2, 3, 4, 5, 6, 7, 0] (7 * i + j))"
  by (rule expanded_key_bits) simp_all

text \<open>
  C33: A key of 56 bits, seven bytes, is read past its end. MS-CHAP passes the last seven of the
  21 bytes of the padded password hash, and no byte follows them.
\<close>

theorem key_overread:
  assumes "length key = 7"
  shows "pppcrypt_56_to_64_bit_key key des_key = None"
proof -
  have "pppcrypt_get_7bits key 49 = None" using assms by (simp add: pppcrypt_get_7bits_def)
  then show ?thesis by (simp add: pppcrypt_56_to_64_bit_key_def bind_eq_None_conv)
qed

theorem key_overread_witness:
  "pppcrypt_56_to_64_bit_key (drop 14 (replicate 21 0)) (replicate 8 0) = None"
  by (rule key_overread) simp

end
