(* ===== verification/Spec2Isabelle.thy ===== *)
theory Spec2Isabelle
  imports Shell HttpClient LwipPort Timeouts RamDisk NetStack InetChksum Ip4Addr LwMem Md4 Md5 Sha1 Arc4 PppCrypt
begin

text \<open>
  \<^bold>\<open>A verification development of ZanOS.\<close>

  ZanOS is a kernel for a Cortex-M3 board (Stellaris, run in QEMU): a UART console with a small
  shell, a bump allocator, a RAM disk, a clock, an Ethernet driver, a packet handler of its own
  and, beside it, the TCP/IP stack lwIP with an HTTP client on top. The shell loop of
  \<open>src/src/main.c\<close> waits for characters and polls lwIP meanwhile; lwIP gets frames from the
  Ethernet driver through \<open>src/src/lwip_port.c\<close>, takes memory from its heap and its pools, keeps
  its timers in a sorted list and calls back the HTTP client.

  \<^bold>\<open>Conventions.\<close> The theory \<open>Prelude\<close> has the machine types: \<open>u8\<close>, \<open>u16\<close> and \<open>u32\<close> are words, and
  their arithmetic wraps as on the target. Array objects are lists with checked accesses, C
  structures are records, and fallible or looping code returns an \<open>option\<close>. \<open>None\<close> always
  means that the code leaves the defined behaviour: an access outside an object, a failed
  \<open>LWIP_ASSERT\<close> (which stops in an endless loop), or waiting forever. So a theorem that an
  operation is \<open>Some\<close> says that it returns and that it is memory safe. Results that the source
  reports as errors (\<open>-1\<close>, null pointers, \<open>err_t\<close>) are values inside \<open>Some\<close>.

  \<^bold>\<open>The kernel.\<close>
  \<^item> \<open>Console\<close> and \<open>Uart\<close>: \<open>src/src/uart.c\<close>. The locale \<open>console\<close> is what printing code relies on;
    the driver interprets it as \<open>tty\<close>. The device chooses the values of the registers.
  \<^item> \<open>CStrings\<close>: \<open>src/src/strings.c\<close> and \<open>ctype.h\<close>, with their results in terms of lists.
  \<^item> \<open>Arena\<close> and \<open>KHeap\<close>: the allocator of \<open>src/src/heap.c\<close>. Blocks are disjoint as long as no
    request wraps around; what happens when one does.
  \<^item> \<open>Rtc\<close> and \<open>Diag\<close>: \<open>src/src/rtc.c\<close>, \<open>kernel_log.c\<close> and \<open>delay.c\<close>. The time shown is the number of
    elapsed seconds, and it wraps with the counter.
  \<^item> \<open>Refinement\<close> and \<open>RamDisk\<close>: \<open>src/src/ramdisk.c\<close>. Every run of the disk is simulated by a store
    of files by name; what is written is read back; names of more than 31 characters are lost.
  \<^item> \<open>Mmio\<close> and \<open>EthDrv\<close>: \<open>src/src/eth.c\<close>, \<open>interrupt.c\<close> and the clock and the critical sections of
    \<open>lwip_port.c\<close>. The exact sequence of register writes of sending and receiving, and that the
    two do not agree on the layout of a frame in the FIFO.
  \<^item> \<open>OnesSum\<close> and \<open>NetStack\<close>: \<open>src/src/net.c\<close>. Pings and ARP requests are answered with the right
    frame and a valid checksum; short and inconsistent frames are read past their end.
  \<^item> \<open>Shell\<close>: \<open>getline\<close>, \<open>lwip_poll\<close> and \<open>dns_callback\<close> of \<open>src/src/main.c\<close>. The line that \<open>getline\<close>
    returns is what the user typed with the rubbed out characters removed.
  \<^item> \<open>HttpClient\<close>: \<open>src/src/http_client.c\<close>. A step relation lets lwIP call the client back in any
    permitted order; the busy flag is set exactly while a callback is still owed, and the
    request is built inside its buffer exactly up to a given length.
  \<^item> \<open>LwipPort\<close>: the network interface of \<open>src/src/lwip_port.c\<close>.

  \<^bold>\<open>lwIP\<close> (\<open>src/src/lwip\<close>), configured by \<open>src/include/lwipopts.h\<close> with \<open>NO_SYS\<close> and IPv4 only.
  \<^item> \<open>LwipDef\<close>: \<open>core/def.c\<close>; \<open>InetChksum\<close>: \<open>core/inet_chksum.c\<close>, whose three variants agree and whose
    sum over a chain is that of the flat data; \<open>Ip4Addr\<close>: \<open>core/ipv4/ip4_addr.c\<close>, where printing and
    parsing an address are inverse.
  \<^item> \<open>LwMem\<close>: \<open>core/mem.c\<close>. The header words of the heap are refined by a list of block sizes with
    a flag; allocation is first fit, complete, and never overlaps.
  \<^item> \<open>Memp\<close>: \<open>core/memp.c\<close>, the pools, by the locale \<open>element_pool\<close>.
  \<^item> \<open>Timeouts\<close>: \<open>core/timeouts.c\<close>. In every reachable state the list is sorted, holds the cyclic
    timers and shares no element with the pool; checking the timers returns.
  \<^item> \<open>Digest\<close>, \<open>Md4\<close>, \<open>Md5\<close>, \<open>Sha1\<close>, \<open>Arc4\<close>, \<open>Des\<close>, \<open>PppCrypt\<close>: the cryptographic functions under
    \<open>netif/ppp\<close>, which are in the repository but which the \<open>Makefile\<close> leaves out of the kernel.
    Feeding a hash in pieces gives the padded reference hash; decryption undoes encryption.

  \<^bold>\<open>Interfaces.\<close> Each contract is a locale, interpreted on the model: \<open>console\<close> (\<open>tty\<close>), \<open>arena\<close>
  (\<open>kheap\<close>), \<open>element_pool\<close> (\<open>mp\<close>), \<open>refinement\<close> (\<open>rd\<close>, \<open>rmem\<close>), \<open>chksum\<close> (\<open>net_ck\<close>, \<open>lwip_ck\<close>) and
  \<open>md_hash\<close> (\<open>md4h\<close>, \<open>md5h\<close>, \<open>sha1h\<close>).

  \<^bold>\<open>Loops.\<close> There is no fuel. Loops with a bound are total functions with a measure. Loops whose
  end depends on a device, on the shape of the heap or on the clock are partial functions into
  \<open>option\<close> (\<open>wait_fr\<close>, \<open>send_loop\<close>, \<open>lfree_loop\<close>, \<open>malloc_loop\<close>, \<open>check_loop\<close>, \<open>getline_loop\<close>); that they
  return is proved under the condition that makes them end: a live UART, a frame length that
  does not wrap, a well-formed heap, timer functions that take little time.

  \<^bold>\<open>Parameters.\<close> The values of device registers, the clock, the timer functions of the protocols, the
  answers of the DNS and TCP functions to the HTTP client, and the packet buffer functions that
  \<open>ethernetif_input\<close> calls are arguments of the definitions.

  \<^bold>\<open>Not modelled.\<close> The start-up code and the linker script (assembler); \<open>main\<close> itself, the dispatch of
  the commands and the initialisation in sequence; the protocols of lwIP (TCP, UDP, DNS, DHCP,
  ARP, IP, ICMP), its packet buffers and its interface list; what the configuration or the
  \<open>Makefile\<close> leaves out (IPv6, the sequential and socket interfaces, the other link layers, PPP
  apart from its cryptographic functions). Interrupts are modelled as handlers, not as
  interleavings with the code they interrupt.
\<close>

end
